(* ===== verification/Faucet_Prelude.thy ===== *)
theory Faucet_Prelude
  imports Main "HOL-Library.Word" "HOL-Library.AList" "HOL-Library.Char_ord"
    "HOL-Library.List_Lexorder"
begin

section \<open>Shared vocabulary of the faucet-stream model\<close>

text \<open>
  What the component theories share: the \<open>Result\<close> type of the Rust sources as a sum, the
  operations of Rust's standard library the sources use on machine integers and strings, and the
  lemmas about them. A Rust \<open>String\<close> is a sequence of UTF-8 bytes, so it is modelled as a
  \<^typ>\<open>string\<close> (a list of 8-bit characters) and \<open>len()\<close> is \<^const>\<open>length\<close>. Sizes and counts
  of type \<open>usize\<close> are \<^typ>\<open>nat\<close>; where the code saturates them the bound is written out. Values of
  type \<open>u64\<close> and \<open>u32\<close> whose overflow matters are words.
\<close>

named_theorems codec_simps \<open>unfolding rules of the encoders and decoders\<close>
named_theorems gate_simps \<open>unfolding rules of the configuration gates\<close>

subsection \<open>Results\<close>

type_synonym ('e, 'a) result = "'e + 'a"

abbreviation Err :: "'e \<Rightarrow> ('e, 'a) result" where
  "Err \<equiv> Inl"

abbreviation Ok :: "'a \<Rightarrow> ('e, 'a) result" where
  "Ok \<equiv> Inr"

definition is_ok :: "('e, 'a) result \<Rightarrow> bool" where
  "is_ok r = (case r of Inl _ \<Rightarrow> False | Inr _ \<Rightarrow> True)"

definition res_bind :: "('e, 'a) result \<Rightarrow> ('a \<Rightarrow> ('e, 'b) result) \<Rightarrow> ('e, 'b) result" where
  "res_bind r f = (case r of Inl e \<Rightarrow> Inl e | Inr a \<Rightarrow> f a)"

definition map_err :: "('e \<Rightarrow> 'f) \<Rightarrow> ('e, 'a) result \<Rightarrow> ('f, 'a) result" where
  "map_err g r = (case r of Inl e \<Rightarrow> Inl (g e) | Inr a \<Rightarrow> Inr a)"

definition ok_of :: "('e, 'a) result \<Rightarrow> 'a option" where
  "ok_of r = (case r of Inl _ \<Rightarrow> None | Inr a \<Rightarrow> Some a)"

subsection \<open>Machine integers\<close>

type_synonym u16 = "16 word"
type_synonym u32 = "32 word"
type_synonym u64 = "64 word"

definition usize_max :: nat where
  "usize_max = 2 ^ 64 - 1"

definition usize_saturating_add :: "nat \<Rightarrow> nat \<Rightarrow> nat" where
  "usize_saturating_add a b = min (a + b) usize_max"

definition saturating_add :: "'a::len word \<Rightarrow> 'a word \<Rightarrow> 'a word" where
  "saturating_add a b = (if unat a + unat b < 2 ^ LENGTH('a) then a + b else - 1)"

definition saturating_sub :: "'a::len word \<Rightarrow> 'a word \<Rightarrow> 'a word" where
  "saturating_sub a b = (if b \<le> a then a - b else 0)"

subsection \<open>Characters\<close>

abbreviation ascii :: "char \<Rightarrow> nat" where
  "ascii c \<equiv> of_char c"

definition is_ascii_digit :: "char \<Rightarrow> bool" where
  "is_ascii_digit c = (48 \<le> ascii c \<and> ascii c \<le> 57)"

definition is_ascii_upper :: "char \<Rightarrow> bool" where
  "is_ascii_upper c = (65 \<le> ascii c \<and> ascii c \<le> 90)"

definition is_ascii_lower :: "char \<Rightarrow> bool" where
  "is_ascii_lower c = (97 \<le> ascii c \<and> ascii c \<le> 122)"

definition is_ascii_alphanumeric :: "char \<Rightarrow> bool" where
  "is_ascii_alphanumeric c = (is_ascii_digit c \<or> is_ascii_upper c \<or> is_ascii_lower c)"

definition to_ascii_lower :: "char \<Rightarrow> char" where
  "to_ascii_lower c = (if is_ascii_upper c then char_of (ascii c + 32) else c)"

definition eq_ignore_ascii_case :: "string \<Rightarrow> string \<Rightarrow> bool" where
  "eq_ignore_ascii_case s t = (map to_ascii_lower s = map to_ascii_lower t)"

subsection \<open>Numerals as text\<close>

definition digit_char :: "nat \<Rightarrow> char" where
  "digit_char d = char_of (if d < 10 then 48 + d else 87 + d)"

text \<open>The digits of a number in a base up to 16, most significant first (\<open>{}\<close> and \<open>{:x}\<close>).\<close>

fun show_base :: "nat \<Rightarrow> nat \<Rightarrow> string" where
  "show_base b n =
     (if b < 2 \<or> n < b then [digit_char n] else show_base b (n div b) @ [digit_char (n mod b)])"

declare show_base.simps [simp del]

definition show_nat :: "nat \<Rightarrow> string" where
  "show_nat = show_base 10"

definition show_hex :: "nat \<Rightarrow> string" where
  "show_hex = show_base 16"

definition show_int :: "int \<Rightarrow> string" where
  "show_int i = (if i < 0 then CHR ''-'' # show_nat (nat (- i)) else show_nat (nat i))"

text \<open>The \<open>{:0w$}\<close> formats pad with zeros on the left and never truncate.\<close>

definition zero_pad :: "nat \<Rightarrow> string \<Rightarrow> string" where
  "zero_pad w s = replicate (w - length s) CHR ''0'' @ s"

definition digit_value :: "char \<Rightarrow> nat" where
  "digit_value c =
     (if is_ascii_digit c then ascii c - 48
      else if is_ascii_lower c then ascii c - 87
      else if is_ascii_upper c then ascii c - 55
      else 255)"

fun digits_value :: "nat \<Rightarrow> nat \<Rightarrow> string \<Rightarrow> nat" where
  "digits_value b acc [] = acc"
| "digits_value b acc (c # cs) = digits_value b (acc * b + digit_value c) cs"

text \<open>
  \<open>uN::from_str_radix\<close>: an optional leading plus sign, then at least one digit and nothing else; a
  value at or above the bound overflows and is refused.
\<close>

definition parse_uint :: "nat \<Rightarrow> nat \<Rightarrow> string \<Rightarrow> nat option" where
  "parse_uint b bound s =
     (let ds = (case s of c # cs \<Rightarrow> if c = CHR ''+'' then cs else s | [] \<Rightarrow> [])
      in if ds = [] \<or> \<not> list_all (\<lambda>c. digit_value c < b) ds then None
         else let n = digits_value b 0 ds in if n < bound then Some n else None)"

definition parse_u64 :: "string \<Rightarrow> nat option" where
  "parse_u64 s = parse_uint 10 (2 ^ 64) s"

subsection \<open>Strings\<close>

definition starts_with :: "string \<Rightarrow> string \<Rightarrow> bool" where
  "starts_with p s = (take (length p) s = p)"

definition strip_prefix :: "string \<Rightarrow> string \<Rightarrow> string option" where
  "strip_prefix p s = (if starts_with p s then Some (drop (length p) s) else None)"

text \<open>\<open>str::split_once\<close> on a one-byte separator.\<close>

fun split_once :: "char \<Rightarrow> string \<Rightarrow> (string \<times> string) option" where
  "split_once d [] = None"
| "split_once d (c # cs) =
     (if c = d then Some ([], cs)
      else map_option (\<lambda>(a, b). (c # a, b)) (split_once d cs))"

text \<open>\<open>str::split\<close> on a one-byte separator: always at least one piece.\<close>

fun split_on :: "char \<Rightarrow> string \<Rightarrow> string list" where
  "split_on d [] = [[]]"
| "split_on d (c # cs) =
     (if c = d then [] # split_on d cs
      else (case split_on d cs of [] \<Rightarrow> [[c]] | p # ps \<Rightarrow> (c # p) # ps))"

fun join_with :: "string \<Rightarrow> string list \<Rightarrow> string" where
  "join_with sep [] = []"
| "join_with sep [x] = x"
| "join_with sep (x # y # ys) = x @ sep @ join_with sep (y # ys)"

text \<open>
  \<open>str::trim\<close> removes the code points with the Unicode property White\_Space. The encodings of
  these code points in UTF-8 are listed here byte by byte.
\<close>

definition utf8_spaces :: "string list" where
  "utf8_spaces =
     map (\<lambda>n. [char_of n]) [9::nat, 10, 11, 12, 13, 32]
     @ [[char_of (194::nat), char_of (133::nat)], [char_of (194::nat), char_of (160::nat)]]
     @ [[char_of (225::nat), char_of (154::nat), char_of (128::nat)]]
     @ map (\<lambda>n. [char_of (226::nat), char_of (128::nat), char_of n]) ([128::nat..<139] @ [168, 169, 175])
     @ [[char_of (226::nat), char_of (129::nat), char_of (159::nat)],
        [char_of (227::nat), char_of (128::nat), char_of (128::nat)]]"

definition leading_space :: "string list \<Rightarrow> string \<Rightarrow> nat" where
  "leading_space ws s = (case find (\<lambda>w. w \<noteq> [] \<and> starts_with w s) ws of None \<Rightarrow> 0 | Some w \<Rightarrow> length w)"

function trim_leading :: "string list \<Rightarrow> string \<Rightarrow> string" where
  "trim_leading ws s =
     (let n = leading_space ws s in if n = 0 \<or> s = [] then s else trim_leading ws (drop n s))"
  by pat_completeness auto
termination
  by (relation "measure (\<lambda>(ws, s). length s)") (auto simp: Let_def)

declare trim_leading.simps [simp del]

definition trim :: "string \<Rightarrow> string" where
  "trim s = rev (trim_leading (map rev utf8_spaces) (rev (trim_leading utf8_spaces s)))"

section \<open>Lemmas\<close>

subsection \<open>Results, words and lists\<close>

lemma is_ok_simps [simp]: "is_ok (Ok a)" "\<not> is_ok (Err e)"
  by (simp_all add: is_ok_def)

lemma is_ok_iff: "is_ok r \<longleftrightarrow> (\<exists>a. r = Ok a)"
  by (cases r) auto

lemma res_bind_simps [simp]: "res_bind (Ok a) f = f a" "res_bind (Err e) f = Err e"
  by (simp_all add: res_bind_def)

lemma res_bind_Ok_iff: "res_bind r f = Ok b \<longleftrightarrow> (\<exists>a. r = Ok a \<and> f a = Ok b)"
  by (cases r) auto

lemma map_err_simps [simp]: "map_err g (Ok a) = Ok a" "map_err g (Err e) = Err (g e)"
  by (simp_all add: map_err_def)

lemma map_err_Ok_iff [simp]: "map_err g r = Ok a \<longleftrightarrow> r = Ok a"
  by (cases r) auto

lemma ok_of_simps [simp]: "ok_of (Ok a) = Some a" "ok_of (Err e) = None"
  by (simp_all add: ok_of_def)

lemma unat_saturating_add: "unat (saturating_add a b) = min (unat a + unat b) (2 ^ LENGTH('a) - 1)"
  for a b :: "'a::len word"
proof (cases "unat a + unat b < 2 ^ LENGTH('a)")
  case True
  then show ?thesis by (simp add: saturating_add_def unat_word_ariths)
next
  case False
  have "unat (- 1 :: 'a word) = 2 ^ LENGTH('a) - 1"
    by (simp add: unsigned_minus_1_eq_mask mask_eq_exp_minus_1)
  with False show ?thesis by (simp add: saturating_add_def)
qed

lemma unat_saturating_sub: "unat (saturating_sub a b) = unat a - unat b"
  by (auto simp: saturating_sub_def unat_sub word_le_nat_alt)

lemma usize_saturating_add_le: "usize_saturating_add a b \<le> a + b"
  by (simp add: usize_saturating_add_def)

subsection \<open>Digits\<close>

lemma digit_value_digit_char [simp]: "d < 16 \<Longrightarrow> digit_value (digit_char d) = d"
  by (auto simp: digit_value_def digit_char_def is_ascii_digit_def is_ascii_lower_def)

lemma digit_char_ascii: "d < 10 \<Longrightarrow> is_ascii_digit (digit_char d)"
  by (simp add: digit_char_def is_ascii_digit_def)

lemma digits_value_append: "digits_value b acc (s @ t) = digits_value b (digits_value b acc s) t"
  by (induction s arbitrary: acc) auto

lemma digits_value_show_base:
  assumes "2 \<le> b" "b \<le> 16"
  shows "digits_value b 0 (show_base b n) = n"
proof (induction n rule: less_induct)
  case (less n)
  show ?case
  proof (cases "n < b")
    case True
    then show ?thesis using assms by (simp add: show_base.simps [of b n])
  next
    case False
    have "n div b < n" using assms False by (intro div_less_dividend) auto
    moreover have "n mod b < 16"
      using assms mod_less_divisor [of b n] by linarith
    ultimately show ?thesis
      using assms False less.IH by (simp add: show_base.simps [of b n] digits_value_append)
  qed
qed

lemma show_base_nonempty [simp]: "show_base b n \<noteq> []"
  by (simp add: show_base.simps)

lemma show_base_digits:
  assumes "2 \<le> b" "b \<le> 16"
  shows "list_all (\<lambda>c. digit_value c < b) (show_base b n)"
proof (induction n rule: less_induct)
  case (less n)
  show ?case
  proof (cases "n < b")
    case True
    then show ?thesis using assms by (simp add: show_base.simps [of b n])
  next
    case False
    have "n div b < n" using assms False by (intro div_less_dividend) auto
    moreover have m: "n mod b < b" using assms by simp
    moreover have "n mod b < 16" using m assms by linarith
    ultimately show ?thesis
      using assms False less.IH by (simp add: show_base.simps [of b n])
  qed
qed

lemma digits_value_zeros [simp]: "digits_value b 0 (replicate k CHR ''0'') = 0"
  by (induction k) (auto simp: digit_value_def is_ascii_digit_def)

lemma zero_pad_digits:
  "0 < b \<Longrightarrow> list_all (\<lambda>c. digit_value c < b) s \<Longrightarrow> list_all (\<lambda>c. digit_value c < b) (zero_pad w s)"
  by (auto simp: zero_pad_def list_all_iff digit_value_def is_ascii_digit_def)

lemma length_zero_pad: "length (zero_pad w s) = max w (length s)"
  by (simp add: zero_pad_def)

lemma digits_value_zero_pad: "digits_value b 0 (zero_pad w s) = digits_value b 0 s"
  by (simp add: zero_pad_def digits_value_append)

lemma parse_uint_zero_pad_show:
  assumes "2 \<le> b" "b \<le> 16" "n < bound"
  shows "parse_uint b bound (zero_pad w (show_base b n)) = Some n"
proof -
  let ?s = "zero_pad w (show_base b n)"
  have ds: "list_all (\<lambda>c. digit_value c < b) ?s"
    using assms by (intro zero_pad_digits show_base_digits) auto
  have ne: "?s \<noteq> []" by (simp add: zero_pad_def)
  have "digit_value CHR ''+'' = 255"
    by (simp add: digit_value_def is_ascii_digit_def is_ascii_lower_def is_ascii_upper_def)
  with ds assms(2) ne have "(case ?s of c # cs \<Rightarrow> if c = CHR ''+'' then cs else ?s | [] \<Rightarrow> []) = ?s"
    by (cases ?s) auto
  with ds ne assms show ?thesis
    by (simp add: parse_uint_def digits_value_zero_pad digits_value_show_base)
qed

lemma length_show_base_le:
  assumes "2 \<le> b" "n < b ^ Suc k"
  shows "length (show_base b n) \<le> Suc k"
  using assms(2)
proof (induction k arbitrary: n)
  case 0
  then show ?case by (simp add: show_base.simps)
next
  case (Suc k)
  show ?case
  proof (cases "n < b")
    case True
    then show ?thesis by (simp add: show_base.simps)
  next
    case False
    have "n div b < b ^ Suc k"
      using Suc.prems assms(1) by (simp add: less_mult_imp_div_less mult.commute)
    from Suc.IH [OF this] False assms(1) show ?thesis by (simp add: show_base.simps [of b n])
  qed
qed

subsection \<open>Trimming and splitting\<close>

lemma leading_space_0: "(\<And>w. w \<in> set ws \<Longrightarrow> w = [] \<or> hd w \<noteq> c) \<Longrightarrow> leading_space ws (c # s) = 0"
proof -
  assume h: "\<And>w. w \<in> set ws \<Longrightarrow> w = [] \<or> hd w \<noteq> c"
  have "\<not> (w \<noteq> [] \<and> starts_with w (c # s))" if "w \<in> set ws" for w
    using h [OF that] by (cases w) (auto simp: starts_with_def)
  then have "find (\<lambda>w. w \<noteq> [] \<and> starts_with w (c # s)) ws = None"
    by (auto simp: find_None_iff)
  then show ?thesis by (simp add: leading_space_def)
qed

lemma trim_leading_id: "leading_space ws s = 0 \<Longrightarrow> trim_leading ws s = s"
  by (simp add: trim_leading.simps)

lemma utf8_spaces_not_digit:
  assumes "is_ascii_digit c"
  shows "leading_space utf8_spaces (c # s) = 0" "leading_space (map rev utf8_spaces) (c # s) = 0"
proof -
  have "48 \<le> ascii c \<and> ascii c \<le> (57::nat)" using assms by (simp add: is_ascii_digit_def)
  then show "leading_space utf8_spaces (c # s) = 0" "leading_space (map rev utf8_spaces) (c # s) = 0"
    by (intro leading_space_0; auto simp: utf8_spaces_def)+
qed

lemma trim_digits:
  assumes "s \<noteq> []" "is_ascii_digit (hd s)" "is_ascii_digit (last s)"
  shows "trim s = s"
proof -
  have 1: "trim_leading utf8_spaces s = s"
    using assms(1,2) by (cases s) (auto intro!: trim_leading_id utf8_spaces_not_digit)
  have 2: "trim_leading (map rev utf8_spaces) (rev s) = rev s"
    using assms(1,3) by (cases s rule: rev_cases) (auto intro!: trim_leading_id utf8_spaces_not_digit)
  show ?thesis by (simp add: trim_def 1 2)
qed

lemma split_once_first:
  "d \<notin> set p \<Longrightarrow> split_once d (p @ d # s) = Some (p, s)"
  by (induction p) auto

lemma split_once_None: "d \<notin> set p \<Longrightarrow> split_once d p = None"
  by (induction p) auto

lemma split_once_Some: "split_once d s = Some (p, t) \<Longrightarrow> s = p @ d # t \<and> d \<notin> set p"
  by (induction s arbitrary: p) (auto split: if_splits)

lemma starts_with_append [simp]: "starts_with p (p @ s)"
  by (simp add: starts_with_def)

lemma starts_with_iff: "starts_with p s \<longleftrightarrow> (\<exists>t. s = p @ t)"
  by (auto simp: starts_with_def) (metis append_take_drop_id)

lemma strip_prefix_Some: "strip_prefix p s = Some t \<longleftrightarrow> s = p @ t"
  by (auto simp: strip_prefix_def starts_with_iff)

subsection \<open>Codecs\<close>

text \<open>
  The contract of an encoder with its decoder: what is encoded from the domain \<open>D\<close> is decoded to
  itself. The tokens, the state envelopes, the dead-letter records and the state-key components are
  instances.
\<close>

locale codec =
  fixes enc :: "'a \<Rightarrow> 'b"
    and dec :: "'b \<Rightarrow> 'a option"
    and D :: "'a set"
  assumes decode_encode: "x \<in> D \<Longrightarrow> dec (enc x) = Some x"
begin

lemma encode_inj_on: "inj_on enc D"
  by (rule inj_onI) (metis decode_encode option.inject)

lemma encode_eq_iff: "x \<in> D \<Longrightarrow> y \<in> D \<Longrightarrow> enc x = enc y \<longleftrightarrow> x = y"
  using encode_inj_on by (auto dest: inj_onD)

lemma decode_image: "map (dec \<circ> enc) xs = map Some xs" if "set xs \<subseteq> D"
  using that by (auto simp: decode_encode)

end

end
