(* ===== verification/Json_Value.thy ===== *)
theory Json_Value
  imports Complex_Main Faucet_Prelude
begin

section \<open>JSON values\<close>

text \<open>
  The value type every record, bookmark and state entry has (\<open>serde_json::Value\<close>). The type is the
  interface of a library the sources use; only what the sources observe of it is modelled: its
  constructors, the accessors and the object operations. Objects are association lists in the
  iteration order of the map, which is insertion order in the \<open>faucet\<close> binary (its build enables
  \<open>preserve_order\<close>). A finite \<open>f64\<close> is a sign and a magnitude, so that negative zero is a value of
  its own. Rendering to text and parsing text are parameters of the definitions that use them.
\<close>

datatype f64 = F64 (f64_neg: bool) (f64_mag: rat)

datatype number = PosInt u64 | NegInt int | Float f64

datatype "value" =
    Null
  | Bool bool
  | Number number
  | String string
  | Array "value list"
  | Object "(string \<times> value) list"

type_synonym json_object = "(string \<times> value) list"

definition value_get :: "string \<Rightarrow> value \<Rightarrow> value option" where
  "value_get k v = (case v of Object m \<Rightarrow> map_of m k | _ \<Rightarrow> None)"

fun as_u64 :: "value \<Rightarrow> u64 option" where
  "as_u64 (Number (PosInt n)) = Some n"
| "as_u64 _ = None"

fun as_i64 :: "value \<Rightarrow> int option" where
  "as_i64 (Number (PosInt n)) = (if uint n < 2 ^ 63 then Some (uint n) else None)"
| "as_i64 (Number (NegInt i)) = Some i"
| "as_i64 _ = None"

fun as_str :: "value \<Rightarrow> string option" where
  "as_str (String s) = Some s"
| "as_str _ = None"

fun as_bool :: "value \<Rightarrow> bool option" where
  "as_bool (Bool b) = Some b"
| "as_bool _ = None"

fun as_object :: "value \<Rightarrow> json_object option" where
  "as_object (Object m) = Some m"
| "as_object _ = None"

fun as_array :: "value \<Rightarrow> value list option" where
  "as_array (Array xs) = Some xs"
| "as_array _ = None"

fun is_null :: "value \<Rightarrow> bool" where
  "is_null Null = True"
| "is_null _ = False"

fun is_string :: "value \<Rightarrow> bool" where
  "is_string (String _) = True"
| "is_string _ = False"

definition value_of_u64 :: "u64 \<Rightarrow> value" where
  "value_of_u64 n = Number (PosInt n)"

definition value_of_nat :: "nat \<Rightarrow> value" where
  "value_of_nat n = Number (PosInt (of_nat n))"

definition value_of_int :: "int \<Rightarrow> value" where
  "value_of_int i = Number (if i < 0 then NegInt i else PosInt (of_int i))"

text \<open>\<open>Map::insert\<close> replaces the value of a present key in place and appends an absent key.\<close>

definition obj_insert :: "string \<Rightarrow> value \<Rightarrow> json_object \<Rightarrow> json_object" where
  "obj_insert = AList.update"

text \<open>The sources only build objects whose keys are distinct, at every depth.\<close>

fun wf_value :: "value \<Rightarrow> bool" where
  "wf_value (Array xs) = list_all wf_value xs"
| "wf_value (Object m) = (distinct (map fst m) \<and> list_all (\<lambda>(k, v). wf_value v) m)"
| "wf_value (Number (NegInt i)) = (- (2 ^ 63) \<le> i \<and> i < 0)"
| "wf_value _ = True"

section \<open>Lemmas\<close>

lemma value_get_Object [simp]: "value_get k (Object m) = map_of m k"
  by (simp add: value_get_def)

lemma value_get_non_object: "as_object v = None \<Longrightarrow> value_get k v = None"
  by (cases v) (auto simp: value_get_def)

lemma map_of_obj_insert [simp]: "map_of (obj_insert k v m) = (map_of m)(k \<mapsto> v)"
  by (simp add: obj_insert_def update_conv')

lemma keys_obj_insert: "fst ` set (obj_insert k v m) = insert k (fst ` set m)"
  by (simp add: obj_insert_def dom_update)

lemma distinct_obj_insert: "distinct (map fst m) \<Longrightarrow> distinct (map fst (obj_insert k v m))"
  by (simp add: obj_insert_def distinct_update)

lemma as_u64_value_of_u64 [simp]: "as_u64 (value_of_u64 n) = Some n"
  by (simp add: value_of_u64_def)

lemma as_u64_value_of_nat: "n < 2 ^ 64 \<Longrightarrow> as_u64 (value_of_nat n) = Some (of_nat n)"
  by (simp add: value_of_nat_def)

lemma as_i64_value_of_int:
  assumes "- (2 ^ 63) \<le> i" "i < 2 ^ 63"
  shows "as_i64 (value_of_int i) = Some i"
proof (cases "i < 0")
  case True
  then show ?thesis by (simp add: value_of_int_def)
next
  case False
  with assms have "uint (of_int i :: u64) = i"
    by (simp add: uint_word_of_int mod_pos_pos_trivial flip: word_of_int_eq_iff of_int_eq_iff)
  with False assms show ?thesis by (simp add: value_of_int_def)
qed

lemma is_null_iff [simp]: "is_null v \<longleftrightarrow> v = Null"
  by (cases v) auto

lemma as_object_Some [simp]: "as_object v = Some m \<longleftrightarrow> v = Object m"
  by (cases v) auto

lemma as_str_Some [simp]: "as_str v = Some s \<longleftrightarrow> v = String s"
  by (cases v) auto

end
