(* ===== verification/Faucet_Error.thy ===== *)
theory Faucet_Error
  imports Json_Value
begin

section \<open>Errors (\<open>crates/core/src/error.rs\<close>)\<close>

text \<open>
  The error type of every fallible operation, its \<open>Display\<close> text, the label the metrics and the
  dead-letter envelopes carry, and the retriability test. The variants that wrap an error of another
  library carry what the sources observe of it: an HTTP client error its timeout flag, its status and
  its text, the others their text. A \<open>Duration\<close> is its number of nanoseconds.
\<close>

type_synonym duration = nat

definition nanos_per_sec :: nat where
  "nanos_per_sec = 1000000000"

definition duration_max :: duration where
  "duration_max = (2 ^ 64 - 1) * nanos_per_sec + 999999999"

record http_error =
  he_is_timeout :: bool
  he_status :: "nat option"
  he_is_connect :: bool
  he_text :: string

datatype faucet_error =
    Http http_error
  | HttpStatus nat string string
  | Json string
  | JsonPath string
  | Auth string
  | RateLimited duration
  | Url string
  | Transform string
  | Config string
  | Source string
  | Sink string
  | QualityFailure string string
  | SchemaDrift "string list" string
  | PolicyViolation string string string
  | BudgetExceeded string nat nat
  | RowsUnaccounted nat nat
  | ProfileDrift "string list" string
  | ContractViolation string string
  | State string
  | StateIncompatible string string string
  | CircuitOpen u32 duration
  | Timeout string duration
  | Cancelled string
  | Custom string

type_synonym 'a fres = "(faucet_error, 'a) result"

subsection \<open>Display\<close>

text \<open>\<open>Debug\<close> of a \<open>Duration\<close>: the largest unit that is not zero, with the fraction it leaves.\<close>

definition fmt_decimal :: "nat \<Rightarrow> nat \<Rightarrow> nat \<Rightarrow> string \<Rightarrow> string" where
  "fmt_decimal whole fr width unit =
     show_nat whole
     @ (if fr = 0 then []
        else CHR ''.'' # rev (dropWhile (\<lambda>c. c = CHR ''0'') (rev (zero_pad width (show_nat fr)))))
     @ unit"

definition debug_duration :: "duration \<Rightarrow> string" where
  "debug_duration d =
     (if nanos_per_sec \<le> d then fmt_decimal (d div nanos_per_sec) (d mod nanos_per_sec) 9 ''s''
      else if 1000000 \<le> d then fmt_decimal (d div 1000000) (d mod 1000000) 6 ''ms''
      else if 1000 \<le> d then
        fmt_decimal (d div 1000) (d mod 1000) 3 [char_of (194::nat), char_of (181::nat), CHR ''s'']
      else fmt_decimal d 0 1 ''ns'')"

text \<open>\<open>Debug\<close> of a string; printable text outside ASCII is left as it is.\<close>

definition debug_char :: "char \<Rightarrow> string" where
  "debug_char c =
     (if ascii c = 0 then [CHR 0x5C, CHR ''0'']
      else if ascii c = 9 then [CHR 0x5C, CHR ''t'']
      else if ascii c = 10 then [CHR 0x5C, CHR ''n'']
      else if ascii c = 13 then [CHR 0x5C, CHR ''r'']
      else if ascii c = 34 then [CHR 0x5C, c]
      else if ascii c = 92 then [CHR 0x5C, c]
      else if ascii c < 32 \<or> ascii c = 127 then [CHR 0x5C] @ ''u{'' @ show_hex (ascii c) @ ''}''
      else [c])"

definition debug_string :: "string \<Rightarrow> string" where
  "debug_string s = [CHR 0x22] @ concat (map debug_char s) @ [CHR 0x22]"

definition debug_strings :: "string list \<Rightarrow> string" where
  "debug_strings xs = ''['' @ join_with '', '' (map debug_string xs) @ '']''"

fun error_display :: "faucet_error \<Rightarrow> string" where
  "error_display (Http e) = ''HTTP error: '' @ he_text e"
| "error_display (HttpStatus status url body) =
     ''HTTP '' @ show_nat status @ '' from '' @ url @ '': '' @ body"
| "error_display (Json e) = ''JSON error: '' @ e"
| "error_display (JsonPath m) = ''JSONPath error: '' @ m"
| "error_display (Auth m) = ''Auth error: '' @ m"
| "error_display (RateLimited d) = ''Rate limited: retry after '' @ debug_duration d"
| "error_display (Url m) = ''URL error: '' @ m"
| "error_display (Transform m) = ''Transform error: '' @ m"
| "error_display (Config m) = ''Config error: '' @ m"
| "error_display (Source m) = ''Source error: '' @ m"
| "error_display (Sink m) = ''Sink error: '' @ m"
| "error_display (QualityFailure check message) =
     ''Quality check '' @ [CHR 0x27] @ check @ [CHR 0x27] @ '' failed: '' @ message"
| "error_display (SchemaDrift columns message) =
     ''Schema drift on columns '' @ debug_strings columns @ '': '' @ message"
| "error_display (PolicyViolation rule column message) =
     ''Policy '' @ [CHR 0x60] @ rule @ [CHR 0x60] @ '' violated on column '' @ [CHR 0x60] @ column
     @ [CHR 0x60] @ '': '' @ message"
| "error_display (BudgetExceeded budget limit actual) =
     ''Budget '' @ [CHR 0x60] @ budget @ [CHR 0x60] @ '' exceeded: limit '' @ show_nat limit
     @ '', actual '' @ show_nat actual"
| "error_display (RowsUnaccounted offered accepted) =
     ''Rows unaccounted: the sink accepted '' @ show_nat accepted @ '' of '' @ show_nat offered
     @ '' offered rows and reported no per-row failure or coalescing for the rest''"
| "error_display (ProfileDrift columns message) =
     ''Profile drift on columns '' @ debug_strings columns @ '': '' @ message"
| "error_display (ContractViolation version message) =
     ''Contract v'' @ version @ '' violated: '' @ message"
| "error_display (State m) = ''State error: '' @ m"
| "error_display (StateIncompatible key found expected) =
     ''state '' @ [CHR 0x27] @ key @ [CHR 0x27] @ '' is incompatible: found '' @ found
     @ '', expected '' @ expected @ [CHR '' '', char_of (226::nat), char_of (128::nat), char_of (148::nat)]
     @ '' it was written by a newer faucet or by a different source; run the release that wrote it, ''
     @ ''or reset the row ('' @ [CHR 0x60] @ ''faucet state reset'' @ [CHR 0x60]
     @ '') after confirming where it should resume''"
| "error_display (CircuitOpen failures cooldown) =
     ''Circuit open after '' @ show_nat (unat failures) @ '' consecutive failures; cooldown ''
     @ debug_duration cooldown"
| "error_display (Timeout operation elapsed) = operation @ '' timed out after '' @ debug_duration elapsed"
| "error_display (Cancelled operation) = operation @ '' cancelled''"
| "error_display (Custom e) = ''Connector error: '' @ e"

text \<open>The label of an error (\<open>observability/decorator.rs\<close>).\<close>

fun error_kind :: "faucet_error \<Rightarrow> string" where
  "error_kind (Http _) = ''Http''"
| "error_kind (HttpStatus _ _ _) = ''HttpStatus''"
| "error_kind (Json _) = ''Json''"
| "error_kind (JsonPath _) = ''JsonPath''"
| "error_kind (Auth _) = ''Auth''"
| "error_kind (RateLimited _) = ''RateLimited''"
| "error_kind (Url _) = ''Url''"
| "error_kind (Transform _) = ''Transform''"
| "error_kind (Config _) = ''Config''"
| "error_kind (Source _) = ''Source''"
| "error_kind (Sink _) = ''Sink''"
| "error_kind (QualityFailure _ _) = ''QualityFailure''"
| "error_kind (SchemaDrift _ _) = ''SchemaDrift''"
| "error_kind (ProfileDrift _ _) = ''ProfileDrift''"
| "error_kind (PolicyViolation _ _ _) = ''PolicyViolation''"
| "error_kind (BudgetExceeded _ _ _) = ''BudgetExceeded''"
| "error_kind (RowsUnaccounted _ _) = ''RowsUnaccounted''"
| "error_kind (ContractViolation _ _) = ''ContractViolation''"
| "error_kind (State _) = ''State''"
| "error_kind (StateIncompatible _ _ _) = ''StateIncompatible''"
| "error_kind (CircuitOpen _ _) = ''CircuitOpen''"
| "error_kind (Timeout _ _) = ''Timeout''"
| "error_kind (Cancelled _) = ''Cancelled''"
| "error_kind (Custom _) = ''Custom''"

subsection \<open>Construction and retriability\<close>

definition sink_status :: "nat option \<Rightarrow> string \<Rightarrow> string \<Rightarrow> faucet_error" where
  "sink_status status url message =
     (case status of
        Some s \<Rightarrow> if s = 429 \<or> 500 \<le> s then HttpStatus s url message else Sink message
      | None \<Rightarrow> Sink message)"

text \<open>\<open>StatusCode::is_server_error\<close> is the range 500 to 599.\<close>

fun is_retriable :: "faucet_error \<Rightarrow> bool" where
  "is_retriable (Http e) =
     (case he_status e of Some status \<Rightarrow> 500 \<le> status \<and> status < 600 | None \<Rightarrow> True)"
| "is_retriable (HttpStatus status _ _) = (500 \<le> status \<or> status = 429)"
| "is_retriable (RateLimited _) = True"
| "is_retriable (Timeout _ _) = True"
| "is_retriable _ = False"

section \<open>Lemmas\<close>

lemma sink_status_retriable:
  "is_retriable (sink_status status url message) \<longleftrightarrow> (\<exists>s. status = Some s \<and> (s = 429 \<or> 500 \<le> s))"
  by (auto simp: sink_status_def split: option.splits)

end
