(* ===== verification/Accounting.thy ===== *)
theory Accounting
  imports Faucet_Error
begin

section \<open>Row accounting (\<open>crates/core/src/accounting.rs\<close>)\<close>

text \<open>
  What a sink reports of a page, the account of one page, and the counters of a run. Row counts are
  natural numbers; the saturating sum of a report is written out. The atomics of the run's counters are
  plain fields, since one task writes them, and the metric and the log line of a failed page are not
  modelled.
\<close>

record write_report =
  wr_accepted :: nat
  wr_coalesced :: nat
  wr_skipped :: nat

definition WriteReport_accepted :: "nat \<Rightarrow> write_report" where
  "WriteReport_accepted accepted = \<lparr> wr_accepted = accepted, wr_coalesced = 0, wr_skipped = 0 \<rparr>"

definition with_coalesced :: "nat \<Rightarrow> write_report \<Rightarrow> write_report" where
  "with_coalesced coalesced r = r\<lparr> wr_coalesced := coalesced \<rparr>"

definition with_skipped :: "nat \<Rightarrow> write_report \<Rightarrow> write_report" where
  "with_skipped skipped r = r\<lparr> wr_skipped := skipped \<rparr>"

definition WriteReport_keyed :: "nat \<Rightarrow> nat \<Rightarrow> write_report" where
  "WriteReport_keyed offered planned = with_coalesced (offered - planned) (WriteReport_accepted planned)"

definition report_accounted :: "write_report \<Rightarrow> nat" where
  "report_accounted r =
     usize_saturating_add (usize_saturating_add (wr_accepted r) (wr_coalesced r)) (wr_skipped r)"

definition report_check :: "write_report \<Rightarrow> nat \<Rightarrow> unit fres" where
  "report_check r offered =
     (if offered \<le> report_accounted r then Ok () else Err (RowsUnaccounted offered (wr_accepted r)))"

record row_accounts =
  ra_transform_in :: nat
  ra_transform_out :: nat
  ra_offered :: nat
  ra_accepted :: nat
  ra_coalesced :: nat
  ra_skipped :: nat
  ra_failed :: nat
  ra_quarantined :: nat
  ra_dropped :: nat
  ra_unaccounted :: nat
  ra_non_finite :: nat

definition RowAccounts_new :: row_accounts where
  "RowAccounts_new =
     \<lparr> ra_transform_in = 0, ra_transform_out = 0, ra_offered = 0, ra_accepted = 0, ra_coalesced = 0,
       ra_skipped = 0, ra_failed = 0, ra_quarantined = 0, ra_dropped = 0, ra_unaccounted = 0,
       ra_non_finite = 0 \<rparr>"

definition filtered :: "row_accounts \<Rightarrow> nat" where
  "filtered a = ra_transform_in a - ra_transform_out a"

definition balanced :: "row_accounts \<Rightarrow> bool" where
  "balanced a =
     (ra_offered a \<le> ra_accepted a + ra_coalesced a + ra_skipped a + ra_failed a + ra_quarantined a
        + ra_dropped a
      \<and> ra_unaccounted a = 0)"

definition summary_line :: "row_accounts \<Rightarrow> string" where
  "summary_line a =
     ''rows: offered '' @ show_nat (ra_offered a) @ '', accepted '' @ show_nat (ra_accepted a)
     @ concat (map (\<lambda>(label, n). if 0 < n then '', '' @ label @ '' '' @ show_nat n else [])
         [(''coalesced'', ra_coalesced a), (''skipped'', ra_skipped a), (''failed to DLQ'', ra_failed a),
          (''quarantined'', ra_quarantined a), (''dropped'', ra_dropped a),
          (''filtered by transforms'', filtered a), (''unaccounted'', ra_unaccounted a),
          (''non-finite values written as null'', ra_non_finite a)])"

definition add_non_finite :: "nat \<Rightarrow> row_accounts \<Rightarrow> row_accounts" where
  "add_non_finite n a = a\<lparr> ra_non_finite := ra_non_finite a + n \<rparr>"

definition add_transform :: "nat \<Rightarrow> nat \<Rightarrow> row_accounts \<Rightarrow> row_accounts" where
  "add_transform input output a =
     a\<lparr> ra_transform_in := ra_transform_in a + input, ra_transform_out := ra_transform_out a + output \<rparr>"

record page_account =
  pa_offered :: nat
  pa_accepted :: nat
  pa_coalesced :: nat
  pa_skipped :: nat
  pa_failed :: nat
  pa_quarantined :: nat
  pa_dropped :: nat

definition PageAccount_new :: "nat \<Rightarrow> page_account" where
  "PageAccount_new offered =
     \<lparr> pa_offered = offered, pa_accepted = 0, pa_coalesced = 0, pa_skipped = 0, pa_failed = 0,
       pa_quarantined = 0, pa_dropped = 0 \<rparr>"

definition add_report :: "write_report \<Rightarrow> page_account \<Rightarrow> page_account" where
  "add_report r p =
     p\<lparr> pa_accepted := pa_accepted p + wr_accepted r,
        pa_coalesced := pa_coalesced p + wr_coalesced r,
        pa_skipped := pa_skipped p + wr_skipped r \<rparr>"

definition page_accounted :: "page_account \<Rightarrow> nat" where
  "page_accounted p =
     pa_accepted p + pa_coalesced p + pa_skipped p + pa_failed p + pa_quarantined p + pa_dropped p"

definition settle_counts :: "page_account \<Rightarrow> row_accounts \<Rightarrow> row_accounts" where
  "settle_counts p a =
     a\<lparr> ra_offered := ra_offered a + pa_offered p,
        ra_accepted := ra_accepted a + pa_accepted p,
        ra_coalesced := ra_coalesced a + pa_coalesced p,
        ra_skipped := ra_skipped a + pa_skipped p,
        ra_failed := ra_failed a + pa_failed p,
        ra_quarantined := ra_quarantined a + pa_quarantined p,
        ra_dropped := ra_dropped a + pa_dropped p,
        ra_unaccounted := ra_unaccounted a + (pa_offered p - page_accounted p) \<rparr>"

definition settle :: "page_account \<Rightarrow> row_accounts option \<Rightarrow> unit fres \<times> row_accounts option" where
  "settle p accounts =
     (let missing = pa_offered p - page_accounted p;
          accounts = map_option (settle_counts p) accounts
      in if missing = 0 then (Ok (), accounts)
         else (Err (RowsUnaccounted (pa_offered p) (pa_accepted p)), accounts))"

section \<open>Lemmas\<close>

lemma settle_ok_iff: "fst (settle p accounts) = Ok u \<longleftrightarrow> pa_offered p \<le> page_accounted p"
  by (auto simp: settle_def Let_def)

lemma settle_error: "fst (settle p accounts) = Err e \<Longrightarrow> e = RowsUnaccounted (pa_offered p) (pa_accepted p)"
  by (auto simp: settle_def Let_def split: if_splits)

lemma report_check_keyed: "report_check (WriteReport_keyed offered planned) offered = Ok ()"
  if "offered < 2 ^ 64"
  using that
  by (auto simp: report_check_def report_accounted_def WriteReport_keyed_def with_coalesced_def
      WriteReport_accepted_def usize_saturating_add_def usize_max_def)

text \<open>The counters of a run after a list of settled pages.\<close>

definition settle_all :: "page_account list \<Rightarrow> row_accounts \<Rightarrow> row_accounts" where
  "settle_all pages a = fold settle_counts pages a"

lemma settle_all_unaccounted:
  "ra_unaccounted (settle_all pages a) = ra_unaccounted a + (\<Sum>p\<leftarrow>pages. pa_offered p - page_accounted p)"
  by (induction pages arbitrary: a) (auto simp: settle_all_def settle_counts_def)

lemma settle_all_step:
  "settle_all (p # pages) a = settle_all pages (settle_counts p a)"
  by (simp add: settle_all_def)

lemma settle_counts_balanced:
  "pa_offered p \<le> page_accounted p \<Longrightarrow> balanced a \<Longrightarrow> balanced (settle_counts p a)"
  by (auto simp: balanced_def settle_counts_def page_accounted_def)

section \<open>Properties\<close>



end
