(* ===== verification/Float64.thy ===== *)
theory Float64
  imports Complex_Main "HOL-Library.Log_Nat" Faucet_Prelude
begin

section \<open>Double precision arithmetic\<close>

text \<open>
  What the sources use of \<open>f64\<close>: conversion from integers, products, quotients and sums of values in the
  normal range, comparisons, and the saturating conversion back. The result of an operation is the exact
  rational result rounded to 53 significant bits, ties to even. Overflow to infinity and the subnormal
  range do not occur for the counts, latencies and factors the sources compute with.
\<close>

definition round_half_even :: "rat \<Rightarrow> int" where
  "round_half_even x =
     (let n = \<lfloor>x\<rfloor>; d = x - of_int n in
      if d < 1 / 2 then n else if 1 / 2 < d then n + 1 else if even n then n else n + 1)"

text \<open>The power of two with an integer exponent.\<close>

definition pow2 :: "int \<Rightarrow> rat" where
  "pow2 e = (if 0 \<le> e then 2 ^ nat e else 1 / 2 ^ nat (- e))"

text \<open>The exponent \<open>e\<close> with \<open>2\<^sup>e \<le> x < 2\<^sup>e\<^sup>+\<^sup>1\<close> of a positive rational.\<close>

definition binade :: "rat \<Rightarrow> int" where
  "binade x =
     (let (a, b) = quotient_of x; k = bitlen a - bitlen b in if pow2 k \<le> x then k else k - 1)"

definition f64_round :: "rat \<Rightarrow> rat" where
  "f64_round x =
     (if x = 0 then 0
      else let e = binade \<bar>x\<bar> - 52 in
        sgn x * of_int (round_half_even (\<bar>x\<bar> / pow2 e)) * pow2 e)"

text \<open>The values of the type, negative zero apart.\<close>

datatype float64 = FNaN | FInf bool | Fin rat

definition f_of_nat :: "nat \<Rightarrow> float64" where
  "f_of_nat n = Fin (f64_round (of_nat n))"

definition f_lit :: "rat \<Rightarrow> float64" where
  "f_lit x = Fin (f64_round x)"

fun f_less :: "float64 \<Rightarrow> float64 \<Rightarrow> bool" where
  "f_less (Fin x) (Fin y) = (x < y)"
| "f_less (FInf neg) (Fin y) = neg"
| "f_less (Fin x) (FInf neg) = (\<not> neg)"
| "f_less (FInf a) (FInf b) = (a \<and> \<not> b)"
| "f_less _ _ = False"

definition f_le :: "float64 \<Rightarrow> float64 \<Rightarrow> bool" where
  "f_le x y = (f_less x y \<or> x = y \<and> x \<noteq> FNaN)"

fun f_mul :: "float64 \<Rightarrow> float64 \<Rightarrow> float64" where
  "f_mul (Fin x) (Fin y) = Fin (f64_round (x * y))"
| "f_mul (Fin x) (FInf neg) = (if x = 0 then FNaN else FInf (neg \<noteq> (x < 0)))"
| "f_mul (FInf neg) (Fin x) = (if x = 0 then FNaN else FInf (neg \<noteq> (x < 0)))"
| "f_mul (FInf a) (FInf b) = FInf (a \<noteq> b)"
| "f_mul _ _ = FNaN"

fun f_add :: "float64 \<Rightarrow> float64 \<Rightarrow> float64" where
  "f_add (Fin x) (Fin y) = Fin (f64_round (x + y))"
| "f_add (Fin _) (FInf neg) = FInf neg"
| "f_add (FInf neg) (Fin _) = FInf neg"
| "f_add (FInf a) (FInf b) = (if a = b then FInf a else FNaN)"
| "f_add _ _ = FNaN"

text \<open>Division by a positive integer, the only divisions of the sources modelled here.\<close>

fun f_div_nat :: "float64 \<Rightarrow> nat \<Rightarrow> float64" where
  "f_div_nat (Fin x) n = (if n = 0 then FNaN else Fin (f64_round (x / f64_round (of_nat n))))"
| "f_div_nat (FInf neg) n = FInf neg"
| "f_div_nat FNaN n = FNaN"

text \<open>\<open>x as usize\<close> and \<open>x as u64\<close>: truncation, saturating at the ends of the range, 0 for NaN.\<close>

fun f_to_u64 :: "float64 \<Rightarrow> nat" where
  "f_to_u64 FNaN = 0"
| "f_to_u64 (FInf neg) = (if neg then 0 else 2 ^ 64 - 1)"
| "f_to_u64 (Fin x) = min (nat \<lfloor>x\<rfloor>) (2 ^ 64 - 1)"

section \<open>Lemmas\<close>

lemma pow2_pos [simp]: "0 < pow2 e"
  by (simp add: pow2_def)

lemma pow2_nonzero [simp]: "pow2 e \<noteq> 0"
  using pow2_pos [of e] by linarith

lemma pow2_powi: "pow2 e = 2 powi e"
  by (simp add: pow2_def power_int_def inverse_eq_divide power_one_over)

lemma pow2_add: "pow2 (a + b) = pow2 a * pow2 b"
  by (simp add: pow2_powi power_int_add)

lemma pow2_mono: "a \<le> b \<Longrightarrow> pow2 a \<le> pow2 b"
  by (simp add: pow2_powi power_int_increasing)

lemma pow2_nat: "pow2 (int n) = 2 ^ n"
  by (simp add: pow2_def)

lemma pow2_numeral: "pow2 (numeral k) = 2 ^ numeral k"
  by (simp add: pow2_def)

lemma round_half_even_mono:
  assumes "x \<le> y"
  shows "round_half_even x \<le> round_half_even y"
proof (cases "\<lfloor>x\<rfloor> = \<lfloor>y\<rfloor>")
  case True
  with assms show ?thesis by (auto simp: round_half_even_def Let_def)
next
  case False
  with floor_mono [OF assms] have "\<lfloor>x\<rfloor> + 1 \<le> \<lfloor>y\<rfloor>" by simp
  then show ?thesis by (auto simp: round_half_even_def Let_def)
qed

lemma round_half_even_int [simp]: "round_half_even (of_int n) = n"
  by (simp add: round_half_even_def)

lemma round_half_even_numeral [simp]: "round_half_even (numeral k) = numeral k"
  using round_half_even_int [of "numeral k"] by simp

lemma bitlen_bounds':
  assumes "0 < a"
  shows "pow2 (bitlen a - 1) \<le> of_int a" "of_int a < pow2 (bitlen a)"
proof -
  from assms have "1 \<le> bitlen a" using bitlen_bounds [OF assms] by (cases "bitlen a \<le> 0") auto
  from bitlen_bounds [OF assms] have b: "2 ^ nat (bitlen a - 1) \<le> a" "a < 2 ^ nat (bitlen a)" by auto
  from \<open>1 \<le> bitlen a\<close> show "pow2 (bitlen a - 1) \<le> of_int a" "of_int a < pow2 (bitlen a)"
    using b by (simp_all add: pow2_def)
qed

lemma binade_bounds:
  assumes "0 < x"
  shows "pow2 (binade x) \<le> x" "x < pow2 (binade x + 1)"
proof -
  obtain a b where q: "quotient_of x = (a, b)" by (cases "quotient_of x")
  have b: "0 < b" using q by (rule quotient_of_denom_pos)
  have x: "x = of_int a / of_int b" using q by (rule quotient_of_div)
  have a: "0 < a" using assms b by (simp add: x zero_less_divide_iff)
  let ?k = "bitlen a - bitlen b"
  have "x < pow2 (bitlen a) / pow2 (bitlen b - 1)"
    unfolding x using bitlen_bounds' [OF a] bitlen_bounds' [OF b] a b
    by (intro frac_less) auto
  also have "\<dots> = pow2 (?k + 1)"
    using pow2_add [of "bitlen b - 1" "?k + 1"] by (simp add: field_simps)
  finally have up: "x < pow2 (?k + 1)" .
  have "pow2 (?k - 1) = pow2 (bitlen a - 1) / pow2 (bitlen b)"
    using pow2_add [of "bitlen b" "?k - 1"] by (simp add: field_simps)
  also have "\<dots> \<le> x"
    unfolding x using bitlen_bounds' [OF a] bitlen_bounds' [OF b] a b
    by (intro frac_le) auto
  finally have lo: "pow2 (?k - 1) \<le> x" .
  show "pow2 (binade x) \<le> x" "x < pow2 (binade x + 1)"
    using lo up by (auto simp: binade_def q Let_def)
qed

lemma binade_mono:
  assumes "0 < x" "x \<le> y"
  shows "binade x \<le> binade y"
proof (rule ccontr)
  assume "\<not> ?thesis"
  then have "pow2 (binade y + 1) \<le> pow2 (binade x)" by (intro pow2_mono) simp
  with binade_bounds [of x] binade_bounds [of y] assms show False by simp
qed

lemma binade_unique:
  assumes "pow2 e \<le> x" "x < pow2 (e + 1)"
  shows "binade x = e"
proof -
  have x: "0 < x" using assms(1) pow2_pos [of e] by linarith
  have "\<not> pow2 (e + 1) \<le> pow2 (binade x)" "\<not> pow2 (binade x + 1) \<le> pow2 e"
    using binade_bounds [OF x] assms by auto
  then show ?thesis using pow2_mono by (metis linorder_le_cases not_less zless_add1_eq order_antisym
        add1_zle_eq linorder_not_less)
qed

definition mantissa :: "rat \<Rightarrow> rat" where
  "mantissa x = x / pow2 (binade x - 52)"

lemma f64_round_pos:
  "0 < x \<Longrightarrow> f64_round x = of_int (round_half_even (mantissa x)) * pow2 (binade x - 52)"
  by (simp add: f64_round_def mantissa_def Let_def)

lemma mantissa_bounds:
  assumes "0 < x"
  shows "2 ^ 52 \<le> mantissa x" "mantissa x < 2 ^ 53"
proof -
  have "pow2 (binade x) = pow2 (int 52) * pow2 (binade x - 52)"
    "pow2 (binade x + 1) = pow2 (int 53) * pow2 (binade x - 52)"
    by (simp_all add: add.commute flip: pow2_add)
  with binade_bounds [OF assms] show "2 ^ 52 \<le> mantissa x" "mantissa x < 2 ^ 53"
    unfolding pow2_nat by (simp_all add: mantissa_def field_simps)
qed

lemma rounded_mantissa_bounds:
  assumes "0 < x"
  shows "2 ^ 52 \<le> round_half_even (mantissa x)" "round_half_even (mantissa x) \<le> 2 ^ 53"
  using round_half_even_mono [of "of_int (2 ^ 52)" "mantissa x"]
    round_half_even_mono [of "mantissa x" "of_int (2 ^ 53)"] mantissa_bounds [OF assms]
  by (simp_all add: less_imp_le)

lemma f64_round_mono:
  assumes "0 \<le> x" "x \<le> y"
  shows "f64_round x \<le> f64_round y"
proof (cases "x = 0")
  case True
  have "0 \<le> f64_round y"
  proof (cases "y = 0")
    case False
    with assms True have y: "0 < y" by simp
    have "(0::rat) \<le> of_int (round_half_even (mantissa y))"
      using rounded_mantissa_bounds(1) [OF y] by simp
    then show ?thesis by (simp add: f64_round_pos [OF y] less_imp_le)
  qed (simp add: f64_round_def)
  with True show ?thesis by (simp add: f64_round_def)
next
  case False
  with assms have pos: "0 < x" "0 < y" by auto
  show ?thesis
  proof (cases "binade x = binade y")
    case True
    have "mantissa x \<le> mantissa y"
      using assms by (simp add: mantissa_def True divide_right_mono less_imp_le)
    with True show ?thesis
      using round_half_even_mono by (simp add: f64_round_pos pos)
  next
    case False
    with binade_mono [OF pos(1) assms(2)] have less: "binade x + 1 \<le> binade y" by simp
    have "f64_round x \<le> 2 ^ 53 * pow2 (binade x - 52)"
      using rounded_mantissa_bounds(2) [OF pos(1)] of_int_le_iff [of _ "2 ^ 53", where 'a = rat]
      by (simp add: f64_round_pos pos)
    also have "\<dots> = pow2 (binade x + 1)"
      using pow2_add [of 53 "binade x - 52"] by (simp add: pow2_numeral add.commute)
    also have "\<dots> \<le> pow2 (binade y)" using less by (rule pow2_mono)
    also have "\<dots> = 2 ^ 52 * pow2 (binade y - 52)"
      using pow2_add [of 52 "binade y - 52"] by (simp add: pow2_numeral)
    also have "\<dots> \<le> f64_round y"
      using rounded_mantissa_bounds(1) [OF pos(2)] of_int_le_iff [of "2 ^ 52", where 'a = rat]
      by (simp add: f64_round_pos pos)
    finally show ?thesis .
  qed
qed

text \<open>Integers below \<open>2\<^sup>5\<^sup>3\<close> are represented exactly.\<close>

lemma f64_round_nat:
  assumes "n < 2 ^ 53"
  shows "f64_round (of_nat n) = of_nat n"
proof (cases "n = 0")
  case False
  then have pos: "0 < (of_nat n :: rat)" by simp
  let ?e = "binade (of_nat n)"
  have "?e \<le> 52"
  proof (rule ccontr)
    assume "\<not> ?e \<le> 52"
    then have "pow2 (int 53) \<le> pow2 ?e" by (intro pow2_mono) simp
    also have "\<dots> \<le> of_nat n" by (rule binade_bounds [OF pos])
    finally have "2 ^ 53 \<le> (of_nat n :: rat)" by (simp only: pow2_nat)
    then have "2 ^ 53 \<le> n" by (metis of_nat_le_iff of_nat_numeral of_nat_power)
    with assms show False by simp
  qed
  then have "pow2 (?e - 52) = 1 / 2 ^ nat (52 - ?e)" by (auto simp: pow2_def)
  then have m: "mantissa (of_nat n) = of_int (int n * 2 ^ nat (52 - ?e))"
    by (simp add: mantissa_def)
  have "f64_round (of_nat n) = of_int (round_half_even (mantissa (of_nat n))) * pow2 (?e - 52)"
    by (rule f64_round_pos [OF pos])
  also have "\<dots> = mantissa (of_nat n) * pow2 (?e - 52)"
    by (simp only: m round_half_even_int)
  also have "\<dots> = of_nat n"
    using pow2_pos [of "?e - 52"] by (simp add: mantissa_def)
  finally show ?thesis .
qed (simp add: f64_round_def)

lemma f64_round_le_nat: "0 \<le> x \<Longrightarrow> x \<le> of_nat n \<Longrightarrow> n < 2 ^ 53 \<Longrightarrow> f64_round x \<le> of_nat n"
  using f64_round_mono f64_round_nat by metis

lemma f64_round_nonneg: "0 \<le> x \<Longrightarrow> 0 \<le> f64_round x"
  using f64_round_mono [of 0 x] by (simp add: f64_round_def [of 0])

end
