(* ===== verification/Resilience.thy ===== *)
theory Resilience
  imports Faucet_Error Float64
begin

section \<open>The resilience policy (\<open>crates/core/src/resilience/\<close>, \<open>crates/core/src/retry.rs\<close>)\<close>

text \<open>
  Error classes, backoff, the circuit breaker, and the retry runner. The runner is generic in the world
  its operation acts on; the world also decides how long a sleep lasts before the run is cancelled and
  what the clock reads for the jitter. The metrics and log lines of the runner are not modelled.
\<close>

unbundle bit_operations_syntax

subsection \<open>Classes (\<open>classify.rs\<close>)\<close>

datatype retry_class = Http5xx | RateLimitedClass | Connection | TimeoutClass

fun retry_class_as_str :: "retry_class \<Rightarrow> string" where
  "retry_class_as_str Http5xx = ''http_5xx''"
| "retry_class_as_str RateLimitedClass = ''rate_limited''"
| "retry_class_as_str Connection = ''connection''"
| "retry_class_as_str TimeoutClass = ''timeout''"

type_synonym retry_class_set = "bool list"

fun class_idx :: "retry_class \<Rightarrow> nat" where
  "class_idx Http5xx = 0"
| "class_idx RateLimitedClass = 1"
| "class_idx Connection = 2"
| "class_idx TimeoutClass = 3"

definition class_contains :: "retry_class_set \<Rightarrow> retry_class \<Rightarrow> bool" where
  "class_contains s c = s ! class_idx c"

definition default_class_set :: retry_class_set where
  "default_class_set = replicate 4 True"

definition class_set_from_iter :: "retry_class list \<Rightarrow> retry_class_set" where
  "class_set_from_iter cs = fold (\<lambda>c s. s[class_idx c := True]) cs (replicate 4 False)"

definition classify_transport :: "bool \<Rightarrow> nat option \<Rightarrow> bool \<Rightarrow> retry_class option" where
  "classify_transport is_timeout status is_connect =
     (if is_timeout then Some TimeoutClass
      else case status of
        Some status \<Rightarrow>
          if 500 \<le> status then Some Http5xx
          else if status = 429 then Some RateLimitedClass
          else None
      | None \<Rightarrow> Some Connection)"

fun classify :: "faucet_error \<Rightarrow> retry_class option" where
  "classify (HttpStatus status _ _) =
     (if status = 429 then Some RateLimitedClass else if 500 \<le> status then Some Http5xx else None)"
| "classify (RateLimited _) = Some RateLimitedClass"
| "classify (Timeout _ _) = Some TimeoutClass"
| "classify (Http e) = classify_transport (he_is_timeout e) (he_status e) (he_is_connect e)"
| "classify _ = None"

subsection \<open>Policies (\<open>policy.rs\<close>)\<close>

datatype backoff_kind = NoBackoff | Fixed | Exponential

text \<open>\<open>2u32.saturating_pow(attempt)\<close> and \<open>Duration::saturating_mul\<close>\<close>

definition saturating_pow2 :: "nat \<Rightarrow> nat" where
  "saturating_pow2 attempt = (if 32 \<le> attempt then 2 ^ 32 - 1 else 2 ^ attempt)"

definition duration_saturating_mul :: "duration \<Rightarrow> nat \<Rightarrow> duration" where
  "duration_saturating_mul d k = min (d * k) duration_max"

fun backoff_delay :: "backoff_kind \<Rightarrow> duration \<Rightarrow> duration \<Rightarrow> nat \<Rightarrow> duration" where
  "backoff_delay NoBackoff base max_delay attempt = 0"
| "backoff_delay Fixed base max_delay attempt = min base max_delay"
| "backoff_delay Exponential base max_delay attempt =
     min (duration_saturating_mul base (saturating_pow2 attempt)) max_delay"

record retry_policy =
  rp_max_attempts :: u32
  rp_backoff :: backoff_kind
  rp_base :: duration
  rp_max :: duration
  rp_jitter :: bool
  rp_retry_on :: retry_class_set

definition default_retry_policy :: retry_policy where
  "default_retry_policy =
     \<lparr> rp_max_attempts = 5, rp_backoff = Exponential, rp_base = 200 * 1000000,
       rp_max = 30 * nanos_per_sec, rp_jitter = True, rp_retry_on = default_class_set \<rparr>"

definition policy_is_retriable :: "retry_policy \<Rightarrow> faucet_error \<Rightarrow> bool" where
  "policy_is_retriable p err =
     (case classify err of Some c \<Rightarrow> class_contains (rp_retry_on p) c | None \<Rightarrow> False)"

record circuit_breaker_config =
  cb_consecutive_failures :: u32
  cb_cooldown :: duration

datatype poison_action = PoisonDlq | PoisonDrop | PoisonFail

record poison_policy =
  pp_max_row_attempts :: u32
  pp_action :: poison_action

record resilience_policy =
  res_retry :: retry_policy
  res_circuit_breaker :: "circuit_breaker_config option"
  res_poison :: "poison_policy option"

subsection \<open>The circuit breaker (\<open>breaker.rs\<close>)\<close>

record circuit_breaker =
  br_threshold :: u32
  br_consecutive :: u32

definition CircuitBreaker_new :: "u32 \<Rightarrow> circuit_breaker" where
  "CircuitBreaker_new threshold = \<lparr> br_threshold = max threshold 1, br_consecutive = 0 \<rparr>"

definition record_success :: "circuit_breaker \<Rightarrow> circuit_breaker" where
  "record_success b = b\<lparr> br_consecutive := 0 \<rparr>"

definition record_failure :: "circuit_breaker \<Rightarrow> bool \<times> circuit_breaker" where
  "record_failure b =
     (let b = b\<lparr> br_consecutive := saturating_add (br_consecutive b) 1 \<rparr>
      in (br_threshold b \<le> br_consecutive b, b))"

subsection \<open>Jitter (\<open>retry.rs\<close>)\<close>

definition MAX_BACKOFF :: duration where
  "MAX_BACKOFF = 60 * nanos_per_sec"

definition decorrelate :: "u32 \<Rightarrow> u64 \<Rightarrow> nat" where
  "decorrelate nanos counter =
     (let x = (ucast nanos :: u64) XOR (counter * 0x9E3779B97F4A7C15);
          x = x XOR (drop_bit 30 x);
          x = x * 0xBF58476D1CE4E5B9;
          x = x XOR (drop_bit 27 x);
          x = x * 0x94D049BB133111EB;
          x = x XOR (drop_bit 31 x)
      in unat x mod 1000000000)"

definition jitter_factor :: "nat \<Rightarrow> float64" where
  "jitter_factor nanos = f_add (f_lit (1 / 2)) (f_div_nat (f_of_nat nanos) 1000000000)"

text \<open>The factor drawn from the clock's sub-second part and the process-wide counter.\<close>

definition pseudo_random_factor :: "u32 \<Rightarrow> u64 \<Rightarrow> float64" where
  "pseudo_random_factor subsec_nanos counter = jitter_factor (decorrelate subsec_nanos counter)"

definition scale_nanos :: "duration \<Rightarrow> float64 \<Rightarrow> duration" where
  "scale_nanos d factor = f_to_u64 (f_mul (f_of_nat (d mod 2 ^ 64)) factor)"

definition apply_jitter :: "u32 \<Rightarrow> u64 \<Rightarrow> duration \<Rightarrow> duration" where
  "apply_jitter subsec_nanos counter d = scale_nanos d (pseudo_random_factor subsec_nanos counter)"

definition backoff_with_jitter :: "u32 \<Rightarrow> u64 \<Rightarrow> duration \<Rightarrow> nat \<Rightarrow> duration" where
  "backoff_with_jitter subsec_nanos counter base attempt =
     (let exp = min (duration_saturating_mul base (saturating_pow2 attempt)) MAX_BACKOFF
      in scale_nanos exp (pseudo_random_factor subsec_nanos counter))"

subsection \<open>The retry runner (\<open>execute.rs\<close>)\<close>

text \<open>
  What the runner needs of the world: whether a sleep of a given length completes or is cut short by the
  cancellation token (never without a token), and the clock and counter the jitter reads.
\<close>

record 'w retry_env =
  re_sleep :: "duration \<Rightarrow> 'w \<Rightarrow> bool \<times> 'w"
  re_clock :: "'w \<Rightarrow> (u32 \<times> u64) \<times> 'w"

definition max_attempts_of :: "retry_policy \<Rightarrow> nat" where
  "max_attempts_of p = max (unat (rp_max_attempts p)) 1"

definition retry_wait :: "retry_policy \<Rightarrow> 'w retry_env \<Rightarrow> faucet_error \<Rightarrow> nat \<Rightarrow> 'w \<Rightarrow> duration \<times> 'w" where
  "retry_wait p env e attempt w =
     (case e of
        RateLimited stated \<Rightarrow> (stated, w)
      | _ \<Rightarrow>
          (let base = backoff_delay (rp_backoff p) (rp_base p) (rp_max p) attempt in
           if rp_jitter p then (case re_clock env w of ((nanos, counter), w') \<Rightarrow> (apply_jitter nanos counter base, w'))
           else (base, w)))"

text \<open>The outcomes that use the separate budget of consecutive rate-limit retries.\<close>

definition rate_limit_wait :: "nat option \<Rightarrow> 'a fres \<Rightarrow> duration option" where
  "rate_limit_wait budget outcome =
     (case (budget, outcome) of (Some b, Inl (RateLimited wait)) \<Rightarrow> Some wait | _ \<Rightarrow> None)"

function run_loop ::
    "retry_policy \<Rightarrow> 'w retry_env \<Rightarrow> nat option \<Rightarrow> ('w \<Rightarrow> 'a fres \<times> 'w) \<Rightarrow> nat \<Rightarrow> nat \<Rightarrow> 'w \<Rightarrow> 'a fres \<times> 'w" where
  "run_loop p env budget op rate_limited attempt w =
     (case op w of (outcome, w1) \<Rightarrow>
        (case rate_limit_wait budget outcome of
           Some wait \<Rightarrow>
             if the budget \<le> rate_limited then (outcome, w1)
             else (case re_sleep env wait w1 of
                     (False, w2) \<Rightarrow> (outcome, w2)
                   | (True, w2) \<Rightarrow> run_loop p env budget op (rate_limited + 1) attempt w2)
         | None \<Rightarrow>
             (case outcome of
                Inr val \<Rightarrow> (Ok val, w1)
              | Inl e \<Rightarrow>
                  if policy_is_retriable p e \<and> attempt + 1 < max_attempts_of p then
                    (case retry_wait p env e attempt w1 of (wait, w2) \<Rightarrow>
                       (case (if wait = 0 then (True, w2) else re_sleep env wait w2) of
                          (False, w3) \<Rightarrow> (Err e, w3)
                        | (True, w3) \<Rightarrow> run_loop p env budget op 0 (attempt + 1) w3))
                  else (Err e, w1))))"
  by pat_completeness auto
termination
  by (relation "measures [\<lambda>(p, env, budget, op, rl, attempt, w). max_attempts_of p - attempt,
                          \<lambda>(p, env, budget, op, rl, attempt, w). the budget - rl]")
    (auto split: if_splits)

declare run_loop.simps [simp del]

definition run_with_policy ::
    "retry_policy \<Rightarrow> 'w retry_env \<Rightarrow> nat option \<Rightarrow> ('w \<Rightarrow> 'a fres \<times> 'w) \<Rightarrow> 'w \<Rightarrow> 'a fres \<times> 'w" where
  "run_with_policy p env rate_limit_retries op w = run_loop p env rate_limit_retries op 0 0 w"

definition execute_with_policy ::
    "retry_policy \<Rightarrow> 'w retry_env \<Rightarrow> ('w \<Rightarrow> 'a fres \<times> 'w) \<Rightarrow> 'w \<Rightarrow> 'a fres \<times> 'w" where
  "execute_with_policy p env op w = run_with_policy p env None op w"

definition run_call ::
    "retry_policy \<Rightarrow> 'w retry_env \<Rightarrow> u32 option \<Rightarrow> ('w \<Rightarrow> 'a fres \<times> 'w) \<Rightarrow> 'w \<Rightarrow> 'a fres \<times> 'w" where
  "run_call p env rate_limit_retries op w =
     run_with_policy p env (map_option unat rate_limit_retries) op w"

definition execute_with_retry ::
    "u32 \<Rightarrow> duration \<Rightarrow> 'w retry_env \<Rightarrow> ('w \<Rightarrow> 'a fres \<times> 'w) \<Rightarrow> 'w \<Rightarrow> 'a fres \<times> 'w" where
  "execute_with_retry max_retries base_backoff env op w =
     execute_with_policy
       \<lparr> rp_max_attempts = saturating_add max_retries 1, rp_backoff = Exponential, rp_base = base_backoff,
         rp_max = MAX_BACKOFF, rp_jitter = True, rp_retry_on = default_class_set \<rparr> env op w"

section \<open>Lemmas\<close>

lemma class_set_from_iter_contains: "class_contains (class_set_from_iter cs) c \<longleftrightarrow> c \<in> set cs"
proof -
  have inj: "class_idx a = class_idx b \<longleftrightarrow> a = b" for a b by (cases a; cases b) auto
  have lt: "class_idx a < 4" for a by (cases a) auto
  have "length s = 4 \<Longrightarrow>
      class_contains (fold (\<lambda>c s. s[class_idx c := True]) cs s) c \<longleftrightarrow> class_contains s c \<or> c \<in> set cs" for s
    by (induction cs arbitrary: s) (auto simp: class_contains_def nth_list_update lt inj)
  moreover have "\<not> class_contains (replicate 4 False) c" using lt [of c] by (simp add: class_contains_def)
  ultimately show ?thesis by (simp add: class_set_from_iter_def)
qed

lemma default_class_set_contains [simp]: "class_contains default_class_set c"
  by (cases c) (simp_all add: class_contains_def default_class_set_def)

lemma retriable_classified: "is_retriable e \<Longrightarrow> classify e \<noteq> None"
  by (cases e) (auto simp: classify_transport_def split: option.splits if_splits)

lemma backoff_delay_le_max: "backoff_delay k base max_delay attempt \<le> max_delay"
  by (cases k) auto

lemma saturating_pow2_mono: "a \<le> b \<Longrightarrow> saturating_pow2 a \<le> saturating_pow2 b"
proof -
  assume "a \<le> b"
  have "(2::nat) ^ a \<le> 2 ^ 31" if "a < 32" using that by (intro power_increasing) auto
  moreover have "(2::nat) ^ a \<le> 2 ^ b" using \<open>a \<le> b\<close> by (intro power_increasing) auto
  ultimately show ?thesis using \<open>a \<le> b\<close> by (auto simp: saturating_pow2_def)
qed

lemma backoff_delay_mono: "a \<le> b \<Longrightarrow> backoff_delay k base max_delay a \<le> backoff_delay k base max_delay b"
proof (cases k)
  case Exponential
  assume "a \<le> b"
  then have "base * saturating_pow2 a \<le> base * saturating_pow2 b"
    by (intro mult_le_mono2 saturating_pow2_mono)
  then show ?thesis
    unfolding Exponential backoff_delay.simps duration_saturating_mul_def by (intro min.mono order_refl)
qed auto

subsection \<open>The breaker\<close>

text \<open>The breaker after a sequence of page outcomes (\<open>True\<close> a success).\<close>

definition breaker_after :: "u32 \<Rightarrow> bool list \<Rightarrow> circuit_breaker" where
  "breaker_after threshold outcomes =
     fold (\<lambda>ok b. if ok then record_success b else snd (record_failure b)) outcomes (CircuitBreaker_new threshold)"

definition trailing_failures :: "bool list \<Rightarrow> nat" where
  "trailing_failures outcomes = length (takeWhile Not (rev outcomes))"

lemma trailing_failures_snoc [simp]:
  "trailing_failures (os @ [ok]) = (if ok then 0 else Suc (trailing_failures os))"
  by (simp add: trailing_failures_def)

lemma breaker_after_state:
  "br_threshold (breaker_after threshold os) = max threshold 1
   \<and> unat (br_consecutive (breaker_after threshold os)) = min (trailing_failures os) (2 ^ 32 - 1)"
proof (induction os rule: rev_induct)
  case Nil
  then show ?case by (simp add: breaker_after_def CircuitBreaker_new_def trailing_failures_def)
next
  case (snoc ok os)
  have "breaker_after threshold (os @ [ok]) =
      (let b = breaker_after threshold os in if ok then record_success b else snd (record_failure b))"
    by (simp add: breaker_after_def)
  with snoc show ?case
    by (auto simp: record_success_def record_failure_def Let_def unat_saturating_add)
qed

subsection \<open>The runner\<close>

text \<open>The same run with a counter of the calls of the operation beside the world.\<close>

definition counted_op :: "('w \<Rightarrow> 'a fres \<times> 'w) \<Rightarrow> nat \<times> 'w \<Rightarrow> 'a fres \<times> (nat \<times> 'w)" where
  "counted_op op = (\<lambda>(n, w). case op w of (r, w') \<Rightarrow> (r, (Suc n, w')))"

definition counted_env :: "'w retry_env \<Rightarrow> (nat \<times> 'w) retry_env" where
  "counted_env env =
     \<lparr> re_sleep = (\<lambda>d (n, w). case re_sleep env d w of (b, w') \<Rightarrow> (b, (n, w'))),
       re_clock = (\<lambda>(n, w). case re_clock env w of (c, w') \<Rightarrow> (c, (n, w'))) \<rparr>"

definition calls ::
    "retry_policy \<Rightarrow> 'w retry_env \<Rightarrow> nat option \<Rightarrow> ('w \<Rightarrow> 'a fres \<times> 'w) \<Rightarrow> 'w \<Rightarrow> nat" where
  "calls p env budget op w = fst (snd (run_with_policy p (counted_env env) budget (counted_op op) (0, w)))"

lemma counted_wait:
  "retry_wait p (counted_env env) e attempt (n, w) =
     (case retry_wait p env e attempt w of (d, w') \<Rightarrow> (d, (n, w')))"
  by (cases e; simp add: retry_wait_def counted_env_def Let_def split: prod.split)

lemma counted_sleep:
  "re_sleep (counted_env env) d (n, w) = (case re_sleep env d w of (b, w') \<Rightarrow> (b, (n, w')))"
  by (simp add: counted_env_def)

lemma counted_sleep_fst: "re_sleep (counted_env env) d x = (b, y) \<Longrightarrow> fst y = fst x"
  by (cases x; cases "re_sleep env d (snd x)") (auto simp: counted_sleep)

lemma counted_wait_fst: "retry_wait p (counted_env env) e a x = (d, y) \<Longrightarrow> fst y = fst x"
  by (cases x; cases "retry_wait p env e a (snd x)") (auto simp: counted_wait)

lemma max_attempts_pos [simp]: "0 < max_attempts_of p"
  by (simp add: max_attempts_of_def)

text \<open>
  One round of the runner: it stops with the outcome, or sleeps and goes on with the next attempt or
  the next rate-limit retry. Every lemma about the loop is an induction over these rounds.
\<close>

lemma run_loop_cases:
  assumes "op w = (outcome, w1)"
  obtains (stop) w2 where "run_loop p env budget op rl attempt w = (outcome, w2)"
      "w2 = w1 \<or> (\<exists>d. re_sleep env d w1 = (False, w2))
       \<or> (\<exists>e d w'. retry_wait p env e attempt w1 = (d, w') \<and> re_sleep env d w' = (False, w2))"
  | (limited) wait w2 where "rate_limit_wait budget outcome = Some wait" "rl < the budget"
      "re_sleep env wait w1 = (True, w2)"
      "run_loop p env budget op rl attempt w = run_loop p env budget op (rl + 1) attempt w2"
  | (retry) e wait w2 w3 where "outcome = Err e" "rate_limit_wait budget outcome = None"
      "policy_is_retriable p e" "attempt + 1 < max_attempts_of p"
      "retry_wait p env e attempt w1 = (wait, w2)"
      "(if wait = 0 then (True, w2) else re_sleep env wait w2) = (True, w3)"
      "run_loop p env budget op rl attempt w = run_loop p env budget op 0 (attempt + 1) w3"
proof (cases "rate_limit_wait budget outcome")
  case (Some wait)
  show ?thesis
  proof (cases "the budget \<le> rl")
    case True
    with Some assms show ?thesis by (intro stop) (auto simp: run_loop.simps [of p env budget op rl])
  next
    case False
    obtain b w2 where s: "re_sleep env wait w1 = (b, w2)" by (cases "re_sleep env wait w1")
    show ?thesis
    proof (cases b)
      case True
      with s Some False assms show ?thesis
        by (intro limited [of wait w2]) (simp_all add: run_loop.simps [of p env budget op rl])
    next
      case b: False
      with s Some False assms show ?thesis by (intro stop) (auto simp: run_loop.simps [of p env budget op rl])
    qed
  qed
next
  case None
  show ?thesis
  proof (cases outcome)
    case (Inr v)
    with None assms show ?thesis by (intro stop) (auto simp: run_loop.simps [of p env budget op rl])
  next
    case (Inl e)
    show ?thesis
    proof (cases "policy_is_retriable p e \<and> attempt + 1 < max_attempts_of p")
      case False
      with None Inl assms show ?thesis
        by (intro stop [of w1]) (auto simp: run_loop.simps [of p env budget op rl])
    next
      case True
      obtain wait w2 where wt: "retry_wait p env e attempt w1 = (wait, w2)" by (cases "retry_wait p env e attempt w1")
      obtain b w3 where s: "(if wait = 0 then (True, w2) else re_sleep env wait w2) = (b, w3)" by fastforce
      show ?thesis
      proof (cases b)
        case True': True
        with True None Inl assms wt s show ?thesis
          by (intro retry [of e wait w2 w3]) (simp_all add: run_loop.simps [of p env budget op rl])
      next
        case False
        with True None Inl assms wt s show ?thesis
          by (intro stop [of w3]) (auto simp: run_loop.simps [of p env budget op rl] split: if_splits)
      qed
    qed
  qed
qed

lemma run_loop_induction:
  fixes P :: "nat \<Rightarrow> nat \<Rightarrow> 'w \<Rightarrow> bool"
  assumes "\<And>rl attempt w. (\<And>w'. rl < B \<Longrightarrow> P (rl + 1) attempt w') \<Longrightarrow>
      (\<And>w'. attempt + 1 < M \<Longrightarrow> P 0 (attempt + 1) w') \<Longrightarrow> P rl attempt w"
  shows "P rl attempt w"
proof -
  have "\<forall>w. P (snd x) (fst x) w" for x
  proof (induction x rule: wf_induct [OF wf_measures [of "[\<lambda>(a, r). M - a, \<lambda>(a, r). B - r]"]])
    case (1 x)
    obtain a r where x: "x = (a, r)" by (cases x)
    have "\<forall>w. P (r + 1) a w" if "r < B" using 1 [rule_format, of "(a, r + 1)"] that by (simp add: x)
    moreover have "\<forall>w. P 0 (a + 1) w" if "a + 1 < M"
    proof -
      have "M - (a + 1) < M - a" using that by arith
      then show ?thesis using 1 [rule_format, of "(a + 1, 0)"] by (simp add: x)
    qed
    ultimately show ?case using assms by (simp add: x)
  qed
  from this [of "(attempt, rl)"] show ?thesis by simp
qed

lemma run_loop_outcome: "\<exists>w'. fst (op w') = fst (run_loop p env budget op rl attempt w)"
proof (induction rl attempt w rule: run_loop_induction [where B = "the budget" and M = "max_attempts_of p"])
  case (1 rl attempt w)
  obtain outcome w1 where op: "op w = (outcome, w1)" by (cases "op w")
  show ?case
    by (cases rule: run_loop_cases [of op w, OF op, of p env budget rl attempt])
      (use 1 op in \<open>auto intro: exI [of _ w]\<close>)
qed

text \<open>A bound on the calls: each attempt may use the whole rate-limit budget.\<close>

lemma run_loop_calls_le:
  fixes w :: "nat \<times> 'w"
  assumes B: "B = (case budget of None \<Rightarrow> 0 | Some b \<Rightarrow> b)"
  shows "rl \<le> B \<Longrightarrow> attempt < max_attempts_of p \<Longrightarrow>
    fst (snd (run_loop p (counted_env env) budget (counted_op op) rl attempt w))
      \<le> fst w + (max_attempts_of p - attempt - 1) * (B + 1) + (B - rl) + 1"
proof (induction rl attempt w rule: run_loop_induction [where B = "the budget" and M = "max_attempts_of p"])
  case (1 rl attempt w)
  obtain n w0 where w: "w = (n, w0)" by (cases w)
  obtain outcome w1 where op: "op w0 = (outcome, w1)" by (cases "op w0")
  then have cop: "counted_op op w = (outcome, (Suc n, w1))" by (simp add: counted_op_def w)
  show ?case
  proof (rule run_loop_cases [of "counted_op op" w, OF cop, of p "counted_env env" budget rl attempt], goal_cases stop limited retry)
    case (stop w2)
    then have "fst w2 = Suc n"
      by (auto dest!: counted_wait_fst counted_sleep_fst)
    with stop show ?thesis by (simp add: w)
  next
    case (limited wait w2)
    have b: "budget = Some (the budget)" using limited(1) by (cases budget) (auto simp: rate_limit_wait_def)
    then have "B = the budget" by (cases budget) (simp_all add: B)
    moreover have "fst w2 = Suc n" using limited(3) by (auto simp: counted_sleep split: prod.splits)
    ultimately show ?thesis using 1(1) [OF limited(2), of w2] limited 1(4) by (simp add: w)
  next
    case (retry e wait w2 w3)
    have "fst w2 = Suc n" using retry(5) by (auto simp: counted_wait split: prod.splits)
    then have "fst w3 = Suc n"
      using retry(6) by (cases w2) (auto simp: counted_sleep split: if_splits prod.splits)
    moreover have "(max_attempts_of p - attempt - 1) * (B + 1)
        = (max_attempts_of p - (attempt + 1) - 1) * (B + 1) + (B + 1)"
    proof -
      have "max_attempts_of p - attempt - 1 = Suc (max_attempts_of p - (attempt + 1) - 1)"
        using retry(4) by simp
      then show ?thesis by (simp only: mult_Suc add.commute)
    qed
    ultimately show ?thesis using 1(2) [OF retry(4), of w3] retry(4,7) 1(3) by (simp add: w)
  qed
qed

text \<open>When no sleep is cut short, an error that comes back is final or the attempts are used up.\<close>

lemma run_loop_exhausts:
  fixes w :: "nat \<times> 'w"
  assumes sleeps: "\<And>d w. fst (re_sleep env d w)"
  shows "attempt < max_attempts_of p \<Longrightarrow>
    run_loop p (counted_env env) None (counted_op op) rl attempt w = (Err e, (n, w')) \<Longrightarrow>
    \<not> policy_is_retriable p e \<or> n = fst w + (max_attempts_of p - attempt)"
proof (induction rl attempt w rule: run_loop_induction [where B = 0 and M = "max_attempts_of p"])
  case (1 rl attempt w)
  obtain k w0 where w: "w = (k, w0)" by (cases w)
  obtain outcome w1 where op: "op w0 = (outcome, w1)" by (cases "op w0")
  then have cop: "counted_op op w = (outcome, (Suc k, w1))" by (simp add: counted_op_def w)
  have sl: "fst (re_sleep (counted_env env) d x)" for d x
  proof (cases x)
    case (Pair n v)
    with sleeps [of d v] show ?thesis by (auto simp: counted_sleep split: prod.split)
  qed
  have none: "rate_limit_wait None outcome = None" by (simp add: rate_limit_wait_def)
  show ?case
  proof (rule run_loop_cases [of "counted_op op" w, OF cop, of p "counted_env env" None rl attempt], goal_cases stop limited retry)
    case (stop w2)
    show ?thesis
    proof (cases "policy_is_retriable p e \<and> attempt + 1 < max_attempts_of p")
      case True
      obtain wait w3 where wt: "retry_wait p (counted_env env) e attempt (Suc k, w1) = (wait, w3)"
        by (cases "retry_wait p (counted_env env) e attempt (Suc k, w1)")
      have k3: "fst w3 = Suc k" using wt by (auto simp: counted_wait split: prod.splits)
      obtain w4 where s: "(if wait = 0 then (True, w3) else re_sleep (counted_env env) wait w3) = (True, w4)"
        using sl [of wait w3] by (cases "wait = 0"; cases "re_sleep (counted_env env) wait w3") auto
      have k4: "fst w4 = Suc k" using s k3 by (cases w3) (auto simp: counted_sleep split: if_splits prod.splits)
      have "outcome = Err e" using stop 1(4) by simp
      then have "run_loop p (counted_env env) None (counted_op op) rl attempt w =
          run_loop p (counted_env env) None (counted_op op) 0 (attempt + 1) w4"
        using True cop wt s none by (subst run_loop.simps) simp
      with 1(2) [of w4] True 1(4) k4 show ?thesis by (auto simp: w)
    next
      case False
      have "outcome = Err e" using stop 1(4) by simp
      then have "run_loop p (counted_env env) None (counted_op op) rl attempt w = (Err e, (Suc k, w1))"
        using False cop none by (subst run_loop.simps) auto
      with False 1(3,4) show ?thesis by (auto simp: w)
    qed
  next
    case (limited wait w2)
    with none show ?thesis by simp
  next
    case (retry e' wait w2 w3)
    have "fst w2 = Suc k" using retry(5) by (auto simp: counted_wait split: prod.splits)
    then have "fst w3 = Suc k"
      using retry(6) by (cases w2) (auto simp: counted_sleep split: if_splits prod.splits)
    with 1(2) [of w3] retry(4,7) 1(4) show ?thesis by (auto simp: w)
  qed
qed

section \<open>Properties\<close>

text \<open>C31. The runner ends after at most \<open>max(1, max_attempts)\<close> attempts, each of which may use the whole
  budget of consecutive rate-limit retries, and what it returns is an outcome of the operation.\<close>

theorem run_with_policy_bounded:
  "calls p env budget op w
     \<le> max 1 (unat (rp_max_attempts p)) * (1 + (case budget of None \<Rightarrow> 0 | Some b \<Rightarrow> b))
   \<and> (\<exists>w'. fst (op w') = fst (run_with_policy p env budget op w))"
proof
  show "\<exists>w'. fst (op w') = fst (run_with_policy p env budget op w)"
    unfolding run_with_policy_def by (rule run_loop_outcome)
  let ?B = "case budget of None \<Rightarrow> 0 | Some b \<Rightarrow> b"
  let ?M = "max_attempts_of p"
  have "calls p env budget op w \<le> (?M - 1) * (?B + 1) + ?B + 1"
    unfolding calls_def run_with_policy_def
    using run_loop_calls_le [OF refl, of 0 budget 0 p env op "(0, w)"] by simp
  also have "\<dots> = ?M * (?B + 1)"
  proof -
    obtain k where "?M = Suc k" using max_attempts_pos [of p] gr0_implies_Suc by blast
    then show ?thesis by simp
  qed
  finally show "calls p env budget op w \<le> max 1 (unat (rp_max_attempts p)) * (1 + ?B)"
    by (simp add: max_attempts_of_def max.commute)
qed



text \<open>C33. The breaker reports an open circuit exactly when the failures since the last success, this one
  included, reach the threshold (at least 1), also when the 32-bit counter saturates.\<close>

theorem breaker_opens_iff:
  "fst (record_failure (breaker_after threshold outcomes)) \<longleftrightarrow>
     max 1 (unat threshold) \<le> Suc (trailing_failures outcomes)"
proof -
  let ?b = "breaker_after threshold outcomes"
  have t: "unat (max threshold 1) = max (unat threshold) 1" by (simp add: max_def word_le_nat_alt)
  have "unat threshold < 2 ^ 32" using unsigned_less [of threshold] by simp
  with breaker_after_state [of threshold outcomes] t show ?thesis
    by (auto simp: record_failure_def Let_def word_le_nat_alt unat_saturating_add max.commute min_def)
qed



end
