(* ===== verification/Adaptive.thy ===== *)
theory Adaptive
  imports Faucet_Error Float64
begin

section \<open>Adaptive batch sizing (\<open>crates/core/src/adaptive.rs\<close>)\<close>

text \<open>
  The additive-increase, multiplicative-decrease controller of the write batch size: its configuration
  check, and the reaction to one observed write. Latencies are durations, ratios are double precision
  numbers. The log lines are not modelled.
\<close>

definition MAX_BATCH_SIZE :: nat where
  "MAX_BATCH_SIZE = 1000000"

record adaptive_config =
  ac_enabled :: bool
  ac_controller :: string
  ac_min :: nat
  ac_max :: nat
  ac_increase_step :: nat
  ac_decrease_factor :: float64
  ac_cooldown_batches :: nat
  ac_target_latency_ms :: "nat option"
  ac_latency_window :: nat
  ac_error_threshold :: float64
  ac_respect_source_max :: bool
  ac_log_every :: nat

definition default_adaptive_config :: adaptive_config where
  "default_adaptive_config =
     \<lparr> ac_enabled = False, ac_controller = ''aimd'', ac_min = 100, ac_max = 50000, ac_increase_step = 250,
       ac_decrease_factor = f_lit (1 / 2), ac_cooldown_batches = 5, ac_target_latency_ms = None,
       ac_latency_window = 10, ac_error_threshold = f_lit (1 / 100), ac_respect_source_max = True,
       ac_log_every = 50 \<rparr>"

definition abs_cfg :: "string \<Rightarrow> string" where
  "abs_cfg field = ''adaptive_batch_size.'' @ field"

definition adaptive_validate :: "adaptive_config \<Rightarrow> unit fres" where
  "adaptive_validate c =
     (if ac_controller c \<noteq> ''aimd'' then
        Err (Config (abs_cfg ''controller '' @ [CHR 0x27] @ ac_controller c @ [CHR 0x27]
          @ '' is not supported (only '' @ [CHR 0x27] @ ''aimd'' @ [CHR 0x27] @ '')''))
      else if ac_min c < 1 then Err (Config (abs_cfg ''min must be >= 1''))
      else if ac_max c < ac_min c then
        Err (Config (abs_cfg ''min ('' @ show_nat (ac_min c) @ '') must be <= max ('' @ show_nat (ac_max c) @ '')''))
      else if MAX_BATCH_SIZE < ac_max c then
        Err (Config (abs_cfg ''max ('' @ show_nat (ac_max c) @ '') must be <= '' @ show_nat MAX_BATCH_SIZE
          @ '' (MAX_BATCH_SIZE)''))
      else if MAX_BATCH_SIZE < ac_increase_step c then
        Err (Config (abs_cfg ''increase_step ('' @ show_nat (ac_increase_step c) @ '') must be <= ''
          @ show_nat MAX_BATCH_SIZE @ '' (MAX_BATCH_SIZE)''))
      else if \<not> (f_less (Fin 0) (ac_decrease_factor c) \<and> f_less (ac_decrease_factor c) (Fin 1)) then
        Err (Config (abs_cfg ''decrease_factor must be in (0, 1)''))
      else if ac_increase_step c < 1 then Err (Config (abs_cfg ''increase_step must be >= 1''))
      else if \<not> (f_le (Fin 0) (ac_error_threshold c) \<and> f_le (ac_error_threshold c) (Fin 1)) then
        Err (Config (abs_cfg ''error_threshold must be in [0, 1]''))
      else if ac_latency_window c < 1 then Err (Config (abs_cfg ''latency_window must be >= 1''))
      else if ac_target_latency_ms c = Some 0 then
        Err (Config (abs_cfg ''target_latency_ms must be > 0 when set''))
      else if \<not> ac_respect_source_max c then
        Err (Config (abs_cfg ''respect_source_max=false is not supported (cross-page buffering would violate the O(batch_size) memory guarantee); remove the field or set it to true''))
      else Ok ())"

datatype adjust_direction = Up | Down

fun adjust_direction_as_str :: "adjust_direction \<Rightarrow> string" where
  "adjust_direction_as_str Up = ''up''"
| "adjust_direction_as_str Down = ''down''"

datatype adjust_reason = AdjSuccess | AdjError | AdjLatency

fun adjust_reason_as_str :: "adjust_reason \<Rightarrow> string" where
  "adjust_reason_as_str AdjSuccess = ''success''"
| "adjust_reason_as_str AdjError = ''error''"
| "adjust_reason_as_str AdjLatency = ''latency''"

record observation =
  ob_batch_len :: nat
  ob_errors :: nat
  ob_latency :: duration

record adjustment =
  ad_new_size :: nat
  ad_direction :: adjust_direction
  ad_reason :: adjust_reason

record aimd_controller =
  ai_min :: nat
  ai_max :: nat
  ai_increase_step :: nat
  ai_decrease_factor :: float64
  ai_cooldown_batches :: nat
  ai_target_latency_ms :: "nat option"
  ai_latency_window :: nat
  ai_error_threshold :: float64
  ai_log_every :: nat
  ai_current :: nat
  ai_cooldown :: nat
  ai_latencies :: "nat list"
  ai_floor_warned :: bool
  ai_adjustments :: u64

text \<open>\<open>usize::clamp\<close>; it panics unless the bounds are ordered, which the validated configuration gives.\<close>

definition clamp :: "nat \<Rightarrow> nat \<Rightarrow> nat \<Rightarrow> nat" where
  "clamp lo hi x = (if x < lo then lo else if hi < x then hi else x)"

definition AimdController_new :: "adaptive_config \<Rightarrow> nat \<Rightarrow> aimd_controller" where
  "AimdController_new cfg initial =
     \<lparr> ai_min = ac_min cfg, ai_max = ac_max cfg, ai_increase_step = ac_increase_step cfg,
       ai_decrease_factor = ac_decrease_factor cfg, ai_cooldown_batches = ac_cooldown_batches cfg,
       ai_target_latency_ms = ac_target_latency_ms cfg, ai_latency_window = max (ac_latency_window cfg) 1,
       ai_error_threshold = ac_error_threshold cfg, ai_log_every = ac_log_every cfg,
       ai_current = clamp (ac_min cfg) (ac_max cfg) initial, ai_cooldown = 0, ai_latencies = [],
       ai_floor_warned = False, ai_adjustments = 0 \<rparr>"

definition cooldown_active :: "aimd_controller \<Rightarrow> bool" where
  "cooldown_active c = (0 < ai_cooldown c)"

definition p50_latency_ms :: "aimd_controller \<Rightarrow> nat option" where
  "p50_latency_ms c =
     (if ai_latencies c = [] then None
      else let v = sort (ai_latencies c) in Some (v ! (length v div 2)))"

definition bump_log :: "aimd_controller \<Rightarrow> aimd_controller" where
  "bump_log c = c\<lparr> ai_adjustments := ai_adjustments c + 1 \<rparr>"

definition shrink :: "adjust_reason \<Rightarrow> aimd_controller \<Rightarrow> adjustment option \<times> aimd_controller" where
  "shrink reason c =
     (let new = max (f_to_u64 (f_mul (f_of_nat (ai_current c)) (ai_decrease_factor c))) (ai_min c);
          c = c\<lparr> ai_cooldown := ai_cooldown_batches c \<rparr>
      in if new = ai_current c then
           (None,
            if reason = AdjError \<and> ai_current c = ai_min c \<and> \<not> ai_floor_warned c
            then c\<lparr> ai_floor_warned := True \<rparr> else c)
         else
           (Some \<lparr> ad_new_size = new, ad_direction = Down, ad_reason = reason \<rparr>,
            bump_log (c\<lparr> ai_current := new, ai_latencies := [] \<rparr>)))"

definition grow :: "adjust_reason \<Rightarrow> aimd_controller \<Rightarrow> adjustment option \<times> aimd_controller" where
  "grow reason c =
     (let new = min (usize_saturating_add (ai_current c) (ai_increase_step c)) (ai_max c) in
      if new = ai_current c then (None, c)
      else
        (Some \<lparr> ad_new_size = new, ad_direction = Up, ad_reason = reason \<rparr>,
         bump_log (c\<lparr> ai_current := new, ai_latencies := [] \<rparr>)))"

text \<open>\<open>Duration::as_millis() as u64\<close>, and the window kept at its length by dropping from the front.\<close>

definition millis_u64 :: "duration \<Rightarrow> nat" where
  "millis_u64 d = (d div 1000000) mod 2 ^ 64"

definition push_latency :: "nat \<Rightarrow> aimd_controller \<Rightarrow> aimd_controller" where
  "push_latency ms c =
     (let l = ai_latencies c @ [ms] in c\<lparr> ai_latencies := drop (length l - ai_latency_window c) l \<rparr>)"

definition observe :: "observation \<Rightarrow> aimd_controller \<Rightarrow> adjustment option \<times> aimd_controller" where
  "observe obs c =
     (if 0 < ob_batch_len obs
         \<and> f_less (ai_error_threshold c) (f_div_nat (f_of_nat (ob_errors obs)) (ob_batch_len obs))
      then shrink AdjError c
      else if 0 < ai_cooldown c then (None, c\<lparr> ai_cooldown := ai_cooldown c - 1 \<rparr>)
      else case ai_target_latency_ms c of
        Some target \<Rightarrow>
          (let c = push_latency (millis_u64 (ob_latency obs)) c;
               p50 = f_of_nat (case p50_latency_ms c of Some p \<Rightarrow> p | None \<Rightarrow> 0);
               t = f_of_nat target
           in if f_less (f_mul t (f_lit (12 / 10))) p50 then shrink AdjLatency c
              else if f_less p50 (f_mul t (f_lit (1 / 2))) then grow AdjLatency c
              else (None, c))
      | None \<Rightarrow> grow AdjSuccess c)"

section \<open>Lemmas\<close>

text \<open>
  The invariant of a controller built from a validated configuration: the size stays within its bounds,
  the bounds are below \<open>MAX_BATCH_SIZE\<close>, and the shrink factor is in the open unit interval.
\<close>

definition aimd_inv :: "aimd_controller \<Rightarrow> bool" where
  "aimd_inv c =
     (1 \<le> ai_min c \<and> ai_min c \<le> ai_current c \<and> ai_current c \<le> ai_max c \<and> ai_max c \<le> MAX_BATCH_SIZE
      \<and> 1 \<le> ai_increase_step c \<and> 1 \<le> ai_latency_window c \<and> length (ai_latencies c) \<le> ai_latency_window c
      \<and> (case ai_decrease_factor c of Fin f \<Rightarrow> 0 < f \<and> f < 1 | _ \<Rightarrow> False))"

lemma new_inv: "adaptive_validate cfg = Ok u \<Longrightarrow> aimd_inv (AimdController_new cfg initial)"
  by (cases "ac_decrease_factor cfg")
    (auto simp: adaptive_validate_def aimd_inv_def AimdController_new_def clamp_def split: if_splits)

text \<open>The rounded product of a representable size and a factor below 1 is not above the size.\<close>

lemma shrunk_le:
  assumes "n \<le> MAX_BATCH_SIZE" "0 < f" "f < 1"
  shows "f_to_u64 (f_mul (f_of_nat n) (Fin f)) \<le> n"
proof -
  have n: "n < 2 ^ 53" using assms(1) by (simp add: MAX_BATCH_SIZE_def)
  have "of_nat n * f \<le> of_nat n" using assms by (simp add: mult_left_le)
  then have "f64_round (of_nat n * f) \<le> of_nat n"
    using assms n by (intro f64_round_le_nat) auto
  then have "\<lfloor>f64_round (of_nat n * f)\<rfloor> \<le> int n" by (simp add: floor_le_iff)
  then have "nat \<lfloor>f64_round (of_nat n * f)\<rfloor> \<le> n" by simp
  then show ?thesis by (simp add: f_of_nat_def f64_round_nat [OF n])
qed

lemma shrink_spec:
  assumes "aimd_inv c" "shrink reason c = (a, c')"
  shows "aimd_inv c' \<and> ai_current c' \<le> ai_current c \<and> ai_cooldown c' = ai_cooldown_batches c
    \<and> ai_min c' = ai_min c \<and> ai_max c' = ai_max c
    \<and> (case a of None \<Rightarrow> ai_current c' = ai_current c
       | Some ad \<Rightarrow> ad_new_size ad = ai_current c' \<and> ad_direction ad = Down \<and> ai_current c' < ai_current c)"
proof -
  obtain f where f: "ai_decrease_factor c = Fin f" "0 < f" "f < 1"
    using assms(1) by (cases "ai_decrease_factor c") (auto simp: aimd_inv_def)
  have "f_to_u64 (f_mul (f_of_nat (ai_current c)) (Fin f)) \<le> ai_current c"
    using assms(1) f(2,3) by (intro shrunk_le) (auto simp: aimd_inv_def)
  with assms f show ?thesis
    by (auto simp: shrink_def Let_def aimd_inv_def bump_log_def split: if_splits)
qed

lemma grow_spec:
  assumes "aimd_inv c" "grow reason c = (a, c')"
  shows "aimd_inv c' \<and> ai_current c \<le> ai_current c' \<and> ai_cooldown c' = ai_cooldown c
    \<and> ai_min c' = ai_min c \<and> ai_max c' = ai_max c
    \<and> ai_current c' = min (ai_current c + ai_increase_step c) (ai_max c)
    \<and> (case a of None \<Rightarrow> ai_current c' = ai_current c
       | Some ad \<Rightarrow> ad_new_size ad = ai_current c' \<and> ad_direction ad = Up \<and> ai_current c < ai_current c')"
  using assms
  by (auto simp: grow_def Let_def aimd_inv_def bump_log_def usize_saturating_add_def usize_max_def
      MAX_BATCH_SIZE_def split: if_splits)

lemma push_latency_inv: "aimd_inv c \<Longrightarrow> aimd_inv (push_latency ms c)"
  by (auto simp: push_latency_def aimd_inv_def Let_def)

lemma push_latency_fields [simp]:
  "ai_current (push_latency ms c) = ai_current c" "ai_cooldown (push_latency ms c) = ai_cooldown c"
  "ai_cooldown_batches (push_latency ms c) = ai_cooldown_batches c"
  "ai_min (push_latency ms c) = ai_min c" "ai_max (push_latency ms c) = ai_max c"
  "ai_increase_step (push_latency ms c) = ai_increase_step c"
  by (simp_all add: push_latency_def Let_def)

text \<open>
  The contract of a batch-size controller: whatever it observes, the size stays within its bounds, and
  an adjustment it reports is the size it has from then on.
\<close>

locale size_controller =
  fixes step :: "'o \<Rightarrow> 'c \<Rightarrow> 'r \<times> 'c"
    and inv :: "'c \<Rightarrow> bool"
    and size_of :: "'c \<Rightarrow> nat"
    and lo :: "'c \<Rightarrow> nat"
    and hi :: "'c \<Rightarrow> nat"
  assumes step_inv: "inv c \<Longrightarrow> inv (snd (step obs c))"
    and step_bounds: "inv c \<Longrightarrow> lo (snd (step obs c)) = lo c \<and> hi (snd (step obs c)) = hi c"
    and inv_bounds: "inv c \<Longrightarrow> lo c \<le> size_of c \<and> size_of c \<le> hi c"
begin

lemma steps_bounds:
  "inv c \<Longrightarrow> inv (fold (\<lambda>x c. snd (step x c)) xs c)
     \<and> lo c \<le> size_of (fold (\<lambda>x c. snd (step x c)) xs c)
     \<and> size_of (fold (\<lambda>x c. snd (step x c)) xs c) \<le> hi c"
proof (induction xs arbitrary: c)
  case Nil
  then show ?case using inv_bounds by simp
next
  case (Cons x xs)
  from Cons.IH [OF step_inv [OF Cons.prems, of x]] step_bounds [OF Cons.prems, of x] show ?case
    by simp
qed

end

lemma observe_spec:
  assumes "aimd_inv c"
  shows "aimd_inv (snd (observe obs c)) \<and> ai_min (snd (observe obs c)) = ai_min c
    \<and> ai_max (snd (observe obs c)) = ai_max c
    \<and> (case fst (observe obs c) of
         None \<Rightarrow> ai_current (snd (observe obs c)) = ai_current c
       | Some ad \<Rightarrow> ad_new_size ad = ai_current (snd (observe obs c))
           \<and> (case ad_direction ad of
                Up \<Rightarrow> ai_current c < ad_new_size ad \<and> ai_cooldown c = 0
              | Down \<Rightarrow> ad_new_size ad < ai_current c
                  \<and> ai_cooldown (snd (observe obs c)) = ai_cooldown_batches c))"
proof -
  let ?pl = "push_latency (millis_u64 (ob_latency obs)) c"
  have sh: "aimd_inv (snd (shrink r d)) \<and> ai_min (snd (shrink r d)) = ai_min d
      \<and> ai_max (snd (shrink r d)) = ai_max d
      \<and> (case fst (shrink r d) of None \<Rightarrow> ai_current (snd (shrink r d)) = ai_current d
         | Some ad \<Rightarrow> ad_new_size ad = ai_current (snd (shrink r d)) \<and> ad_direction ad = Down
             \<and> ad_new_size ad < ai_current d \<and> ai_cooldown (snd (shrink r d)) = ai_cooldown_batches d)"
    if "aimd_inv d" for r d
    using shrink_spec [OF that, of r "fst (shrink r d)" "snd (shrink r d)"] by (auto split: option.split)
  have gr: "aimd_inv (snd (grow r d)) \<and> ai_min (snd (grow r d)) = ai_min d
      \<and> ai_max (snd (grow r d)) = ai_max d
      \<and> (case fst (grow r d) of None \<Rightarrow> ai_current (snd (grow r d)) = ai_current d
         | Some ad \<Rightarrow> ad_new_size ad = ai_current (snd (grow r d)) \<and> ad_direction ad = Up
             \<and> ai_current d < ad_new_size ad)"
    if "aimd_inv d" for r d
    using grow_spec [OF that, of r "fst (grow r d)" "snd (grow r d)"] by (auto split: option.split)
  have *: "observe obs c = shrink AdjError c \<or> observe obs c = shrink AdjLatency ?pl
    \<or> observe obs c = grow AdjSuccess c \<and> ai_cooldown c = 0 \<or> observe obs c = grow AdjLatency ?pl \<and> ai_cooldown c = 0
    \<or> observe obs c = (None, c\<lparr> ai_cooldown := ai_cooldown c - 1 \<rparr>) \<or> observe obs c = (None, ?pl)"
    by (auto simp: observe_def Let_def split: option.split)
  have pl: "aimd_inv ?pl" by (rule push_latency_inv [OF assms])
  from * show ?thesis
  proof (elim disjE conjE, goal_cases)
    case 1
    with sh [OF assms, of AdjError] show ?thesis by (auto split: option.split)
  next
    case 2
    with sh [OF pl, of AdjLatency] show ?thesis by (auto split: option.split)
  next
    case 3
    with gr [OF assms, of AdjSuccess] show ?thesis by (auto split: option.split)
  next
    case 4
    with gr [OF pl, of AdjLatency] show ?thesis by (auto split: option.split)
  next
    case 5
    with assms show ?thesis by (simp add: aimd_inv_def)
  next
    case 6
    with pl show ?thesis by simp
  qed
qed

interpretation aimd: size_controller observe aimd_inv ai_current ai_min ai_max
proof unfold_locales
  show "ai_min c \<le> ai_current c \<and> ai_current c \<le> ai_max c" if "aimd_inv c" for c
    using that by (simp add: aimd_inv_def)
qed (use observe_spec in blast)+

text \<open>The controller after a sequence of observations.\<close>

definition observe_all :: "observation list \<Rightarrow> aimd_controller \<Rightarrow> aimd_controller" where
  "observe_all obs c = fold (\<lambda>o1 c. snd (observe o1 c)) obs c"

section \<open>Properties\<close>

text \<open>C35. From a validated configuration, whatever first page and whatever writes are observed, the batch
  size stays between the configured bounds and below \<open>MAX_BATCH_SIZE\<close>, rounding of the shrink factor
  included.\<close>

theorem adaptive_size_bounded:
  assumes "adaptive_validate cfg = Ok ()"
  shows "ac_min cfg \<le> ai_current (observe_all obs (AimdController_new cfg initial))
    \<and> ai_current (observe_all obs (AimdController_new cfg initial)) \<le> ac_max cfg
    \<and> 1 \<le> ac_min cfg \<and> ac_max cfg \<le> MAX_BATCH_SIZE"
proof -
  let ?c = "AimdController_new cfg initial"
  have inv: "aimd_inv ?c" by (rule new_inv [OF assms])
  have "ai_min ?c = ac_min cfg" "ai_max ?c = ac_max cfg" by (simp_all add: AimdController_new_def)
  with aimd.steps_bounds [OF inv, of obs] inv show ?thesis
    by (simp add: observe_all_def aimd_inv_def)
qed

theorem adaptive_size_bounded_witness:
  "ai_current (observe_all [\<lparr> ob_batch_len = 10, ob_errors = 9, ob_latency = 0 \<rparr>]
     (AimdController_new default_adaptive_config 1000)) \<le> 50000"
proof -
  have "f64_round (1 / 2) = 1 / 2" "f64_round (1 / 100) = 5764607523034235 / 576460752303423488"
    by code_simp+
  then have "adaptive_validate default_adaptive_config = Ok ()"
    by (simp add: adaptive_validate_def default_adaptive_config_def MAX_BATCH_SIZE_def f_lit_def f_le_def)
  from adaptive_size_bounded [OF this] show ?thesis by (simp add: default_adaptive_config_def)
qed

text \<open>C36. An adjustment is always the size the controller then has, a growth is strict and happens only
  outside the cooldown, a shrink is strict and starts the cooldown, and an observation without an
  adjustment leaves the size as it was.\<close>

theorem observe_adjustment:
  assumes "aimd_inv c"
  shows "case fst (observe obs c) of
      None \<Rightarrow> ai_current (snd (observe obs c)) = ai_current c
    | Some ad \<Rightarrow> ad_new_size ad = ai_current (snd (observe obs c))
        \<and> (case ad_direction ad of
             Up \<Rightarrow> ai_current c < ad_new_size ad \<and> ai_cooldown c = 0
           | Down \<Rightarrow> ad_new_size ad < ai_current c
               \<and> ai_cooldown (snd (observe obs c)) = ai_cooldown_batches c)"
  using observe_spec [OF assms, of obs] by blast

theorem observe_adjustment_witness:
  "ai_current (snd (observe \<lparr> ob_batch_len = 10, ob_errors = 0, ob_latency = 0 \<rparr>
     ((AimdController_new default_adaptive_config 1000)\<lparr> ai_cooldown := 1 \<rparr>))) = 1000"
proof -
  let ?c = "(AimdController_new default_adaptive_config 1000)\<lparr> ai_cooldown := 1 \<rparr>"
  let ?o = "\<lparr> ob_batch_len = 10, ob_errors = 0, ob_latency = 0 \<rparr>"
  have r: "f64_round (1 / 2) = 1 / 2" "f64_round (1 / 100) = 5764607523034235 / 576460752303423488"
    by code_simp+
  have inv: "aimd_inv ?c"
    by (simp add: aimd_inv_def AimdController_new_def default_adaptive_config_def clamp_def
        MAX_BATCH_SIZE_def f_lit_def r)
  have "fst (observe ?o ?c) = None"
    by (simp add: observe_def AimdController_new_def default_adaptive_config_def f_lit_def r f_of_nat_def
        f64_round_def [of 0])
  with observe_adjustment [OF inv, of ?o] show ?thesis
    by (simp add: AimdController_new_def default_adaptive_config_def clamp_def)
qed

end
