(* ===== verification/Dlq.thy ===== *)
theory Dlq
  imports Faucet_Error
begin

section \<open>The dead-letter queue (\<open>crates/core/src/dlq.rs\<close>)\<close>

text \<open>
  The policies, envelopes and counters of the dead-letter queue. Writing to the queue's sink is part of
  the pipeline. The redactor a host installs and the clock are parameters of the envelope.
\<close>

datatype on_batch_error = Propagate | OnDlqAll

record dlq_config =
  dc_on_batch_error :: on_batch_error
  dc_max_failures_per_page :: "nat option"
  dc_max_failures_total :: "nat option"
  dc_include_original_payload :: bool

definition DlqConfig_new :: dlq_config where
  "DlqConfig_new =
     \<lparr> dc_on_batch_error = Propagate, dc_max_failures_per_page = None, dc_max_failures_total = None,
       dc_include_original_payload = True \<rparr>"

record dlq_stats =
  ds_records_dlq :: nat
  ds_pages_with_failures :: nat

datatype dlq_reason = ReasonPartial | ReasonDlqAll | ReasonQuality | ReasonSchemaDrift | ReasonContract

fun reason_as_str :: "dlq_reason \<Rightarrow> string" where
  "reason_as_str ReasonPartial = ''partial''"
| "reason_as_str ReasonDlqAll = ''dlq_all''"
| "reason_as_str ReasonQuality = ''quality''"
| "reason_as_str ReasonSchemaDrift = ''schema_drift''"
| "reason_as_str ReasonContract = ''contract''"

definition reason_ALL :: "dlq_reason list" where
  "reason_ALL = [ReasonPartial, ReasonDlqAll, ReasonQuality, ReasonSchemaDrift, ReasonContract]"

definition reason_from_serde_str :: "string \<Rightarrow> dlq_reason option" where
  "reason_from_serde_str s = find (\<lambda>r. reason_as_str r = s) reason_ALL"

subsection \<open>Envelopes\<close>

text \<open>
  \<open>millis\<close> is the time since the epoch in milliseconds, or nothing when the clock is before the epoch;
  the conversion to \<open>i64\<close> saturates.
\<close>

definition envelope_ts :: "nat option \<Rightarrow> int" where
  "envelope_ts millis =
     (case millis of None \<Rightarrow> 0 | Some n \<Rightarrow> if n < 2 ^ 63 then int n else 2 ^ 63 - 1)"

definition build_envelope ::
    "(string \<Rightarrow> string) \<Rightarrow> nat option \<Rightarrow> value \<Rightarrow> faucet_error \<Rightarrow> dlq_reason \<Rightarrow> string \<Rightarrow> string \<Rightarrow> string \<Rightarrow> nat
     \<Rightarrow> value" where
  "build_envelope redact millis payload err reason sink_name pipeline_name row record_index =
     Object [(''error'', Object [(''kind'', String (error_kind err)),
                                 (''message'', String (redact (error_display err)))]),
             (''reason'', String (reason_as_str reason)),
             (''payload'', payload),
             (''ts_ms'', value_of_int (envelope_ts millis)),
             (''sink'', String sink_name),
             (''pipeline'', String pipeline_name),
             (''row'', String row),
             (''record_index'', value_of_nat record_index)]"

record unwrapped_envelope =
  ue_payload :: "value"
  ue_reason :: "string option"
  ue_error_kind :: "string option"
  ue_error_message :: "string option"
  ue_record_index :: "u64 option"
  ue_pipeline :: "string option"
  ue_row :: "string option"
  ue_sink :: "string option"
  ue_ts_ms :: "int option"

datatype envelope_error = NotObject | MissingPayload

definition unwrap_envelope :: "value \<Rightarrow> (envelope_error, unwrapped_envelope) result" where
  "unwrap_envelope v =
     (case as_object v of
        None \<Rightarrow> Err NotObject
      | Some obj \<Rightarrow>
          (case map_of obj ''payload'' of
             None \<Rightarrow> Err MissingPayload
           | Some payload \<Rightarrow>
               (let err = Option.bind (map_of obj ''error'') as_object;
                    str_field = (\<lambda>k. Option.bind (map_of obj k) as_str)
                in Ok \<lparr> ue_payload = payload,
                        ue_reason = str_field ''reason'',
                        ue_error_kind = Option.bind (Option.bind err (\<lambda>e. map_of e ''kind'')) as_str,
                        ue_error_message = Option.bind (Option.bind err (\<lambda>e. map_of e ''message'')) as_str,
                        ue_record_index = Option.bind (map_of obj ''record_index'') as_u64,
                        ue_pipeline = str_field ''pipeline'',
                        ue_row = str_field ''row'',
                        ue_sink = str_field ''sink'',
                        ue_ts_ms = Option.bind (map_of obj ''ts_ms'') as_i64 \<rparr>)))"

subsection \<open>The \<open>dlq_all\<close> policy\<close>

datatype batch_atomicity = Atomic | PerRow | BestEffort

fun atomicity_as_str :: "batch_atomicity \<Rightarrow> string" where
  "atomicity_as_str Atomic = ''atomic''"
| "atomicity_as_str PerRow = ''per_row''"
| "atomicity_as_str BestEffort = ''best_effort''"

definition dlq_all_is_safe :: "batch_atomicity \<Rightarrow> bool \<Rightarrow> bool" where
  "dlq_all_is_safe atomicity dedups_by_key = (dedups_by_key \<or> atomicity \<noteq> BestEffort)"

definition dlq_all_refusal :: "string \<Rightarrow> batch_atomicity \<Rightarrow> faucet_error" where
  "dlq_all_refusal sink atomicity =
     Config (''dlq: on_batch_error '' @ [CHR 0x27] @ ''dlq_all'' @ [CHR 0x27] @ '' is unsafe with sink ''
       @ [CHR 0x27] @ sink @ [CHR 0x27] @ '' (batch atomicity '' @ [CHR 0x27] @ atomicity_as_str atomicity
       @ [CHR 0x27] @ ''): a failed batch may already have written some rows, and replaying the DLQ would write them again. Use on_batch_error ''
       @ [CHR 0x27] @ ''propagate'' @ [CHR 0x27] @ '', configure the sink with write_mode '' @ [CHR 0x27]
       @ ''upsert'' @ [CHR 0x27] @ '' and a key so a replay overwrites instead of duplicating, or set allow_duplicates_on_dlq_all: true to accept the duplicates'')"

text \<open>The arguments after the policy are what the sink reports: its name, its atomicity, its keying.\<close>

definition check_dlq_all_policy ::
    "string \<Rightarrow> batch_atomicity \<Rightarrow> bool \<Rightarrow> on_batch_error \<Rightarrow> bool \<Rightarrow> unit fres" where
  "check_dlq_all_policy sink_name atomicity dedups_by_key on_batch_error allow_duplicates =
     (if on_batch_error \<noteq> OnDlqAll \<or> allow_duplicates then Ok ()
      else if dlq_all_is_safe atomicity dedups_by_key then Ok ()
      else Err (dlq_all_refusal sink_name atomicity))"

subsection \<open>Batch outcomes\<close>

datatype batch_outcome = Committed | OutcomeDlqPartial | OutcomeDlqAll | Failed

fun batch_outcome_as_str :: "batch_outcome \<Rightarrow> string" where
  "batch_outcome_as_str Committed = ''committed''"
| "batch_outcome_as_str OutcomeDlqPartial = ''dlq_partial''"
| "batch_outcome_as_str OutcomeDlqAll = ''dlq_all''"
| "batch_outcome_as_str Failed = ''failed''"

record batch_outcomes =
  bo_attempted :: nat
  bo_committed :: nat
  bo_dlq_partial :: nat
  bo_dlq_all :: nat
  bo_failed :: nat

definition outcomes_is_empty :: "batch_outcomes \<Rightarrow> bool" where
  "outcomes_is_empty b = (bo_attempted b = 0)"

definition unclean :: "batch_outcomes \<Rightarrow> nat" where
  "unclean b = bo_dlq_partial b + bo_dlq_all b + bo_failed b"

record batch_outcome_counters =
  bc_committed :: nat
  bc_dlq_partial :: nat
  bc_dlq_all :: nat
  bc_failed :: nat

definition BatchOutcomeCounters_new :: batch_outcome_counters where
  "BatchOutcomeCounters_new = \<lparr> bc_committed = 0, bc_dlq_partial = 0, bc_dlq_all = 0, bc_failed = 0 \<rparr>"

fun record_outcome :: "batch_outcome \<Rightarrow> batch_outcome_counters \<Rightarrow> batch_outcome_counters" where
  "record_outcome Committed c = c\<lparr> bc_committed := bc_committed c + 1 \<rparr>"
| "record_outcome OutcomeDlqPartial c = c\<lparr> bc_dlq_partial := bc_dlq_partial c + 1 \<rparr>"
| "record_outcome OutcomeDlqAll c = c\<lparr> bc_dlq_all := bc_dlq_all c + 1 \<rparr>"
| "record_outcome Failed c = c\<lparr> bc_failed := bc_failed c + 1 \<rparr>"

definition outcomes_snapshot :: "batch_outcome_counters \<Rightarrow> batch_outcomes" where
  "outcomes_snapshot c =
     \<lparr> bo_attempted = bc_committed c + bc_dlq_partial c + bc_dlq_all c + bc_failed c,
       bo_committed = bc_committed c, bo_dlq_partial = bc_dlq_partial c, bo_dlq_all = bc_dlq_all c,
       bo_failed = bc_failed c \<rparr>"

definition outcome_count_mismatch :: "string \<Rightarrow> nat \<Rightarrow> nat \<Rightarrow> faucet_error" where
  "outcome_count_mismatch connector got want =
     Sink (''sink '' @ [CHR 0x60] @ connector @ [CHR 0x60] @ '' returned '' @ show_nat got
       @ '' per-row outcomes for '' @ show_nat want @ '' rows; '' @ [CHR 0x60] @ ''write_batch_partial'' @ [CHR 0x60]
       @ '' must return exactly one outcome per input row'')"

section \<open>Lemmas\<close>

lemma reason_roundtrip: "reason_from_serde_str (reason_as_str r) = Some r"
  by (cases r) (simp_all add: reason_from_serde_str_def reason_ALL_def)

interpretation reason_codec: codec reason_as_str reason_from_serde_str UNIV
  by unfold_locales (rule reason_roundtrip)

lemma as_i64_envelope_ts: "as_i64 (value_of_int (envelope_ts millis)) = Some (envelope_ts millis)"
  by (rule as_i64_value_of_int) (auto simp: envelope_ts_def split: option.split)

lemma snapshot_attempted:
  "bo_attempted (outcomes_snapshot (fold record_outcome os BatchOutcomeCounters_new)) = length os"
proof -
  have "bo_attempted (outcomes_snapshot (record_outcome out c)) = Suc (bo_attempted (outcomes_snapshot c))" for out c
    by (cases out) (simp_all add: outcomes_snapshot_def)
  then have "bo_attempted (outcomes_snapshot (fold record_outcome os c)) = length os + bo_attempted (outcomes_snapshot c)" for c
    by (induction os arbitrary: c) auto
  then show ?thesis by (simp add: outcomes_snapshot_def BatchOutcomeCounters_new_def)
qed

section \<open>Properties\<close>

text \<open>C37. An envelope gives back the quarantined record verbatim with its reason, error, position and
  origin, whatever the redactor does to the message; a value that is not an object or has no payload
  is refused.\<close>

theorem envelope_roundtrip:
  assumes "record_index < 2 ^ 64"
  shows "unwrap_envelope (build_envelope redact millis payload err reason sink pipeline row record_index) =
      Ok \<lparr> ue_payload = payload, ue_reason = Some (reason_as_str reason),
           ue_error_kind = Some (error_kind err), ue_error_message = Some (redact (error_display err)),
           ue_record_index = Some (of_nat record_index), ue_pipeline = Some pipeline, ue_row = Some row,
           ue_sink = Some sink, ue_ts_ms = Some (envelope_ts millis) \<rparr>
    \<and> reason_from_serde_str (reason_as_str reason) = Some reason
    \<and> (as_object v = None \<longleftrightarrow> unwrap_envelope v = Err NotObject)
    \<and> (as_object v \<noteq> None \<and> value_get ''payload'' v = None \<longleftrightarrow> unwrap_envelope v = Err MissingPayload)"
proof (intro conjI)
  show "unwrap_envelope (build_envelope redact millis payload err reason sink pipeline row record_index) =
      Ok \<lparr> ue_payload = payload, ue_reason = Some (reason_as_str reason),
           ue_error_kind = Some (error_kind err), ue_error_message = Some (redact (error_display err)),
           ue_record_index = Some (of_nat record_index), ue_pipeline = Some pipeline, ue_row = Some row,
           ue_sink = Some sink, ue_ts_ms = Some (envelope_ts millis) \<rparr>"
    using as_u64_value_of_nat [OF assms] as_i64_envelope_ts [of millis]
    by (simp add: unwrap_envelope_def build_envelope_def Let_def)
  show "reason_from_serde_str (reason_as_str reason) = Some reason" by (rule reason_roundtrip)
qed (cases v; auto simp: unwrap_envelope_def Let_def split: option.split)+

theorem envelope_roundtrip_witness:
  "unwrap_envelope (build_envelope (\<lambda>s. s) (Some 5) Null (Sink ''x'') ReasonPartial ''s'' ''p'' ''r'' 3) =
     Ok \<lparr> ue_payload = Null, ue_reason = Some ''partial'', ue_error_kind = Some ''Sink'',
          ue_error_message = Some ''Sink error: x'', ue_record_index = Some 3, ue_pipeline = Some ''p'',
          ue_row = Some ''r'', ue_sink = Some ''s'', ue_ts_ms = Some 5 \<rparr>"
  using envelope_roundtrip [of 3 "\<lambda>s. s" "Some 5" Null "Sink ''x''" ReasonPartial "''s''" "''p''" "''r''" Null]
  by (simp add: envelope_ts_def)

end
