(* ===== verification/Schema.thy ===== *)
theory Schema
  imports Json_Value
begin

section \<open>Schema inference (\<open>crates/core/src/schema.rs\<close>)\<close>

text \<open>
  The JSON Schema inferred from the records of a page. The sources collect field names and type names
  in hash sets; here both are lists without duplicates in order of first occurrence, and the type lists
  are sorted where the sources sort them. The order of the properties has no influence on any statement:
  they are read by name.
\<close>

abbreviation ty :: "string \<Rightarrow> value" where
  "ty t \<equiv> Object [(''type'', String t)]"

definition strings_of :: "value list \<Rightarrow> string list" where
  "strings_of vs = List.map_filter as_str vs"

definition collect_types :: "value \<Rightarrow> string list" where
  "collect_types schema =
     (case value_get ''type'' schema of
        Some (String t) \<Rightarrow> [t]
      | Some (Array arr) \<Rightarrow> remdups (strings_of arr)
      | _ \<Rightarrow> [])"

text \<open>\<open>sort\<close> and \<open>dedup\<close> of a list of names.\<close>

definition sort_dedup :: "string list \<Rightarrow> string list" where
  "sort_dedup types = sort (remdups types)"

definition make_type_value :: "string list \<Rightarrow> value" where
  "make_type_value types =
     (case sort_dedup types of [t] \<Rightarrow> String t | ts \<Rightarrow> Array (map String ts))"

definition extract_properties :: "value \<Rightarrow> json_object" where
  "extract_properties schema =
     (case Option.bind (value_get ''properties'' schema) as_object of Some m \<Rightarrow> m | None \<Rightarrow> [])"

fun is_unknown_schema :: "value \<Rightarrow> bool" where
  "is_unknown_schema (Object m) = (m = [])"
| "is_unknown_schema Null = True"
| "is_unknown_schema _ = False"

definition add_null_type :: "value \<Rightarrow> value" where
  "add_null_type schema =
     (let types = collect_types schema in
      if ''null'' \<in> set types then schema
      else let new_type = make_type_value (''null'' # types) in
        case schema of
          Object m \<Rightarrow> Object (obj_insert ''type'' new_type m)
        | _ \<Rightarrow> Object [(''type'', new_type)])"

definition merged_types :: "value \<Rightarrow> value \<Rightarrow> string list" where
  "merged_types a b =
     (let types = remdups (collect_types a @ collect_types b) in
      sort_dedup (if ''integer'' \<in> set types \<and> ''number'' \<in> set types
                  then filter (\<lambda>t. t \<noteq> ''integer'') types else types))"

lemma size_map_of: "map_of m k = Some v \<Longrightarrow> size v < size_list (\<lambda>p. size (snd p)) m"
  by (induction m) (auto split: if_splits)

lemma size_value_get: "value_get k v = Some x \<Longrightarrow> size x < size v"
proof (cases v)
  case (Object m)
  moreover assume "value_get k v = Some x"
  ultimately have "map_of m k = Some x" by simp
  then have "size x < size_list (\<lambda>p. size (snd p)) m" by (rule size_map_of)
  also have "\<dots> \<le> size_list (size_prod (\<lambda>_. 0) size) m"
    by (rule size_list_pointwise) (auto simp: size_prod_def split: prod.split)
  finally show ?thesis using Object by simp
qed (auto simp: value_get_def)

lemma size_extract_properties: "map_of (extract_properties v) k = Some x \<Longrightarrow> size x < size v"
proof -
  assume x: "map_of (extract_properties v) k = Some x"
  then obtain m where m: "value_get ''properties'' v = Some (Object m)" "map_of m k = Some x"
    by (auto simp: extract_properties_def split: option.splits) (cases "value_get ''properties'' v"; auto)+
  from size_value_get [of k "Object m" x] m(2) have "size x < size (Object m)" by simp
  with size_value_get [OF m(1)] show ?thesis by simp
qed

text \<open>
  Two schemas merged into one that is valid for both. The keys of the merged properties are those of
  both sides; a key of one side only is nullable.
\<close>

function merge_schemas :: "value \<Rightarrow> value \<Rightarrow> value" where
  "merge_schemas a b =
     (let types = merged_types a b in
      if types = [] then Object []
      else
        let pa = extract_properties a; pb = extract_properties b;
            both = map (\<lambda>k. (k, merge_schemas (the (map_of pa k)) (the (map_of pb k))))
                     (filter (\<lambda>k. map_of pa k \<noteq> None \<and> map_of pb k \<noteq> None) (map fst pa));
            only_a = map (\<lambda>(k, v). (k, add_null_type v)) (filter (\<lambda>(k, v). map_of pb k = None) pa);
            only_b = map (\<lambda>(k, v). (k, add_null_type v)) (filter (\<lambda>(k, v). map_of pa k = None) pb);
            items = (case value_get ''items'' a of
                       Some x \<Rightarrow>
                         (case value_get ''items'' b of Some y \<Rightarrow> Some (merge_schemas x y) | None \<Rightarrow> Some x)
                     | None \<Rightarrow> value_get ''items'' b)
        in Object ([(''type'', make_type_value types)]
             @ (if ''object'' \<in> set types then [(''properties'', Object (both @ only_a @ only_b))] else [])
             @ (if ''array'' \<in> set types
                then (case items of
                        Some i \<Rightarrow> if is_unknown_schema i then [] else [(''items'', i)]
                      | None \<Rightarrow> [])
                else [])))"
  by pat_completeness auto
termination
proof (relation "measure (\<lambda>(a, b). size a + size b)")
  fix a b :: "value" and types pa pb k
  assume "pa = extract_properties a" "pb = extract_properties b"
    "k \<in> set (filter (\<lambda>k. map_of pa k \<noteq> None \<and> map_of pb k \<noteq> None) (map fst pa))"
  then show "((the (map_of pa k), the (map_of pb k)), (a, b)) \<in> measure (\<lambda>(a, b). size a + size b)"
    using size_extract_properties [of a k] size_extract_properties [of b k] by (auto intro: add_strict_mono)
next
  fix a b x y :: "value" and types pa pb both only_a only_b
  assume "value_get ''items'' a = Some x" "value_get ''items'' b = Some y"
  then show "((x, y), (a, b)) \<in> measure (\<lambda>(a, b). size a + size b)"
    using size_value_get [of "''items''" a x] size_value_get [of "''items''" b y] by (auto intro: add_strict_mono)
qed auto

declare merge_schemas.simps [simp del]

text \<open>\<open>reduce(merge_schemas)\<close>, with the empty schema for no value.\<close>

definition reduce_schemas :: "value list \<Rightarrow> value" where
  "reduce_schemas ss = (case ss of [] \<Rightarrow> Object [] | x # xs \<Rightarrow> foldl merge_schemas x xs)"

text \<open>\<open>is_i64() || is_u64()\<close> of a number\<close>

fun is_integer_number :: "number \<Rightarrow> bool" where
  "is_integer_number (PosInt _) = True"
| "is_integer_number (NegInt _) = True"
| "is_integer_number (Float _) = False"

fun infer_value_schema :: "value \<Rightarrow> value" where
  "infer_value_schema Null = ty ''null''"
| "infer_value_schema (Bool _) = ty ''boolean''"
| "infer_value_schema (Number n) = (if is_integer_number n then ty ''integer'' else ty ''number'')"
| "infer_value_schema (String _) = ty ''string''"
| "infer_value_schema (Array arr) =
     Object [(''type'', String ''array''), (''items'', reduce_schemas (map infer_value_schema arr))]"
| "infer_value_schema (Object m) =
     Object [(''type'', String ''object''),
             (''properties'', Object (map (\<lambda>(k, v). (k, infer_value_schema v)) m))]"

definition objects_of :: "value list \<Rightarrow> json_object list" where
  "objects_of records = List.map_filter as_object records"

definition infer_field :: "json_object list \<Rightarrow> string \<Rightarrow> value" where
  "infer_field objects key =
     (let vals = List.map_filter (\<lambda>o1. map_of o1 key) objects;
          field_schema = reduce_schemas (map infer_value_schema vals)
      in if length vals < length objects then add_null_type field_schema else field_schema)"

definition infer_schema :: "value list \<Rightarrow> value" where
  "infer_schema records =
     (let objects = objects_of records in
      if objects = [] then Object [(''type'', String ''object''), (''properties'', Object [])]
      else
        let all_keys = remdups (concat (map (map fst) objects))
        in Object [(''type'', String ''object''),
                   (''properties'', Object (map (\<lambda>key. (key, infer_field objects key)) all_keys))])"

section \<open>Lemmas\<close>

text \<open>The name of the JSON type of a value.\<close>

fun type_name :: "value \<Rightarrow> string" where
  "type_name Null = ''null''"
| "type_name (Bool _) = ''boolean''"
| "type_name (Number n) = (if is_integer_number n then ''integer'' else ''number'')"
| "type_name (String _) = ''string''"
| "type_name (Array _) = ''array''"
| "type_name (Object _) = ''object''"

lemma strings_of_map [simp]: "strings_of (map String ts) = ts"
  by (induction ts) (auto simp: strings_of_def List.map_filter_simps)

lemma collect_make_type:
  "set (case make_type_value ts of String t \<Rightarrow> [t] | Array arr \<Rightarrow> remdups (strings_of arr) | _ \<Rightarrow> []) = set ts"
proof -
  have *: "set (sort_dedup ts) = set ts" by (simp add: sort_dedup_def)
  consider "sort_dedup ts = []" | t where "sort_dedup ts = [t]" | a b c where "sort_dedup ts = a # b # c"
    by (cases "sort_dedup ts" rule: remdups_adj.cases) auto
  then show ?thesis
  proof cases
    case 1
    with * show ?thesis by (simp add: make_type_value_def strings_of_def List.map_filter_simps)
  next
    case 2
    with * show ?thesis by (simp add: make_type_value_def)
  next
    case 3
    then have "make_type_value ts = Array (map String (sort_dedup ts))" by (simp add: make_type_value_def)
    with * show ?thesis by simp
  qed
qed

lemma collect_types_typed [simp]:
  "set (collect_types (Object ((''type'', make_type_value ts) # m))) = set ts"
  using collect_make_type [of ts] by (simp add: collect_types_def split: "value.splits")

lemma collect_types_empty [simp]: "collect_types (Object []) = []"
  by (simp add: collect_types_def)

lemma collect_infer_value: "collect_types (infer_value_schema v) = [type_name v]"
  by (cases v) (auto simp: collect_types_def)

lemma set_merged_types:
  "set (merged_types a b) =
     (let u = set (collect_types a) \<union> set (collect_types b) in
      if ''integer'' \<in> u \<and> ''number'' \<in> u then u - {''integer''} else u)"
  by (auto simp: merged_types_def sort_dedup_def Let_def)

lemma collect_merge: "set (collect_types (merge_schemas a b)) = set (merged_types a b)"
  by (subst merge_schemas.simps) (simp add: Let_def)

text \<open>A type is covered by a list of types that has it, or has \<open>number\<close> for \<open>integer\<close>.\<close>

definition covered :: "string \<Rightarrow> string set \<Rightarrow> bool" where
  "covered t ts = (t \<in> ts \<or> t = ''integer'' \<and> ''number'' \<in> ts)"

lemma covered_merge:
  "covered t (set (collect_types a)) \<or> covered t (set (collect_types b)) \<Longrightarrow>
   covered t (set (collect_types (merge_schemas a b)))"
  by (auto simp: covered_def collect_merge set_merged_types Let_def)

lemma covered_foldl:
  "covered t (set (collect_types a)) \<or> (\<exists>s \<in> set ss. covered t (set (collect_types s))) \<Longrightarrow>
   covered t (set (collect_types (foldl merge_schemas a ss)))"
proof (induction ss arbitrary: a)
  case (Cons s ss)
  then show ?case using covered_merge [of t a s] by auto
qed simp

lemma covered_reduce:
  assumes "v \<in> set vs"
  shows "covered (type_name v) (set (collect_types (reduce_schemas (map infer_value_schema vs))))"
proof (cases vs)
  case Nil
  with assms show ?thesis by simp
next
  case (Cons x xs)
  have "covered (type_name v) (set (collect_types (infer_value_schema v)))"
    by (simp add: covered_def collect_infer_value)
  with assms Cons show ?thesis by (auto simp: reduce_schemas_def intro!: covered_foldl)
qed

lemma collect_add_null:
  "set (collect_types (add_null_type s)) = insert ''null'' (set (collect_types s))"
proof (cases "''null'' \<in> set (collect_types s)")
  case True
  then show ?thesis by (auto simp: add_null_type_def Let_def)
next
  case False
  let ?t = "make_type_value (''null'' # collect_types s)"
  have "set (case ?t of String t \<Rightarrow> [t] | Array arr \<Rightarrow> remdups (strings_of arr) | _ \<Rightarrow> [])
      = insert ''null'' (set (collect_types s))"
    using collect_make_type [of "''null'' # collect_types s"] by simp
  moreover have "value_get ''type'' (add_null_type s) = Some ?t"
    using False by (simp add: add_null_type_def Let_def split: "value.split")
  ultimately show ?thesis by (simp add: collect_types_def [of "add_null_type s"] split: "value.split")
qed

lemma covered_field:
  assumes "o1 \<in> set objects" "map_of o1 key = Some v"
  shows "covered (type_name v) (set (collect_types (infer_field objects key)))"
proof -
  have "v \<in> set (List.map_filter (\<lambda>o1. map_of o1 key) objects)"
    using assms by (auto simp: List.map_filter_def image_iff)
  from covered_reduce [OF this] show ?thesis
    by (auto simp: infer_field_def Let_def collect_add_null covered_def)
qed

lemma null_field:
  assumes "o1 \<in> set objects" "map_of o1 key = None"
  shows "''null'' \<in> set (collect_types (infer_field objects key))"
proof -
  have "length (List.map_filter (\<lambda>o1. map_of o1 key) objects) < length objects"
    using assms
  proof (induction objects)
    case (Cons o2 objects)
    have "length (List.map_filter (\<lambda>o1. map_of o1 key) os) \<le> length os" for os
      by (induction os) (auto simp: List.map_filter_simps split: option.split)
    then show ?case using Cons by (auto simp: List.map_filter_simps less_Suc_eq_le split: option.split)
  qed simp
  then show ?thesis by (simp add: infer_field_def Let_def collect_add_null)
qed

lemma infer_schema_properties:
  "map_of (extract_properties (infer_schema records)) key =
     (if \<exists>o1 \<in> set (objects_of records). map_of o1 key \<noteq> None
      then Some (infer_field (objects_of records) key) else None)"
proof -
  let ?keys = "remdups (concat (map (map fst) (objects_of records)))"
  have "map_of (map (\<lambda>key. (key, infer_field (objects_of records) key)) ks) key
      = (if key \<in> set ks then Some (infer_field (objects_of records) key) else None)" for ks
    by (induction ks) auto
  moreover have "key \<in> set ?keys \<longleftrightarrow> (\<exists>o1 \<in> set (objects_of records). map_of o1 key \<noteq> None)"
    by (auto simp: map_of_eq_None_iff image_iff)
  ultimately show ?thesis
    by (auto simp: infer_schema_def Let_def extract_properties_def)
qed

end
