(* ===== verification/Drift.thy ===== *)
theory Drift
  imports Schema Faucet_Error
begin

section \<open>Schema drift (\<open>crates/core/src/drift.rs\<close>)\<close>

text \<open>
  The difference between the shape of a page and the schema of its destination, column by column, and
  the policies for it.
\<close>

record column_change =
  cc_name :: string
  cc_from :: "value option"
  cc_to :: "value"

record schema_diff =
  sd_additions :: "column_change list"
  sd_widenings :: "column_change list"
  sd_incompatible :: "column_change list"
  sd_droppable_required :: "string list"

definition empty_diff :: schema_diff where
  "empty_diff = \<lparr> sd_additions = [], sd_widenings = [], sd_incompatible = [], sd_droppable_required = [] \<rparr>"

definition diff_is_empty :: "schema_diff \<Rightarrow> bool" where
  "diff_is_empty d =
     (sd_additions d = [] \<and> sd_widenings d = [] \<and> sd_incompatible d = [] \<and> sd_droppable_required d = [])"

definition changed_columns :: "schema_diff \<Rightarrow> string list" where
  "changed_columns d =
     map cc_name (sd_additions d @ sd_widenings d @ sd_incompatible d) @ sd_droppable_required d"

record schema_evolution =
  sv_additions :: "column_change list"
  sv_widenings :: "column_change list"
  sv_relax_nullability :: "string list"

definition evolution_is_empty :: "schema_evolution \<Rightarrow> bool" where
  "evolution_is_empty e = (sv_additions e = [] \<and> sv_widenings e = [] \<and> sv_relax_nullability e = [])"

text \<open>The base types a fragment names, sorted, and whether it names \<open>null\<close>.\<close>

definition type_set :: "value \<Rightarrow> string list \<times> bool" where
  "type_set fragment =
     (let ts = (case value_get ''type'' fragment of
                  Some (String t) \<Rightarrow> [t]
                | Some (Array arr) \<Rightarrow> strings_of arr
                | _ \<Rightarrow> [])
      in (sort (filter (\<lambda>t. t \<noteq> ''null'') ts), ''null'' \<in> set ts))"

definition DRIFT_ALSO_ACCEPTS :: string where
  "DRIFT_ALSO_ACCEPTS = ''x-faucet-also-accepts''"

definition also_accepts :: "value \<Rightarrow> string list" where
  "also_accepts dest =
     (case Option.bind (value_get DRIFT_ALSO_ACCEPTS dest) as_array of Some a \<Rightarrow> strings_of a | None \<Rightarrow> [])"

definition fits :: "value \<Rightarrow> value \<Rightarrow> bool" where
  "fits dest page =
     (let (dn, dnull) = type_set dest; (pn, pnull) = type_set page; also = also_accepts dest in
      if pnull \<and> \<not> dnull then False
      else list_all (\<lambda>t. t \<in> set dn \<or> t \<in> set also \<or> t = ''integer'' \<and> ''number'' \<in> set dn) pn)"

definition type_of_names :: "string list \<Rightarrow> bool \<Rightarrow> value" where
  "type_of_names names nullable =
     (case map String names @ (if nullable then [String ''null''] else []) of [t] \<Rightarrow> t | ts \<Rightarrow> Array ts)"

definition set_type :: "value \<Rightarrow> value \<Rightarrow> value" where
  "set_type t fragment =
     (case fragment of Object m \<Rightarrow> Object (obj_insert ''type'' t m) | _ \<Rightarrow> fragment)"

definition without_also_accepted :: "value \<Rightarrow> value \<Rightarrow> value" where
  "without_also_accepted dest page =
     (let also = also_accepts dest in
      if also = [] then page
      else let (dn, _) = type_set dest; (pn, pnull) = type_set page;
               kept = filter (\<lambda>t. t \<in> set dn \<or> t \<notin> set also) pn
           in set_type (type_of_names kept pnull) page)"

text \<open>The family of base types after the collapse of \<open>integer\<close> into \<open>number\<close>.\<close>

definition collapse_family :: "string list \<Rightarrow> string list" where
  "collapse_family names =
     (let m = sort_dedup names in
      if ''number'' \<in> set m then filter (\<lambda>t. t \<noteq> ''integer'') m else m)"

definition evolvable :: "value \<Rightarrow> value \<Rightarrow> bool" where
  "evolvable dest page =
     (length (collapse_family (fst (type_set dest) @ fst (type_set page))) = 1)"

definition base_widened :: "value \<Rightarrow> value \<Rightarrow> bool" where
  "base_widened from to =
     (collapse_family (fst (type_set from) @ fst (type_set to)) \<noteq> collapse_family (fst (type_set from)))"

definition adds_null :: "value \<Rightarrow> value \<Rightarrow> bool" where
  "adds_null from to = (snd (type_set to) \<and> \<not> snd (type_set from))"

subsection \<open>The shape of a page\<close>

text \<open>The scanner of a JSON number: sign, digits, fraction, exponent.\<close>

definition scan_digits :: "string \<Rightarrow> string option" where
  "scan_digits s = (case s of c # _ \<Rightarrow> if is_ascii_digit c then Some (dropWhile is_ascii_digit s) else None | [] \<Rightarrow> None)"

definition scan_fraction :: "string \<Rightarrow> string option" where
  "scan_fraction s = (case s of c # r \<Rightarrow> if c = CHR ''.'' then scan_digits r else Some s | [] \<Rightarrow> Some s)"

definition scan_exponent :: "string \<Rightarrow> string option" where
  "scan_exponent s =
     (case s of
        c # r \<Rightarrow>
          if c = CHR ''e'' \<or> c = CHR ''E''
          then scan_digits (case r of d # r' \<Rightarrow> if d = CHR ''+'' \<or> d = CHR ''-'' then r' else r | [] \<Rightarrow> r)
          else Some s
      | [] \<Rightarrow> Some s)"

definition is_numeric_text :: "string \<Rightarrow> bool" where
  "is_numeric_text s =
     (Option.bind (Option.bind (scan_digits (case s of c # r \<Rightarrow> if c = CHR ''-'' then r else s | [] \<Rightarrow> s))
        scan_fraction) scan_exponent = Some [])"

text \<open>The type of one column of the page, read against its destination column.\<close>

definition retype_names :: "string list \<Rightarrow> string list" where
  "retype_names pn =
     (let names = map (\<lambda>t. if t = ''string'' then ''number'' else t) pn
      in sort_dedup (if ''number'' \<in> set names then filter (\<lambda>t. t \<noteq> ''integer'') names else names))"

definition retype_column :: "json_object \<Rightarrow> value list \<Rightarrow> string \<Rightarrow> value \<Rightarrow> value" where
  "retype_column dest_props records name fragment =
     (case map_of dest_props name of
        None \<Rightarrow> fragment
      | Some dest \<Rightarrow>
          (let (dn, _) = type_set dest; (pn, pnull) = type_set fragment in
           if ''number'' \<notin> set dn \<or> ''string'' \<notin> set pn then fragment
           else if \<not> list_all (\<lambda>v. case as_str v of Some s \<Rightarrow> is_numeric_text s | None \<Rightarrow> True)
                     (List.map_filter (value_get name) records) then fragment
           else set_type (type_of_names (retype_names pn) pnull) fragment))"

definition infer_page_schema :: "value \<Rightarrow> value list \<Rightarrow> value" where
  "infer_page_schema destination records =
     (let inferred = infer_schema records in
      case Option.bind (value_get ''properties'' destination) as_object of
        None \<Rightarrow> inferred
      | Some dest_props \<Rightarrow>
          (case inferred of
             Object m \<Rightarrow>
               (case Option.bind (map_of m ''properties'') as_object of
                  None \<Rightarrow> inferred
                | Some props \<Rightarrow>
                    Object (obj_insert ''properties''
                      (Object (map (\<lambda>(name, fragment). (name, retype_column dest_props records name fragment)) props)) m))
           | _ \<Rightarrow> inferred))"

definition value_fits :: "value \<Rightarrow> string \<Rightarrow> value \<Rightarrow> bool" where
  "value_fits dest name v =
     (let destination = Object [(''type'', String ''object''), (''properties'', Object [(name, dest)])];
          page = infer_page_schema destination [Object [(name, v)]]
      in case Option.bind (value_get ''properties'' page) (value_get name) of
           Some fragment \<Rightarrow> fits dest fragment
         | None \<Rightarrow> False)"

subsection \<open>The difference\<close>

datatype column_verdict = NoDrift | Added column_change | Widened column_change | Clash column_change

definition classify_column :: "json_object \<Rightarrow> bool \<Rightarrow> string \<Rightarrow> value \<Rightarrow> column_verdict" where
  "classify_column dest_props allow_widening name page_ty =
     (case map_of dest_props name of
        None \<Rightarrow> Added \<lparr> cc_name = name, cc_from = None, cc_to = page_ty \<rparr>
      | Some dest_ty \<Rightarrow>
          if fits dest_ty page_ty then NoDrift
          else let page_ty = without_also_accepted dest_ty page_ty;
                   change = \<lparr> cc_name = name, cc_from = Some dest_ty, cc_to = page_ty \<rparr>
               in if allow_widening \<and> evolvable dest_ty page_ty then Widened change else Clash change)"

definition diff_schema :: "value \<Rightarrow> value \<Rightarrow> bool \<Rightarrow> schema_diff" where
  "diff_schema destination page allow_widening =
     (let dest_props = extract_properties destination;
          page_props = extract_properties page;
          verdicts = map (\<lambda>(name, page_ty). classify_column dest_props allow_widening name page_ty) page_props
      in \<lparr> sd_additions = sort_key cc_name (List.map_filter (\<lambda>v. case v of Added c \<Rightarrow> Some c | _ \<Rightarrow> None) verdicts),
           sd_widenings = sort_key cc_name (List.map_filter (\<lambda>v. case v of Widened c \<Rightarrow> Some c | _ \<Rightarrow> None) verdicts),
           sd_incompatible = sort_key cc_name (List.map_filter (\<lambda>v. case v of Clash c \<Rightarrow> Some c | _ \<Rightarrow> None) verdicts),
           sd_droppable_required =
             sort (map fst (filter (\<lambda>(name, dest_ty). name \<notin> fst ` set page_props \<and> \<not> snd (type_set dest_ty))
               dest_props)) \<rparr>)"

subsection \<open>Policies\<close>

datatype on_drift = DriftWarn | DriftEvolve | DriftIgnore | DriftQuarantine | DriftFail

datatype on_incompatible = IncompatibleFail | IncompatibleQuarantine

record schema_drift_spec =
  ss_on_drift :: on_drift
  ss_allow_type_widening :: bool
  ss_on_incompatible :: on_incompatible
  ss_relax_nullability_on_missing :: bool

record schema_drift_policy =
  dp_on_drift :: on_drift
  dp_allow_widening :: bool
  dp_on_incompatible :: on_incompatible
  dp_relax_nullability_on_missing :: bool

definition SchemaDriftPolicy_compile :: "schema_drift_spec \<Rightarrow> schema_drift_policy" where
  "SchemaDriftPolicy_compile spec =
     \<lparr> dp_on_drift = ss_on_drift spec, dp_allow_widening = ss_allow_type_widening spec,
       dp_on_incompatible = ss_on_incompatible spec,
       dp_relax_nullability_on_missing = ss_relax_nullability_on_missing spec \<rparr>"

definition requires_dlq :: "schema_drift_policy \<Rightarrow> bool" where
  "requires_dlq p =
     (dp_on_drift p = DriftQuarantine
      \<or> dp_on_drift p = DriftEvolve \<and> dp_on_incompatible p = IncompatibleQuarantine)"

datatype sql_base_type = SqlInteger | SqlDouble | SqlBoolean | SqlText | SqlJson

definition json_schema_base_type :: "value \<Rightarrow> sql_base_type option" where
  "json_schema_base_type fragment =
     (let names = set (fst (type_set fragment)) in
      if ''object'' \<in> names \<or> ''array'' \<in> names then Some SqlJson
      else if ''string'' \<in> names then Some SqlText
      else if ''number'' \<in> names then Some SqlDouble
      else if ''integer'' \<in> names then Some SqlInteger
      else if ''boolean'' \<in> names then Some SqlBoolean
      else None)"

section \<open>Lemmas\<close>

lemma type_set_collect:
  "set (fst (type_set f)) = set (collect_types f) - {''null''}"
  "snd (type_set f) \<longleftrightarrow> ''null'' \<in> set (collect_types f)"
  by (auto simp: type_set_def collect_types_def Let_def split: option.splits "value.splits")

lemma fits_iff:
  "fits dest page \<longleftrightarrow>
     (''null'' \<in> set (collect_types page) \<longrightarrow> snd (type_set dest))
     \<and> (\<forall>t \<in> set (collect_types page) - {''null''}.
          t \<in> set (fst (type_set dest)) \<or> t \<in> set (also_accepts dest)
          \<or> t = ''integer'' \<and> ''number'' \<in> set (fst (type_set dest)))"
proof -
  have "fits dest page \<longleftrightarrow> \<not> (snd (type_set page) \<and> \<not> snd (type_set dest))
     \<and> (\<forall>t \<in> set (fst (type_set page)).
          t \<in> set (fst (type_set dest)) \<or> t \<in> set (also_accepts dest)
          \<or> t = ''integer'' \<and> ''number'' \<in> set (fst (type_set dest)))"
    by (simp add: fits_def Let_def case_prod_unfold list_all_iff)
  then show ?thesis unfolding type_set_collect(1) [of page] type_set_collect(2) [of page] by blast
qed

lemma fits_type:
  assumes "fits dest page" "t \<in> set (collect_types page)" "t \<noteq> ''null''"
  shows "t \<in> set (fst (type_set dest)) \<or> t \<in> set (also_accepts dest)
    \<or> t = ''integer'' \<and> ''number'' \<in> set (fst (type_set dest))"
  using assms unfolding fits_iff by blast

lemma fits_null: "fits dest page \<Longrightarrow> ''null'' \<in> set (collect_types page) \<Longrightarrow> snd (type_set dest)"
  unfolding fits_iff by blast

lemma set_type_collect:
  "set (collect_types (set_type (type_of_names names nullable) (Object m))) =
     set names \<union> (if nullable then {''null''} else {})"
proof -
  let ?ts = "names @ (if nullable then [''null''] else [])"
  have ts: "map String names @ (if nullable then [String ''null''] else []) = map String ?ts" by simp
  have "value_get ''type'' (set_type (type_of_names names nullable) (Object m)) = Some (type_of_names names nullable)"
    by (simp add: set_type_def)
  moreover have "type_of_names names nullable = (case map String ?ts of [t] \<Rightarrow> t | ts \<Rightarrow> Array ts)"
    by (simp only: type_of_names_def ts)
  moreover consider "?ts = []" | t where "?ts = [t]" | a b c where "?ts = a # b # c"
    by (cases ?ts rule: remdups_adj.cases) auto
  then have "set (case (case map String ?ts of [t] \<Rightarrow> t | ts \<Rightarrow> Array ts) of
      String t \<Rightarrow> [t] | Array arr \<Rightarrow> remdups (strings_of arr) | _ \<Rightarrow> []) = set ?ts"
  proof cases
    case 3
    then have "(case map String ?ts of [t] \<Rightarrow> t | ts \<Rightarrow> Array ts) = Array (map String ?ts)" by simp
    then show ?thesis by (simp only: "value.case" strings_of_map set_remdups)
  qed (simp_all add: strings_of_def List.map_filter_simps)
  ultimately have "set (collect_types (set_type (type_of_names names nullable) (Object m))) = set ?ts"
    by (simp add: collect_types_def split: "value.split")
  then show ?thesis by simp
qed

text \<open>What a destination column accepts of one value.\<close>

definition accepts :: "value \<Rightarrow> value \<Rightarrow> bool" where
  "accepts dest v =
     (let (names, nullable) = type_set dest in
      if v = Null then nullable
      else type_name v \<in> set names \<or> type_name v \<in> set (also_accepts dest)
        \<or> type_name v = ''integer'' \<and> ''number'' \<in> set names \<union> set (also_accepts dest)
        \<or> ''number'' \<in> set names \<and> (case v of String s \<Rightarrow> is_numeric_text s | _ \<Rightarrow> False))"

lemma accepts_iff:
  "accepts dest v \<longleftrightarrow>
     (if v = Null then snd (type_set dest)
      else type_name v \<in> set (fst (type_set dest)) \<or> type_name v \<in> set (also_accepts dest)
        \<or> type_name v = ''integer'' \<and> ''number'' \<in> set (fst (type_set dest)) \<union> set (also_accepts dest)
        \<or> ''number'' \<in> set (fst (type_set dest)) \<and> (case v of String s \<Rightarrow> is_numeric_text s | _ \<Rightarrow> False))"
  by (simp add: accepts_def Let_def case_prod_unfold)

lemma accepts_typed:
  assumes "v \<noteq> Null" "type_name v \<in> set (fst (type_set dest)) \<or> type_name v \<in> set (also_accepts dest)
    \<or> type_name v = ''integer'' \<and> ''number'' \<in> set (fst (type_set dest)) \<union> set (also_accepts dest)"
  shows "accepts dest v"
  unfolding accepts_iff if_not_P [OF assms(1)] using assms(2) by blast

lemma type_name_null [simp]: "type_name v = ''null'' \<longleftrightarrow> v = Null"
  by (cases v) auto

lemma type_name_string: "type_name v = ''string'' \<longleftrightarrow> (\<exists>s. v = String s)"
  by (cases v) auto

lemma set_retype_names:
  "''string'' \<in> set pn \<Longrightarrow> set (retype_names pn) = insert ''number'' (set pn - {''string'', ''integer''})"
  by (auto simp: retype_names_def sort_dedup_def Let_def)

text \<open>A column whose type is fitted, read with or without the numeric-text rule, accepts its values.\<close>

lemma fits_accepts:
  assumes cov: "covered (type_name v) (set (collect_types f))"
    and fits: "fits dest (retype_column dest_props records name f)"
    and dest: "map_of dest_props name = Some dest"
    and v: "r \<in> set records" "value_get name r = Some v"
    and obj: "f = Object m"
  shows "accepts dest v"
proof -
  let ?dn = "set (fst (type_set dest))"
  have plain: "accepts dest v" if f: "fits dest f"
  proof (cases "v = Null")
    case True
    with cov have "''null'' \<in> set (collect_types f)" by (simp add: covered_def)
    with f True show ?thesis by (simp add: fits_iff accepts_iff)
  next
    case False
    then have t: "type_name v \<noteq> ''null''" by simp
    from cov consider "type_name v \<in> set (collect_types f)" | "type_name v = ''integer''" "''number'' \<in> set (collect_types f)"
      unfolding covered_def by blast
    then show ?thesis
    proof cases
      case 1
      from fits_type [OF f this t] show ?thesis by (intro accepts_typed [OF False]) blast
    next
      case 2
      have "''number'' \<in> ?dn \<union> set (also_accepts dest)" using fits_type [OF f 2(2)] by simp
      with 2 show ?thesis by (intro accepts_typed [OF False]) blast
    qed
  qed
  let ?num = "list_all (\<lambda>v. case as_str v of Some s \<Rightarrow> is_numeric_text s | None \<Rightarrow> True)
      (List.map_filter (value_get name) records)"
  show ?thesis
  proof (cases "''number'' \<in> ?dn \<and> ''string'' \<in> set (fst (type_set f)) \<and> ?num")
    case False
    then have "retype_column dest_props records name f = f"
      by (auto simp: retype_column_def dest split: prod.splits)
    with fits plain show ?thesis by simp
  next
    case True
    let ?g = "set_type (type_of_names (retype_names (fst (type_set f))) (snd (type_set f))) f"
    have g: "retype_column dest_props records name f = ?g"
      using True by (auto simp: retype_column_def dest split: prod.splits)
    have types: "set (collect_types ?g) = insert ''number'' (set (collect_types f) - {''null''} - {''string'', ''integer''})
        \<union> (if ''null'' \<in> set (collect_types f) then {''null''} else {})"
      using True by (simp add: obj set_type_collect set_retype_names type_set_collect)
    show ?thesis
    proof (cases "v = Null \<or> (\<exists>s. v = String s) \<or> type_name v = ''integer'' \<or> type_name v = ''number''")
      case t: True
      have "is_numeric_text s" if "v = String s" for s
        using True v that by (auto simp: list_all_iff List.map_filter_def)
      moreover have "snd (type_set dest)" if "v = Null"
      proof (rule fits_null [OF fits [unfolded g]])
        show "''null'' \<in> set (collect_types ?g)" using cov that unfolding types by (simp add: covered_def)
      qed
      ultimately show ?thesis using t True unfolding accepts_iff by (cases v) auto
    next
      case t: False
      then have v: "v \<noteq> Null" "type_name v \<noteq> ''null''" "type_name v \<noteq> ''string''" "type_name v \<noteq> ''integer''"
        using type_name_string [of v] by auto
      then have "type_name v \<in> set (collect_types ?g)" using cov unfolding types covered_def by blast
      from fits_type [OF fits [unfolded g] this v(2)] show ?thesis
        by (intro accepts_typed [OF v(1)]) blast
    qed
  qed
qed

lemma retype_null:
  assumes "f = Object m" "''null'' \<in> set (collect_types f)"
  shows "''null'' \<in> set (collect_types (retype_column dest_props records name f))"
  using assms
  by (simp add: retype_column_def case_prod_unfold Let_def set_type_collect type_set_collect split: option.split)

lemma sort_key_empty: "sort_key g xs = [] \<longleftrightarrow> xs = []"
  by (metis length_0_conv length_sort)

lemma infer_value_object: "\<exists>m. infer_value_schema v = Object m"
  by (cases v) auto

lemma merge_object: "\<exists>m. merge_schemas a b = Object m"
  by (subst merge_schemas.simps) (simp add: Let_def)

lemma foldl_merge_object: "\<exists>m. a = Object m \<Longrightarrow> \<exists>m. foldl merge_schemas a ss = Object m"
  by (induction ss arbitrary: a) (auto simp: merge_object)

lemma add_null_object: "\<exists>m. s = Object m \<Longrightarrow> \<exists>m. add_null_type s = Object m"
  by (auto simp: add_null_type_def Let_def)

lemma infer_field_object: "\<exists>m. infer_field objects key = Object m"
proof -
  have "\<exists>m. reduce_schemas (map infer_value_schema vs) = Object m" for vs
    by (cases vs) (auto simp: reduce_schemas_def infer_value_object intro!: foldl_merge_object)
  then show ?thesis by (auto simp: infer_field_def Let_def intro!: add_null_object)
qed

lemma infer_schema_object:
  "\<exists>props. infer_schema records = Object [(''type'', String ''object''), (''properties'', Object props)]"
  by (simp add: infer_schema_def Let_def)

text \<open>The columns of a page's shape: the inferred ones, retyped against the destination.\<close>

lemma page_properties:
  "map_of (extract_properties (infer_page_schema destination records)) key =
     map_option (\<lambda>f. if Option.bind (value_get ''properties'' destination) as_object = None then f
                     else retype_column (extract_properties destination) records key f)
       (map_of (extract_properties (infer_schema records)) key)"
proof -
  obtain m where m: "infer_schema records = Object m" "map_of m ''properties'' = Some (Object (extract_properties (infer_schema records)))"
    using infer_schema_object [of records] by (auto simp: extract_properties_def)
  let ?props = "extract_properties (infer_schema records)"
  have mapped: "map_of (map (\<lambda>(name, fragment). (name, g name fragment)) xs) key = map_option (g key) (map_of xs key)" for g xs
    by (induction xs) auto
  show ?thesis
  proof (cases "Option.bind (value_get ''properties'' destination) as_object")
    case None
    then show ?thesis by (simp add: infer_page_schema_def Let_def option.map_ident)
  next
    case (Some dest_props)
    then have d: "extract_properties destination = dest_props" by (simp add: extract_properties_def)
    have "infer_page_schema destination records = Object (obj_insert ''properties''
        (Object (map (\<lambda>(name, fragment). (name, retype_column dest_props records name fragment)) ?props)) m)"
      using Some m by (simp add: infer_page_schema_def Let_def)
    then have "extract_properties (infer_page_schema destination records) =
        map (\<lambda>(name, fragment). (name, retype_column dest_props records name fragment)) ?props"
      by (simp add: extract_properties_def)
    with Some d show ?thesis by (simp add: mapped)
  qed
qed

lemma infer_keys_distinct: "distinct (map fst (extract_properties (infer_schema records)))"
  by (simp add: infer_schema_def Let_def extract_properties_def comp_def)

text \<open>The test of one record's value is sound.\<close>

lemma value_fits_accepts:
  assumes "value_fits dest name v"
  shows "accepts dest v"
proof -
  let ?destination = "Object [(''type'', String ''object''), (''properties'', Object [(name, dest)])]"
  let ?records = "[Object [(name, v)]]"
  let ?page = "infer_page_schema ?destination ?records"
  have objs: "objects_of ?records = [[(name, v)]]" by (simp add: objects_of_def List.map_filter_simps)
  have ep: "extract_properties ?destination = [(name, dest)]" by (simp add: extract_properties_def)
  have "map_of (extract_properties ?page) name =
      Some (retype_column [(name, dest)] ?records name (infer_field [[(name, v)]] name))"
    by (simp add: page_properties infer_schema_properties objs ep)
  moreover have "Option.bind (value_get ''properties'' ?page) (value_get name) = map_of (extract_properties ?page) name"
    if "map_of (extract_properties ?page) name \<noteq> None"
    using that by (cases "value_get ''properties'' ?page"; cases "the (value_get ''properties'' ?page)")
      (auto simp: extract_properties_def)
  ultimately have f: "fits dest (retype_column [(name, dest)] ?records name (infer_field [[(name, v)]] name))"
    using assms by (simp add: value_fits_def Let_def)
  obtain m where m: "infer_field [[(name, v)]] name = Object m" using infer_field_object by blast
  show ?thesis
    by (rule fits_accepts [OF covered_field [of "[(name, v)]"] f _ _ _ m]) auto
qed

text \<open>The columns of a page and the verdicts of the difference, one column at a time.\<close>

lemma page_column:
  assumes "Option.bind (value_get ''properties'' destination) as_object = Some dest_props"
    and "\<exists>r \<in> set (objects_of records). map_of r k \<noteq> None"
  shows "map_of (extract_properties (infer_page_schema destination records)) k
    = Some (retype_column dest_props records k (infer_field (objects_of records) k))"
proof -
  have "extract_properties destination = dest_props" using assms(1) by (simp add: extract_properties_def)
  with assms show ?thesis by (simp add: page_properties infer_schema_properties)
qed

lemma page_column_absent:
  "\<not> (\<exists>r \<in> set (objects_of records). map_of r k \<noteq> None) \<Longrightarrow>
   k \<notin> fst ` set (extract_properties (infer_page_schema destination records))"
  using page_properties [of destination records k] infer_schema_properties [of records k]
  by (simp flip: map_of_eq_None_iff)

lemma column_value_accepted:
  assumes "Object o1 \<in> set records" "map_of o1 k = Some v" "map_of dest_props k = Some d"
    and "fits d (retype_column dest_props records k (infer_field (objects_of records) k))"
  shows "accepts d v"
proof -
  have o_in: "o1 \<in> set (objects_of records)" using assms(1) by (force simp: objects_of_def List.map_filter_def)
  obtain m where m: "infer_field (objects_of records) k = Object m" using infer_field_object by blast
  show ?thesis
    by (rule fits_accepts [OF covered_field [OF o_in assms(2)] assms(4,3,1) _ m]) (simp add: assms(2))
qed

lemma column_omitted_nullable:
  assumes "Object o1 \<in> set records" "map_of o1 k = None"
    and "fits d (retype_column dest_props records k (infer_field (objects_of records) k))"
  shows "snd (type_set d)"
proof -
  have o_in: "o1 \<in> set (objects_of records)" using assms(1) by (force simp: objects_of_def List.map_filter_def)
  obtain m where m: "infer_field (objects_of records) k = Object m" using infer_field_object by blast
  from null_field [OF o_in assms(2)]
  have "''null'' \<in> set (collect_types (retype_column dest_props records k (infer_field (objects_of records) k)))"
    by (rule retype_null [OF m])
  with assms(3) show ?thesis by (rule fits_null)
qed

lemma diff_members:
  assumes "(k, t) \<in> set (extract_properties page)"
  shows "classify_column (extract_properties destination) aw k t = Added c \<Longrightarrow> c \<in> set (sd_additions (diff_schema destination page aw))"
    and "classify_column (extract_properties destination) aw k t = Widened c \<Longrightarrow> c \<in> set (sd_widenings (diff_schema destination page aw))"
    and "classify_column (extract_properties destination) aw k t = Clash c \<Longrightarrow> c \<in> set (sd_incompatible (diff_schema destination page aw))"
  using assms by (force simp: diff_schema_def Let_def List.map_filter_def)+

lemma diff_required:
  assumes "map_of (extract_properties destination) k = Some d" "\<not> snd (type_set d)"
    and "k \<notin> fst ` set (extract_properties page)"
  shows "k \<in> set (sd_droppable_required (diff_schema destination page aw))"
  using assms map_of_SomeD [OF assms(1)] by (force simp: diff_schema_def Let_def)

section \<open>Properties\<close>

text \<open>C38. A page without drift can be written as it is: every column of every record exists in the
  destination and its value is accepted there, null only where the column is nullable, and every
  record has a value for every column that is not nullable.\<close>

theorem no_drift_page_fits:
  assumes dest: "Option.bind (value_get ''properties'' destination) as_object = Some dest_props"
    and no: "diff_is_empty (diff_schema destination (infer_page_schema destination records) allow_widening)"
    and o1: "Object o1 \<in> set records"
  shows "(\<forall>k v. map_of o1 k = Some v \<longrightarrow> (\<exists>d. map_of dest_props k = Some d \<and> accepts d v))
    \<and> (\<forall>k d. map_of dest_props k = Some d \<and> \<not> snd (type_set d) \<longrightarrow>
         (\<exists>v. map_of o1 k = Some v \<and> v \<noteq> Null))"
proof -
  let ?objs = "objects_of records" and ?page = "infer_page_schema destination records"
  have dp: "extract_properties destination = dest_props" using dest by (simp add: extract_properties_def)
  have o_in: "o1 \<in> set ?objs" using o1 by (force simp: objects_of_def List.map_filter_def)
  have col: "\<exists>d. map_of dest_props k = Some d \<and> fits d (retype_column dest_props records k (infer_field ?objs k))"
    if "\<exists>r \<in> set ?objs. map_of r k \<noteq> None" for k
  proof -
    note mem = map_of_SomeD [OF page_column [OF dest that]]
    from no diff_members [OF mem, of destination allow_widening]
    have "classify_column dest_props allow_widening k (retype_column dest_props records k (infer_field ?objs k)) = NoDrift"
      by (cases "classify_column dest_props allow_widening k (retype_column dest_props records k (infer_field ?objs k))")
         (auto simp: dp diff_is_empty_def)
    then show ?thesis by (auto simp: classify_column_def Let_def split: option.splits if_splits)
  qed
  show ?thesis
  proof (intro conjI allI impI)
    fix k v assume v: "map_of o1 k = Some v"
    with col o_in obtain d where d: "map_of dest_props k = Some d"
        "fits d (retype_column dest_props records k (infer_field ?objs k))" by (metis option.discI)
    with column_value_accepted [OF o1 v d] show "\<exists>d. map_of dest_props k = Some d \<and> accepts d v" by blast
  next
    fix k d assume d: "map_of dest_props k = Some d \<and> \<not> snd (type_set d)"
    from no d diff_required [of destination k d ?page allow_widening]
    have "k \<in> fst ` set (extract_properties ?page)" by (auto simp: dp diff_is_empty_def)
    with page_column_absent have "\<exists>r \<in> set ?objs. map_of r k \<noteq> None" by blast
    from col [OF this] d have f: "fits d (retype_column dest_props records k (infer_field ?objs k))" by auto
    show "\<exists>v. map_of o1 k = Some v \<and> v \<noteq> Null"
    proof (cases "map_of o1 k")
      case None
      with column_omitted_nullable [OF o1 _ f] d show ?thesis by simp
    next
      case (Some v)
      with column_value_accepted [OF o1 Some _ f] d show ?thesis by (auto simp: accepts_iff)
    qed
  qed
qed

theorem no_drift_page_fits_witness:
  "accepts (Object [(''type'', String ''integer'')]) (Number (PosInt 7))"
proof -
  let ?dest = "Object [(''properties'', Object [(''id'', Object [(''type'', String ''integer'')])])]"
  let ?rs = "[Object [(''id'', Number (PosInt 7))]]"
  have "Option.bind (value_get ''properties'' ?dest) as_object = Some [(''id'', Object [(''type'', String ''integer'')])]"
    by simp
  moreover have "diff_is_empty (diff_schema ?dest (infer_page_schema ?dest ?rs) True)"
    by code_simp
  moreover have "Object [(''id'', Number (PosInt 7))] \<in> set ?rs" by simp
  ultimately have "\<forall>k v. map_of [(''id'', Number (PosInt 7))] k = Some v \<longrightarrow>
      (\<exists>d. map_of [(''id'', Object [(''type'', String ''integer'')])] k = Some d \<and> accepts d v)"
    by (rule no_drift_page_fits [THEN conjunct1])
  from this [rule_format, of "''id''"] show ?thesis by simp
qed

end
