(* ===== verification/Page_Split.thy ===== *)
theory Page_Split
  imports Json_Value
begin

section \<open>Splitting a page of records\<close>

text \<open>
  The contract shared by the governance passes that take records out of a page (quality, contract and
  schema drift): the records that stay keep their order, and every record taken out is reported with
  its position. The pairs of a pass are the removed records with their positions in the page the pass
  was given.
\<close>

type_synonym removed = "(nat \<times> value) list"

definition survivor_positions :: "nat \<Rightarrow> nat set \<Rightarrow> nat list" where
  "survivor_positions n taken = filter (\<lambda>i. i \<notin> taken) [0..<n]"

definition splits_page :: "value list \<Rightarrow> value list \<Rightarrow> removed \<Rightarrow> bool" where
  "splits_page records survivors removed \<longleftrightarrow>
     distinct (map fst removed)
     \<and> (\<forall>(i, r) \<in> set removed. i < length records \<and> records ! i = r)
     \<and> survivors = map ((!) records) (survivor_positions (length records) (set (map fst removed)))"

lemma survivor_positions_bound: "i \<in> set (survivor_positions n taken) \<longleftrightarrow> i < n \<and> i \<notin> taken"
  by (auto simp: survivor_positions_def)

lemma survivor_positions_distinct: "distinct (survivor_positions n taken)"
  by (simp add: survivor_positions_def)

lemma survivor_positions_none [simp]: "survivor_positions n {} = [0..<n]"
  by (simp add: survivor_positions_def)

lemma survivor_positions_Suc:
  "survivor_positions (Suc n) taken = survivor_positions n taken @ (if n \<in> taken then [] else [n])"
  by (simp add: survivor_positions_def)

lemma survivor_positions_beyond:
  assumes "\<forall>i \<in> more. n \<le> i"
  shows "survivor_positions n (taken \<union> more) = survivor_positions n taken"
  unfolding survivor_positions_def using assms by (intro filter_cong) fastforce+

lemma length_survivor_positions:
  assumes "taken \<subseteq> {..<n}"
  shows "length (survivor_positions n taken) + card taken = n"
proof -
  have "length (survivor_positions n taken) = card ({..<n} - taken)"
    by (subst distinct_card [OF survivor_positions_distinct, symmetric])
       (simp add: survivor_positions_def set_diff_eq atLeast0LessThan)
  then show ?thesis
    using assms card_mono [OF finite_lessThan assms] finite_subset [OF assms]
    by (simp add: card_Diff_subset)
qed

lemma nth_map_positions:
  "survivors = map ((!) records) positions \<Longrightarrow> i < length positions \<Longrightarrow> survivors ! i = records ! (positions ! i)"
  by simp

text \<open>The page grows by one record at its end: it stays or is taken out.\<close>

lemma splits_page_Nil [simp]: "splits_page [] [] []"
  by (simp add: splits_page_def)

lemma splits_page_keep:
  assumes "splits_page records survivors removed"
  shows "splits_page (records @ [r]) (survivors @ [r]) removed"
proof -
  have less: "\<forall>i \<in> set (map fst removed). i < length records"
    using assms by (auto simp: splits_page_def)
  have *: "map ((!) (records @ [r])) (survivor_positions (length records) T)
      = map ((!) records) (survivor_positions (length records) T)" for T
    by (auto simp: survivor_positions_bound nth_append)
  from assms less show ?thesis
    unfolding splits_page_def by (auto simp: survivor_positions_Suc nth_append *)
qed

lemma splits_page_take:
  assumes "splits_page records survivors removed"
  shows "splits_page (records @ [r]) survivors (removed @ [(length records, r)])"
proof -
  have less: "\<forall>i \<in> set (map fst removed). i < length records"
    using assms by (auto simp: splits_page_def)
  have *: "map ((!) (records @ [r])) (survivor_positions (length records) T)
      = map ((!) records) (survivor_positions (length records) T)" for T
    by (auto simp: survivor_positions_bound nth_append)
  have beyond: "survivor_positions (length records) (insert (length records) T)
      = survivor_positions (length records) T" for T
    using survivor_positions_beyond [of "{length records}" "length records" T] by simp
  from assms less show ?thesis
    unfolding splits_page_def
    by (auto simp: survivor_positions_Suc nth_append * beyond)
qed

lemma splits_page_counts:
  assumes "splits_page records survivors removed"
  shows "length survivors + length removed = length records"
proof -
  from assms have sub: "set (map fst removed) \<subseteq> {..<length records}"
    by (auto simp: splits_page_def)
  from assms have "card (set (map fst removed)) = length removed"
    by (metis distinct_card length_map splits_page_def)
  with assms length_survivor_positions [OF sub] show ?thesis by (simp add: splits_page_def)
qed

lemma splits_page_mset:
  assumes "splits_page records survivors removed"
  shows "set records = set survivors \<union> set (map snd removed)"
proof (rule set_eqI)
  fix r
  have "r \<in> set records \<longleftrightarrow> (\<exists>i < length records. records ! i = r)" by (simp add: in_set_conv_nth)
  also have "\<dots> \<longleftrightarrow> r \<in> set survivors \<union> set (map snd removed)"
  proof
    assume "\<exists>i < length records. records ! i = r"
    then obtain i where i: "i < length records" "records ! i = r" by blast
    show "r \<in> set survivors \<union> set (map snd removed)"
    proof (cases "i \<in> set (map fst removed)")
      case True
      then obtain r' where "(i, r') \<in> set removed" by auto
      moreover from this assms i have "r' = r" by (auto simp: splits_page_def)
      ultimately show ?thesis by force
    next
      case False
      with i assms show ?thesis by (auto simp: splits_page_def survivor_positions_bound image_iff)
    qed
  next
    assume "r \<in> set survivors \<union> set (map snd removed)"
    with assms show "\<exists>i < length records. records ! i = r"
      by (fastforce simp: splits_page_def survivor_positions_bound)
  qed
  finally show "r \<in> set records \<longleftrightarrow> r \<in> set survivors \<union> set (map snd removed)" .
qed

text \<open>
  Two passes in a row: the positions of the second are positions among the survivors of the first and
  are translated through the survivors' own positions, as the engine does.
\<close>

lemma splits_page_compose:
  assumes first: "splits_page records survivors removed"
    and second: "splits_page survivors survivors' removed'"
    and pos: "positions = survivor_positions (length records) (set (map fst removed))"
  shows "splits_page records survivors' (removed @ map (\<lambda>(i, r). (positions ! i, r)) removed')"
    and "survivor_positions (length records)
           (set (map fst (removed @ map (\<lambda>(i, r). (positions ! i, r)) removed')))
         = map ((!) positions) (survivor_positions (length positions) (set (map fst removed')))"
proof -
  have sv: "survivors = map ((!) records) positions" using first pos by (simp add: splits_page_def)
  have dp: "distinct positions" by (simp add: pos survivor_positions_distinct)
  have inp: "i \<in> set positions \<longleftrightarrow> i < length records \<and> i \<notin> set (map fst removed)" for i
    by (simp add: pos survivor_positions_bound)
  have less': "\<forall>(i, r) \<in> set removed'. i < length positions \<and> records ! (positions ! i) = r"
    using second by (auto simp: splits_page_def sv)
  let ?new = "map (\<lambda>(i, r). (positions ! i, r)) removed'"
  have fst_new: "map fst ?new = map ((!) positions) (map fst removed')" by (simp add: case_prod_unfold)
  have "inj_on ((!) positions) (set (map fst removed'))"
    using less' dp by (intro inj_on_nth) auto
  then have d1: "distinct (map fst ?new)"
    using second unfolding fst_new splits_page_def distinct_map [of "(!) positions"] by blast
  have d2: "set (map fst removed) \<inter> set (map fst ?new) = {}"
  proof -
    have "set (map fst ?new) \<subseteq> set positions" using less' unfolding fst_new by auto
    then show ?thesis using inp by blast
  qed
  show eq: "survivor_positions (length records) (set (map fst (removed @ ?new)))
      = map ((!) positions) (survivor_positions (length positions) (set (map fst removed')))"
  proof -
    have "survivor_positions (length records) (set (map fst (removed @ ?new)))
        = filter (\<lambda>i. i \<notin> set (map fst ?new)) positions"
      unfolding pos survivor_positions_def filter_filter
      by (rule filter_cong) auto
    also have "\<dots> = filter (\<lambda>i. i \<notin> set (map fst ?new)) (map ((!) positions) [0..<length positions])"
      by (simp add: map_nth)
    also have "\<dots> = map ((!) positions) (filter (\<lambda>j. positions ! j \<notin> set (map fst ?new)) [0..<length positions])"
      by (simp add: filter_map o_def)
    also have "filter (\<lambda>j. positions ! j \<notin> set (map fst ?new)) [0..<length positions]
        = survivor_positions (length positions) (set (map fst removed'))"
      unfolding survivor_positions_def fst_new
    proof (rule filter_cong)
      fix j assume "j \<in> set [0..<length positions]"
      then show "(positions ! j \<notin> set (map ((!) positions) (map fst removed'))) \<longleftrightarrow> j \<notin> set (map fst removed')"
        using less' dp by (force simp: nth_eq_iff_index_eq)
    qed simp
    finally show ?thesis .
  qed
  show "splits_page records survivors' (removed @ ?new)"
    unfolding splits_page_def eq
  proof (intro conjI)
    show "distinct (map fst (removed @ ?new))"
      using first d1 d2 by (simp only: splits_page_def map_append distinct_append)
    show "\<forall>(i, r) \<in> set (removed @ ?new). i < length records \<and> records ! i = r"
      using first less' inp by (auto simp: splits_page_def dest!: nth_mem)
    show "survivors' = map ((!) records)
        (map ((!) positions) (survivor_positions (length positions) (set (map fst removed'))))"
      using second by (auto simp: splits_page_def sv survivor_positions_bound)
  qed
qed

section \<open>The interface of a pass\<close>

text \<open>
  A pass over a page either fails or splits it. The accounting of the engine and the positions in the
  envelopes rest on these laws alone.
\<close>

locale page_pass =
  fixes run :: "value list \<Rightarrow> ('e, 'r) result"
    and survivors_of :: "'r \<Rightarrow> value list"
    and removed_of :: "'r \<Rightarrow> removed"
  assumes splits: "run records = Ok out \<Longrightarrow> splits_page records (survivors_of out) (removed_of out)"
begin

lemma rows_accounted:
  "run records = Ok out \<Longrightarrow> length (survivors_of out) + length (removed_of out) = length records"
  by (rule splits_page_counts [OF splits])

lemma no_row_lost:
  "run records = Ok out \<Longrightarrow> set records = set (survivors_of out) \<union> set (map snd (removed_of out))"
  by (rule splits_page_mset [OF splits])

lemma empty_page: "run [] = Ok out \<Longrightarrow> survivors_of out = [] \<and> removed_of out = []"
  using rows_accounted [of "[]"] by simp

end

end
