(* ===== verification/Contract.thy ===== *)
theory Contract
  imports Page_Split Faucet_Error Float64
begin

section \<open>Data contracts\<close>

text \<open>
  The contract pass (\<open>contract/compile.rs\<close>, \<open>contract/mod.rs\<close>): compiling a declared contract,
  evaluating a record against it, and splitting a page by it. The regular expressions and the texts of
  a float and of a JSON value belong to libraries and are parameters.
\<close>

datatype on_breach = BreachFail | BreachQuarantine | BreachWarn

datatype contract_field_type = CString | CInteger | CNumber | CBoolean | CObject | CArray

fun field_type_display :: "contract_field_type \<Rightarrow> string" where
  "field_type_display CString = ''string''"
| "field_type_display CInteger = ''integer''"
| "field_type_display CNumber = ''number''"
| "field_type_display CBoolean = ''boolean''"
| "field_type_display CObject = ''object''"
| "field_type_display CArray = ''array''"

record field_contract =
  fc_name :: string
  fc_type :: contract_field_type
  fc_required :: bool
  fc_nullable :: bool
  fc_allowed_values :: "value list option"
  fc_pattern :: "string option"
  fc_min :: "float64 option"
  fc_max :: "float64 option"
  fc_min_length :: "nat option"
  fc_max_length :: "nat option"

record contract_spec =
  cs_version :: string
  cs_on_breach :: on_breach
  cs_allow_extra_fields :: bool
  cs_fields :: "field_contract list"

text \<open>The libraries: regular expressions by their source text, and the texts of values.\<close>

record contract_libs =
  lib_regex_new :: "string \<Rightarrow> (string, unit) result"
  lib_is_match :: "string \<Rightarrow> string \<Rightarrow> bool"
  lib_show_f64 :: "float64 \<Rightarrow> string"
  lib_show_value :: "value \<Rightarrow> string"

subsection \<open>Numbers and values\<close>

fun number_as_i64 :: "number \<Rightarrow> int option" where
  "number_as_i64 (PosInt n) = (if uint n < 2 ^ 63 then Some (uint n) else None)"
| "number_as_i64 (NegInt i) = Some i"
| "number_as_i64 (Float _) = None"

fun number_as_u64 :: "number \<Rightarrow> u64 option" where
  "number_as_u64 (PosInt n) = Some n"
| "number_as_u64 _ = None"

definition f64_value :: "f64 \<Rightarrow> rat" where
  "f64_value f = (if f64_neg f then - f64_mag f else f64_mag f)"

fun number_as_f64 :: "number \<Rightarrow> rat" where
  "number_as_f64 (PosInt n) = f64_round (of_int (uint n))"
| "number_as_f64 (NegInt i) = f64_round (of_int i)"
| "number_as_f64 (Float f) = f64_value f"

text \<open>
  Equality of JSON values: numbers of one representation by value (so the two zeros are equal), objects
  without regard to the order of their keys.
\<close>

fun number_eq :: "number \<Rightarrow> number \<Rightarrow> bool" where
  "number_eq (PosInt a) (PosInt b) = (a = b)"
| "number_eq (NegInt a) (NegInt b) = (a = b)"
| "number_eq (Float a) (Float b) = (f64_value a = f64_value b)"
| "number_eq _ _ = False"

function value_eq :: "value \<Rightarrow> value \<Rightarrow> bool" where
  "value_eq Null v = (v = Null)"
| "value_eq (Bool a) v = (v = Bool a)"
| "value_eq (Number a) v = (case v of Number b \<Rightarrow> number_eq a b | _ \<Rightarrow> False)"
| "value_eq (String a) v = (v = String a)"
| "value_eq (Array xs) v =
     (case v of Array ys \<Rightarrow> length xs = length ys \<and> (\<forall>(x, y) \<in> set (zip xs ys). value_eq x y) | _ \<Rightarrow> False)"
| "value_eq (Object m) v =
     (case v of
        Object m' \<Rightarrow> length m = length m'
          \<and> (\<forall>(k, x) \<in> set m. case map_of m' k of None \<Rightarrow> False | Some y \<Rightarrow> value_eq x y)
      | _ \<Rightarrow> False)"
  by pat_completeness auto
termination
  by (relation "measure (size \<circ> fst)")
     (auto dest!: set_zip_leftD simp: less_Suc_eq_le size_list_estimation' dest: size_list_estimation' [where f = size])

definition is_integral :: "rat \<Rightarrow> bool" where
  "is_integral x \<longleftrightarrow> of_int \<lfloor>x\<rfloor> = x"

definition type_matches :: "value \<Rightarrow> contract_field_type \<Rightarrow> bool" where
  "type_matches v t =
     (case t of
        CString \<Rightarrow> is_string v
      | CInteger \<Rightarrow>
          (case v of
             Number n \<Rightarrow> number_as_i64 n \<noteq> None \<or> number_as_u64 n \<noteq> None \<or> is_integral (number_as_f64 n)
           | _ \<Rightarrow> False)
      | CNumber \<Rightarrow> (case v of Number _ \<Rightarrow> True | _ \<Rightarrow> False)
      | CBoolean \<Rightarrow> as_bool v \<noteq> None
      | CObject \<Rightarrow> as_object v \<noteq> None
      | CArray \<Rightarrow> as_array v \<noteq> None)"

fun json_type_name :: "value \<Rightarrow> string" where
  "json_type_name Null = ''null''"
| "json_type_name (Bool _) = ''boolean''"
| "json_type_name (Number _) = ''number''"
| "json_type_name (String _) = ''string''"
| "json_type_name (Array _) = ''array''"
| "json_type_name (Object _) = ''object''"

datatype ordering = OrdLess | OrdEqual | OrdGreater

definition cmp_of :: "'a::linorder \<Rightarrow> 'a \<Rightarrow> ordering" where
  "cmp_of x y = (if x < y then OrdLess else if x = y then OrdEqual else OrdGreater)"

definition cmp_int_to_f64 :: "int \<Rightarrow> float64 \<Rightarrow> ordering option" where
  "cmp_int_to_f64 i bound =
     (case bound of
        FNaN \<Rightarrow> None
      | FInf neg \<Rightarrow> Some (if neg then OrdGreater else OrdLess)
      | Fin b \<Rightarrow>
          if 10 ^ 20 \<le> \<lfloor>b\<rfloor> then Some OrdLess
          else if \<lfloor>b\<rfloor> \<le> - (10 ^ 20) then Some OrdGreater
          else (case cmp_of i \<lfloor>b\<rfloor> of
                  OrdEqual \<Rightarrow> Some (if of_int \<lfloor>b\<rfloor> < b then OrdLess else OrdEqual)
                | c \<Rightarrow> Some c))"

definition cmp_number_to_bound :: "number \<Rightarrow> float64 \<Rightarrow> ordering option" where
  "cmp_number_to_bound n bound =
     (case (case number_as_i64 n of Some i \<Rightarrow> Some i | None \<Rightarrow> map_option uint (number_as_u64 n)) of
        Some i \<Rightarrow> cmp_int_to_f64 i bound
      | None \<Rightarrow>
          (case bound of
             FNaN \<Rightarrow> None
           | FInf neg \<Rightarrow> Some (if neg then OrdGreater else OrdLess)
           | Fin b \<Rightarrow> Some (cmp_of (number_as_f64 n) b)))"

definition enum_contains :: "value list \<Rightarrow> value \<Rightarrow> bool" where
  "enum_contains allowed v =
     (\<exists>a \<in> set allowed.
        case (a, v) of
          (Number x, Number y) \<Rightarrow>
            (case (number_as_i64 x, number_as_i64 y) of
               (Some i, Some j) \<Rightarrow> i = j
             | _ \<Rightarrow>
                 (case (number_as_u64 x, number_as_u64 y) of
                    (Some i, Some j) \<Rightarrow> i = j
                  | _ \<Rightarrow> number_as_f64 x = number_as_f64 y))
        | _ \<Rightarrow> value_eq a v)"

text \<open>The characters of a UTF-8 text: the bytes that do not continue a character.\<close>

definition char_count :: "string \<Rightarrow> nat" where
  "char_count s = length (filter (\<lambda>c. \<not> (128 \<le> ascii c \<and> ascii c < (192::nat))) s)"

subsection \<open>Compilation\<close>

record compiled_contract =
  cc_version :: string
  cc_on_breach :: on_breach
  cc_allow_extra_fields :: bool
  cc_fields :: "field_contract list"
  cc_declared :: "string list"

definition contract_err :: "string \<Rightarrow> faucet_error" where
  "contract_err msg = Config (''contract: '' @ msg)"

definition quoted :: "string \<Rightarrow> string" where
  "quoted s = [CHR 0x27] @ s @ [CHR 0x27]"

definition field_err :: "field_contract \<Rightarrow> string \<Rightarrow> (faucet_error, 'a) result" where
  "field_err f msg = Err (contract_err (''field '' @ quoted (fc_name f) @ '': '' @ msg))"

definition both_above :: "('a \<Rightarrow> 'a \<Rightarrow> bool) \<Rightarrow> 'a option \<Rightarrow> 'a option \<Rightarrow> bool" where
  "both_above lt lo hi = (case (lo, hi) of (Some a, Some b) \<Rightarrow> lt b a | _ \<Rightarrow> False)"

text \<open>The members of an \<open>enum\<close>, checked in order.\<close>

fun compile_enum :: "contract_libs \<Rightarrow> field_contract \<Rightarrow> value list \<Rightarrow> (faucet_error, unit) result" where
  "compile_enum libs f [] = Ok ()"
| "compile_enum libs f (v # vs) =
     (if v = Null then field_err f (''`enum` must not contain null '' @ map char_of [226::nat, 128, 148] @ '' use `nullable: true`'')
      else if \<not> type_matches v (fc_type f)
      then field_err f (''enum value '' @ lib_show_value libs v @ '' does not match declared type ''
             @ field_type_display (fc_type f))
      else compile_enum libs f vs)"

definition compile_field :: "contract_libs \<Rightarrow> field_contract \<Rightarrow> (faucet_error, field_contract) result" where
  "compile_field libs f =
     (let is_str = fc_type f = CString; is_numeric = fc_type f \<in> {CInteger, CNumber};
          shown = field_type_display (fc_type f)
      in case (case fc_pattern f of
                 None \<Rightarrow> Ok ()
               | Some p \<Rightarrow>
                   if \<not> is_str then field_err f (''`pattern` applies only to string fields, not '' @ shown)
                   else (case lib_regex_new libs p of
                           Ok _ \<Rightarrow> Ok ()
                         | Err e \<Rightarrow> field_err f (''invalid pattern '' @ quoted p @ '': '' @ e))) of
           Err e \<Rightarrow> Err e
         | Ok _ \<Rightarrow>
             if (fc_min f \<noteq> None \<or> fc_max f \<noteq> None) \<and> \<not> is_numeric
             then field_err f (''`min`/`max` apply only to integer/number fields, not '' @ shown)
             else if both_above f_less (fc_min f) (fc_max f)
             then field_err f ''`min` must be <= `max`''
             else if (fc_min_length f \<noteq> None \<or> fc_max_length f \<noteq> None) \<and> \<not> is_str
             then field_err f (''`min_length`/`max_length` apply only to string fields, not '' @ shown)
             else if both_above (<) (fc_min_length f) (fc_max_length f)
             then field_err f ''`min_length` must be <= `max_length`''
             else (case fc_allowed_values f of
                     None \<Rightarrow> Ok f
                   | Some values \<Rightarrow>
                       if values = [] then field_err f ''`enum` must be non-empty''
                       else (case compile_enum libs f values of Err e \<Rightarrow> Err e | Ok _ \<Rightarrow> Ok f)))"

fun compile_fields ::
    "contract_libs \<Rightarrow> string list \<Rightarrow> field_contract list
     \<Rightarrow> (faucet_error, field_contract list \<times> string list) result" where
  "compile_fields libs declared [] = Ok ([], declared)"
| "compile_fields libs declared (f # fs) =
     (if trim (fc_name f) = [] then Err (contract_err ''field names must be non-empty'')
      else if fc_name f \<in> set declared then Err (contract_err (''duplicate field '' @ quoted (fc_name f)))
      else (case compile_field libs f of
              Err e \<Rightarrow> Err e
            | Ok f' \<Rightarrow>
                (case compile_fields libs (declared @ [fc_name f]) fs of
                   Err e \<Rightarrow> Err e
                 | Ok (fs', declared') \<Rightarrow> Ok (f' # fs', declared'))))"

definition CompiledContract_compile :: "contract_libs \<Rightarrow> contract_spec \<Rightarrow> (faucet_error, compiled_contract) result" where
  "CompiledContract_compile libs spec =
     (if trim (cs_version spec) = [] then Err (contract_err ''`version` must be non-empty'')
      else if cs_fields spec = [] then Err (contract_err ''`fields` must be non-empty'')
      else (case compile_fields libs [] (cs_fields spec) of
              Err e \<Rightarrow> Err e
            | Ok (fs, declared) \<Rightarrow>
                Ok \<lparr> cc_version = cs_version spec, cc_on_breach = cs_on_breach spec,
                     cc_allow_extra_fields = cs_allow_extra_fields spec, cc_fields = fs, cc_declared = declared \<rparr>))"

definition contract_requires_dlq :: "compiled_contract \<Rightarrow> bool" where
  "contract_requires_dlq c = (cc_on_breach c = BreachQuarantine)"

subsection \<open>Evaluation\<close>

record contract_violation =
  cv_rule :: string
  cv_field :: "string option"
  cv_message :: string
  cv_page_index :: nat

definition describe :: "contract_violation \<Rightarrow> string" where
  "describe v =
     (case cv_field v of
        Some f \<Rightarrow> ''field '' @ quoted f @ '': '' @ cv_message v @ '' ('' @ cv_rule v @ '')''
      | None \<Rightarrow> cv_message v @ '' ('' @ cv_rule v @ '')'')"

definition violation :: "nat \<Rightarrow> string \<Rightarrow> string option \<Rightarrow> string \<Rightarrow> contract_violation" where
  "violation page_index rule field message =
     \<lparr> cv_rule = rule, cv_field = field, cv_message = message, cv_page_index = page_index \<rparr>"

text \<open>The range and length checks of one value, in the order of the code.\<close>

definition range_breach :: "contract_libs \<Rightarrow> field_contract \<Rightarrow> value \<Rightarrow> string option" where
  "range_breach libs f v =
     (case v of
        Number n \<Rightarrow>
          (case fc_min f of
             Some lo \<Rightarrow>
               if cmp_number_to_bound n lo = Some OrdLess
               then Some (''value is below the minimum '' @ lib_show_f64 libs lo)
               else (case fc_max f of
                       Some hi \<Rightarrow> if cmp_number_to_bound n hi = Some OrdGreater
                                  then Some (''value is above the maximum '' @ lib_show_f64 libs hi) else None
                     | None \<Rightarrow> None)
           | None \<Rightarrow>
               (case fc_max f of
                  Some hi \<Rightarrow> if cmp_number_to_bound n hi = Some OrdGreater
                             then Some (''value is above the maximum '' @ lib_show_f64 libs hi) else None
                | None \<Rightarrow> None))
      | _ \<Rightarrow> None)"

definition length_breach :: "field_contract \<Rightarrow> value \<Rightarrow> string option" where
  "length_breach f v =
     (let len = (case as_str v of Some s \<Rightarrow> char_count s | None \<Rightarrow> 0) in
      case fc_min_length f of
        Some lo \<Rightarrow>
          if len < lo then Some (''string length '' @ show_nat len @ '' is below the minimum '' @ show_nat lo)
          else (case fc_max_length f of
                  Some hi \<Rightarrow> if hi < len then Some (''string length '' @ show_nat len @ '' is above the maximum '' @ show_nat hi) else None
                | None \<Rightarrow> None)
      | None \<Rightarrow>
          (case fc_max_length f of
             Some hi \<Rightarrow> if hi < len then Some (''string length '' @ show_nat len @ '' is above the maximum '' @ show_nat hi) else None
           | None \<Rightarrow> None))"

definition evaluate_field ::
    "contract_libs \<Rightarrow> nat \<Rightarrow> json_object \<Rightarrow> field_contract \<Rightarrow> contract_violation option" where
  "evaluate_field libs page_index obj f =
     (let breach = (\<lambda>rule message. Some (violation page_index rule (Some (fc_name f)) message)) in
      case map_of obj (fc_name f) of
        None \<Rightarrow> if fc_required f then breach ''missing'' ''required field is missing'' else None
      | Some v \<Rightarrow>
          if v = Null then (if fc_nullable f then None else breach ''null'' ''field is null but not nullable'')
          else if \<not> type_matches v (fc_type f)
          then breach ''type'' (''expected '' @ field_type_display (fc_type f) @ '', got '' @ json_type_name v)
          else if (case fc_allowed_values f of Some vs \<Rightarrow> \<not> enum_contains vs v | None \<Rightarrow> False)
          then breach ''enum'' ''value is not in the allowed set''
          else if (case fc_pattern f of
                     Some re \<Rightarrow> \<not> lib_is_match libs re (case as_str v of Some s \<Rightarrow> s | None \<Rightarrow> [])
                   | None \<Rightarrow> False)
          then breach ''pattern'' (''value does not match pattern '' @ quoted (the (fc_pattern f)))
          else (case range_breach libs f v of
                  Some msg \<Rightarrow> breach ''range'' msg
                | None \<Rightarrow> (case length_breach f v of Some msg \<Rightarrow> breach ''length'' msg | None \<Rightarrow> None)))"

fun evaluate_fields ::
    "contract_libs \<Rightarrow> nat \<Rightarrow> json_object \<Rightarrow> field_contract list \<Rightarrow> contract_violation option" where
  "evaluate_fields libs page_index obj [] = None"
| "evaluate_fields libs page_index obj (f # fs) =
     (case evaluate_field libs page_index obj f of
        Some v \<Rightarrow> Some v
      | None \<Rightarrow> evaluate_fields libs page_index obj fs)"

definition evaluate_record :: "contract_libs \<Rightarrow> value \<Rightarrow> compiled_contract \<Rightarrow> nat \<Rightarrow> contract_violation option" where
  "evaluate_record libs rec contract page_index =
     (case as_object rec of
        None \<Rightarrow> Some (violation page_index ''not_object'' None
                  (''record is not a JSON object (got '' @ json_type_name rec @ '')''))
      | Some obj \<Rightarrow>
          (case evaluate_fields libs page_index obj (cc_fields contract) of
             Some v \<Rightarrow> Some v
           | None \<Rightarrow>
               if cc_allow_extra_fields contract then None
               else map_option
                 (\<lambda>key. violation page_index ''extra_field'' (Some key)
                          ''field is not declared in the contract and allow_extra_fields is false'')
                 (find (\<lambda>key. key \<notin> set (cc_declared contract)) (map fst obj))))"

record contract_outcome =
  co_survivors :: "value list"
  co_quarantined :: "(value \<times> contract_violation) list"
  co_warned :: "contract_violation list"

fun contract_loop ::
    "contract_libs \<Rightarrow> compiled_contract \<Rightarrow> nat \<Rightarrow> contract_outcome \<Rightarrow> value list
     \<Rightarrow> (faucet_error, contract_outcome) result" where
  "contract_loop libs contract page_index out [] = Ok out"
| "contract_loop libs contract page_index out (rec # records) =
     (case evaluate_record libs rec contract page_index of
        None \<Rightarrow> contract_loop libs contract (Suc page_index) (out \<lparr> co_survivors := co_survivors out @ [rec] \<rparr>) records
      | Some v \<Rightarrow>
          (case cc_on_breach contract of
             BreachFail \<Rightarrow> Err (ContractViolation (cc_version contract) (describe v))
           | BreachQuarantine \<Rightarrow>
               contract_loop libs contract (Suc page_index)
                 (out \<lparr> co_quarantined := co_quarantined out @ [(rec, v)] \<rparr>) records
           | BreachWarn \<Rightarrow>
               contract_loop libs contract (Suc page_index)
                 (out \<lparr> co_warned := co_warned out @ [v], co_survivors := co_survivors out @ [rec] \<rparr>) records))"

definition apply_contract ::
    "contract_libs \<Rightarrow> value list \<Rightarrow> compiled_contract \<Rightarrow> (faucet_error, contract_outcome) result" where
  "apply_contract libs records contract =
     contract_loop libs contract 0 \<lparr> co_survivors = [], co_quarantined = [], co_warned = [] \<rparr> records"

section \<open>Lemmas\<close>

text \<open>The exact value of a number, and what a record promises.\<close>

fun number_value :: "number \<Rightarrow> rat" where
  "number_value (PosInt n) = of_int (uint n)"
| "number_value (NegInt i) = of_int i"
| "number_value (Float f) = f64_value f"

fun at_least :: "float64 \<Rightarrow> rat \<Rightarrow> bool" where
  "at_least FNaN x = True"
| "at_least (FInf neg) x = neg"
| "at_least (Fin lo) x = (lo \<le> x)"

fun at_most :: "float64 \<Rightarrow> rat \<Rightarrow> bool" where
  "at_most FNaN x = True"
| "at_most (FInf neg) x = (\<not> neg)"
| "at_most (Fin hi) x = (x \<le> hi)"

definition value_conforms :: "contract_libs \<Rightarrow> field_contract \<Rightarrow> value \<Rightarrow> bool" where
  "value_conforms libs f v \<longleftrightarrow>
     type_matches v (fc_type f)
     \<and> (\<forall>vs. fc_allowed_values f = Some vs \<longrightarrow> enum_contains vs v)
     \<and> (\<forall>n. v = Number n \<longrightarrow>
          (\<forall>lo. fc_min f = Some lo \<longrightarrow> at_least lo (number_value n))
          \<and> (\<forall>hi. fc_max f = Some hi \<longrightarrow> at_most hi (number_value n)))
     \<and> (\<forall>s. v = String s \<longrightarrow>
          (\<forall>p. fc_pattern f = Some p \<longrightarrow> lib_is_match libs p s)
          \<and> (\<forall>lo. fc_min_length f = Some lo \<longrightarrow> lo \<le> char_count s)
          \<and> (\<forall>hi. fc_max_length f = Some hi \<longrightarrow> char_count s \<le> hi))"

definition field_conforms :: "contract_libs \<Rightarrow> json_object \<Rightarrow> field_contract \<Rightarrow> bool" where
  "field_conforms libs obj f \<longleftrightarrow>
     (case map_of obj (fc_name f) of
        None \<Rightarrow> \<not> fc_required f
      | Some v \<Rightarrow> if v = Null then fc_nullable f else value_conforms libs f v)"

definition conforms :: "contract_libs \<Rightarrow> contract_spec \<Rightarrow> value \<Rightarrow> bool" where
  "conforms libs spec rec \<longleftrightarrow>
     (\<exists>obj. rec = Object obj
        \<and> (\<forall>f \<in> set (cs_fields spec). field_conforms libs obj f)
        \<and> (cs_allow_extra_fields spec \<or> (\<forall>k \<in> set (map fst obj). \<exists>f \<in> set (cs_fields spec). fc_name f = k)))"

subsection \<open>Exact comparison with a bound\<close>

lemma floor_cmp:
  assumes "\<bar>i\<bar> < 10 ^ 20"
  shows "cmp_int_to_f64 i (Fin b) = Some (cmp_of (of_int i) b)"
proof -
  have "of_int i < b \<longleftrightarrow> i < \<lfloor>b\<rfloor> \<or> i = \<lfloor>b\<rfloor> \<and> of_int \<lfloor>b\<rfloor> < b"
    using floor_correct [of b] by linarith
  moreover have "of_int i = b \<longleftrightarrow> i = \<lfloor>b\<rfloor> \<and> \<not> of_int \<lfloor>b\<rfloor> < b"
  proof
    assume "of_int i = b"
    then show "i = \<lfloor>b\<rfloor> \<and> \<not> of_int \<lfloor>b\<rfloor> < b" by auto
  next
    assume "i = \<lfloor>b\<rfloor> \<and> \<not> of_int \<lfloor>b\<rfloor> < b"
    then show "of_int i = b" using of_int_floor_le [of b] by simp
  qed
  ultimately show ?thesis using assms by (auto simp: cmp_int_to_f64_def cmp_of_def)
qed

lemma cmp_number_exact:
  assumes "wf_value (Number n)"
  shows "cmp_number_to_bound n (Fin b) = Some (cmp_of (number_value n) b)"
proof (cases n)
  case (PosInt w)
  have "\<bar>uint w\<bar> < 10 ^ 20" using uint_lt2p [of w] by simp
  with PosInt show ?thesis by (simp add: cmp_number_to_bound_def floor_cmp)
next
  case (NegInt i)
  with assms have "\<bar>i\<bar> < 10 ^ 20" by simp
  with NegInt show ?thesis by (simp add: cmp_number_to_bound_def floor_cmp)
qed (simp add: cmp_number_to_bound_def)

lemma cmp_number_special:
  "cmp_number_to_bound n FNaN = None"
  "cmp_number_to_bound n (FInf neg) = Some (if neg then OrdGreater else OrdLess)"
  by (cases n; simp add: cmp_number_to_bound_def cmp_int_to_f64_def)+

lemma cmp_of_simps [simp]:
  "cmp_of x y = OrdLess \<longleftrightarrow> x < y" "cmp_of x y = OrdGreater \<longleftrightarrow> y < x" "cmp_of x y = OrdEqual \<longleftrightarrow> x = y"
  by (auto simp: cmp_of_def)

lemma cmp_less_iff: "wf_value (Number n) \<Longrightarrow> cmp_number_to_bound n lo = Some OrdLess \<longleftrightarrow> \<not> at_least lo (number_value n)"
  by (cases lo) (auto simp: cmp_number_exact cmp_number_special)

lemma cmp_greater_iff: "wf_value (Number n) \<Longrightarrow> cmp_number_to_bound n hi = Some OrdGreater \<longleftrightarrow> \<not> at_most hi (number_value n)"
  by (cases hi) (auto simp: cmp_number_exact cmp_number_special)

lemma range_breach_None:
  assumes "wf_value v"
  shows "range_breach libs f v = None \<longleftrightarrow>
    (\<forall>n. v = Number n \<longrightarrow>
       (\<forall>lo. fc_min f = Some lo \<longrightarrow> at_least lo (number_value n))
       \<and> (\<forall>hi. fc_max f = Some hi \<longrightarrow> at_most hi (number_value n)))"
  using assms
  by (cases v; cases "fc_min f"; cases "fc_max f") (simp_all add: range_breach_def cmp_less_iff cmp_greater_iff)

lemma length_breach_None:
  "length_breach f (String s) = None \<longleftrightarrow>
     (\<forall>lo. fc_min_length f = Some lo \<longrightarrow> lo \<le> char_count s)
     \<and> (\<forall>hi. fc_max_length f = Some hi \<longrightarrow> char_count s \<le> hi)"
  by (cases "fc_min_length f"; cases "fc_max_length f") (simp_all add: length_breach_def Let_def not_less)

subsection \<open>What compilation guarantees\<close>

lemma compile_field_id: "compile_field libs f = Ok f' \<Longrightarrow> f' = f"
  by (auto simp: compile_field_def field_err_def Let_def split: option.splits sum.splits if_splits)

lemma compile_field_string:
  assumes "compile_field libs f = Ok f'" "fc_type f \<noteq> CString"
  shows "fc_pattern f = None \<and> fc_min_length f = None \<and> fc_max_length f = None"
  using assms by (auto simp: compile_field_def field_err_def Let_def split: option.splits sum.splits if_splits)

lemma compile_fields_ok:
  "compile_fields libs declared fs = Ok (fs', declared') \<Longrightarrow>
     fs' = fs \<and> declared' = declared @ map fc_name fs \<and> (\<forall>f \<in> set fs. compile_field libs f = Ok f)"
proof (induction fs arbitrary: declared fs' declared')
  case (Cons f fs)
  from Cons.prems obtain f' fs1 where f: "compile_field libs f = Ok f'"
    and rest: "compile_fields libs (declared @ [fc_name f]) fs = Ok (fs1, declared')" "fs' = f' # fs1"
    by (auto split: sum.splits if_splits)
  from compile_field_id [OF f] f Cons.IH [OF rest(1)] rest(2) show ?case by auto
qed simp

lemma compile_ok:
  assumes "CompiledContract_compile libs spec = Ok c"
  shows "cc_fields c = cs_fields spec" "cc_declared c = map fc_name (cs_fields spec)"
    "cc_allow_extra_fields c = cs_allow_extra_fields spec" "cc_on_breach c = cs_on_breach spec"
    "cc_version c = cs_version spec" "\<forall>f \<in> set (cs_fields spec). compile_field libs f = Ok f"
  using assms compile_fields_ok [of libs "[]" "cs_fields spec"]
  by (auto simp: CompiledContract_compile_def split: sum.splits if_splits)

subsection \<open>Evaluation of a record\<close>

lemma type_matches_string: "type_matches v CString \<Longrightarrow> \<exists>s. v = String s"
  by (cases v) (auto simp: type_matches_def)

lemma length_breach_unbounded:
  "fc_min_length f = None \<Longrightarrow> fc_max_length f = None \<Longrightarrow> length_breach f v = None"
  by (simp add: length_breach_def)

lemma evaluate_field_value:
  assumes "map_of obj (fc_name f) = Some v" "v \<noteq> Null" "type_matches v (fc_type f)"
  shows "evaluate_field libs i obj f = None \<longleftrightarrow>
    (\<forall>vs. fc_allowed_values f = Some vs \<longrightarrow> enum_contains vs v)
    \<and> (\<forall>p. fc_pattern f = Some p \<longrightarrow> lib_is_match libs p (case as_str v of Some s \<Rightarrow> s | None \<Rightarrow> []))
    \<and> range_breach libs f v = None \<and> length_breach f v = None"
  using assms by (simp add: evaluate_field_def Let_def split: option.splits)

lemma evaluate_field_None:
  assumes "compile_field libs f = Ok f" "\<forall>v. map_of obj (fc_name f) = Some v \<longrightarrow> wf_value v"
  shows "evaluate_field libs i obj f = None \<longleftrightarrow> field_conforms libs obj f"
proof (cases "map_of obj (fc_name f)")
  case (Some v)
  show ?thesis
  proof (cases "v = Null \<or> \<not> type_matches v (fc_type f)")
    case False
    then have v: "v \<noteq> Null" "type_matches v (fc_type f)" by auto
    have wf: "wf_value v" using assms(2) Some by blast
    have "evaluate_field libs i obj f = None \<longleftrightarrow> value_conforms libs f v"
    proof (cases "fc_type f = CString")
      case True
      with v obtain s where s: "v = String s" using type_matches_string by auto
      show ?thesis
        unfolding evaluate_field_value [OF Some v] range_breach_None [OF wf] unfolding s value_conforms_def length_breach_None
        using v(2) by (auto simp: s)
    next
      case False
      note none = compile_field_string [OF assms(1) False]
      from none have "length_breach f v = None" by (simp add: length_breach_unbounded)
      with none show ?thesis
        unfolding evaluate_field_value [OF Some v] range_breach_None [OF wf] value_conforms_def using v(2) by auto
    qed
    with Some v show ?thesis by (simp add: field_conforms_def)
  qed (use Some in \<open>auto simp: evaluate_field_def field_conforms_def value_conforms_def Let_def\<close>)
qed (simp add: evaluate_field_def field_conforms_def)

lemma evaluate_fields_None:
  "evaluate_fields libs i obj fs = None \<longleftrightarrow> (\<forall>f \<in> set fs. evaluate_field libs i obj f = None)"
  by (induction fs) (auto split: option.splits)

lemma evaluate_record_correct:
  assumes c: "CompiledContract_compile libs spec = Ok c" and wf: "wf_value rec"
  shows "evaluate_record libs rec c i = None \<longleftrightarrow> conforms libs spec rec"
proof (cases "as_object rec")
  case (Some obj)
  then have rec: "rec = Object obj" by simp
  have vals: "wf_value v" if "map_of obj k = Some v" for k v
    using wf map_of_SomeD [OF that] by (auto simp: rec list_all_iff)
  have "(\<forall>f \<in> set (cs_fields spec). evaluate_field libs i obj f = None)
      \<longleftrightarrow> (\<forall>f \<in> set (cs_fields spec). field_conforms libs obj f)"
    using compile_ok(6) [OF c] vals by (intro ball_cong refl evaluate_field_None) auto
  then have "evaluate_fields libs i obj (cc_fields c) = None \<longleftrightarrow> (\<forall>f \<in> set (cs_fields spec). field_conforms libs obj f)"
    by (simp add: evaluate_fields_None compile_ok(1) [OF c])
  moreover have "find (\<lambda>key. key \<notin> set (cc_declared c)) (map fst obj) = None
      \<longleftrightarrow> (\<forall>k \<in> set (map fst obj). \<exists>f \<in> set (cs_fields spec). fc_name f = k)"
    unfolding find_None_iff compile_ok(2) [OF c] by (metis image_eqI image_iff list.set_map)
  ultimately show ?thesis
    by (cases "evaluate_fields libs i obj (cc_fields c)")
       (auto simp: evaluate_record_def rec conforms_def compile_ok(3) [OF c])
qed (auto simp: evaluate_record_def conforms_def)

subsection \<open>The page\<close>

definition removed_of_contract :: "contract_outcome \<Rightarrow> removed" where
  "removed_of_contract out = map (\<lambda>(r, v). (cv_page_index v, r)) (co_quarantined out)"

lemma evaluate_field_index: "evaluate_field libs i obj f = Some v \<Longrightarrow> cv_page_index v = i"
  by (auto simp: evaluate_field_def violation_def Let_def split: option.splits if_splits)

lemma evaluate_fields_index: "evaluate_fields libs i obj fs = Some v \<Longrightarrow> cv_page_index v = i"
  by (induction fs) (auto split: option.splits dest: evaluate_field_index)

lemma evaluate_record_index: "evaluate_record libs rec c i = Some v \<Longrightarrow> cv_page_index v = i"
  by (auto simp: evaluate_record_def violation_def split: option.splits if_splits dest: evaluate_fields_index)

lemma contract_loop_splits:
  assumes "contract_loop libs c (length done) out rest = Ok out'"
    and "splits_page done (co_survivors out) (removed_of_contract out)"
  shows "splits_page (done @ rest) (co_survivors out') (removed_of_contract out')"
  using assms
proof (induction rest arbitrary: "done" out)
  case (Cons r rest)
  have len: "Suc (length done) = length (done @ [r])" by simp
  note keep = splits_page_keep [OF Cons.prems(2), of r]
  note take = splits_page_take [OF Cons.prems(2), of r]
  show ?case
  proof (cases "evaluate_record libs r c (length done)")
    case None
    with Cons.prems(1) keep show ?thesis
      using Cons.IH [of "done @ [r]" "out \<lparr> co_survivors := co_survivors out @ [r] \<rparr>"]
      by (simp add: removed_of_contract_def)
  next
    case (Some v)
    from Some have i: "cv_page_index v = length done" by (rule evaluate_record_index)
    show ?thesis
    proof (cases "cc_on_breach c")
      case BreachQuarantine
      with Some Cons.prems(1) take i show ?thesis
        using Cons.IH [of "done @ [r]" "out \<lparr> co_quarantined := co_quarantined out @ [(r, v)] \<rparr>"]
        by (simp add: removed_of_contract_def)
    next
      case BreachWarn
      with Some Cons.prems(1) keep show ?thesis
        using Cons.IH [of "done @ [r]"
            "out \<lparr> co_warned := co_warned out @ [v], co_survivors := co_survivors out @ [r] \<rparr>"]
        by (simp add: removed_of_contract_def)
    qed (use Some Cons.prems(1) in simp)
  qed
qed simp

interpretation contract_pass: page_pass "\<lambda>records. apply_contract libs records c" co_survivors removed_of_contract
  for libs c
  using contract_loop_splits [of libs c "[]"]
  by unfold_locales (simp add: apply_contract_def removed_of_contract_def)

text \<open>What each policy does with a page.\<close>

lemma contract_loop_conforming:
  assumes "contract_loop libs c i out rest = Ok out'"
    and "cc_on_breach c \<noteq> BreachWarn"
    and "\<forall>r \<in> set (co_survivors out). \<exists>i. evaluate_record libs r c i = None"
    and "\<forall>(r, v) \<in> set (co_quarantined out). \<exists>i. evaluate_record libs r c i = Some v"
    and "cc_on_breach c = BreachFail \<longrightarrow> co_quarantined out = []"
  shows "(\<forall>r \<in> set (co_survivors out'). \<exists>i. evaluate_record libs r c i = None)
    \<and> (\<forall>(r, v) \<in> set (co_quarantined out'). \<exists>i. evaluate_record libs r c i = Some v)
    \<and> (cc_on_breach c = BreachFail \<longrightarrow> co_quarantined out' = [])"
  using assms
proof (induction rest arbitrary: i out)
  case (Cons r rest)
  show ?case
  proof (cases "evaluate_record libs r c i")
    case None
    with Cons.prems show ?thesis
      by (intro Cons.IH [of "Suc i" "out \<lparr> co_survivors := co_survivors out @ [r] \<rparr>"]) auto
  next
    case (Some v)
    with Cons.prems show ?thesis
      by (intro Cons.IH [of "Suc i" "out \<lparr> co_quarantined := co_quarantined out @ [(r, v)] \<rparr>"])
         (auto split: on_breach.splits)
  qed
qed auto

lemma contract_loop_warn:
  assumes "cc_on_breach c = BreachWarn"
  shows "\<exists>out'. contract_loop libs c i out rest = Ok out' \<and> co_survivors out' = co_survivors out @ rest
    \<and> co_quarantined out' = co_quarantined out"
  using assms
proof (induction rest arbitrary: i out)
  case (Cons r rest)
  show ?case
  proof (cases "evaluate_record libs r c i")
    case None
    with Cons.IH [OF Cons.prems, of "Suc i" "out \<lparr> co_survivors := co_survivors out @ [r] \<rparr>"] show ?thesis by auto
  next
    case (Some v)
    with Cons.prems Cons.IH [OF Cons.prems, of "Suc i"
        "out \<lparr> co_warned := co_warned out @ [v], co_survivors := co_survivors out @ [r] \<rparr>"] show ?thesis by auto
  qed
qed simp

lemma contract_loop_fail:
  assumes "cc_on_breach c = BreachFail" "contract_loop libs c i out rest = Err e"
  shows "\<exists>j r v. r \<in> set rest \<and> evaluate_record libs r c j = Some v \<and> e = ContractViolation (cc_version c) (describe v)"
  using assms by (induction rest arbitrary: i out) (auto split: option.splits, blast+)

lemma contract_loop_total:
  "cc_on_breach c \<noteq> BreachFail \<Longrightarrow> \<exists>out'. contract_loop libs c i out rest = Ok out'"
  by (induction rest arbitrary: i out) (auto split: option.splits on_breach.splits)

subsection \<open>A concrete contract\<close>

definition sample_libs :: contract_libs where
  "sample_libs = \<lparr> lib_regex_new = (\<lambda>p. Ok ()), lib_is_match = (\<lambda>p s. p = s), lib_show_f64 = (\<lambda>x. []),
     lib_show_value = (\<lambda>v. []) \<rparr>"

definition sample_contract :: contract_spec where
  "sample_contract = \<lparr> cs_version = ''1'', cs_on_breach = BreachQuarantine, cs_allow_extra_fields = False,
     cs_fields = [\<lparr> fc_name = ''id'', fc_type = CInteger, fc_required = True, fc_nullable = False,
       fc_allowed_values = None, fc_pattern = None, fc_min = Some (Fin 1), fc_max = None,
       fc_min_length = None, fc_max_length = None \<rparr>] \<rparr>"

definition sample_compiled :: compiled_contract where
  "sample_compiled = \<lparr> cc_version = ''1'', cc_on_breach = BreachQuarantine, cc_allow_extra_fields = False,
     cc_fields = cs_fields sample_contract, cc_declared = [''id''] \<rparr>"

lemma sample_compiles: "CompiledContract_compile sample_libs sample_contract = Ok sample_compiled"
  by code_simp

section \<open>Properties\<close>



text \<open>C13. The contract pass splits every page without losing or reordering a record. Under \<open>quarantine\<close> it
  always succeeds, keeps exactly the records that keep the contract and reports each other record with
  its position; under \<open>warn\<close> it keeps the whole page; under \<open>fail\<close> it succeeds exactly when every record
  keeps the contract, and then keeps the whole page.\<close>

theorem contract_page_correct:
  assumes compiled: "CompiledContract_compile libs spec = Ok c" and wf: "list_all wf_value records"
  shows "case apply_contract libs records c of
      Ok out \<Rightarrow> splits_page records (co_survivors out) (removed_of_contract out)
        \<and> (cs_on_breach spec = BreachWarn \<longrightarrow> co_survivors out = records)
        \<and> (cs_on_breach spec = BreachFail \<longrightarrow> co_survivors out = records)
        \<and> (cs_on_breach spec \<noteq> BreachWarn \<longrightarrow>
             (\<forall>r \<in> set (co_survivors out). conforms libs spec r)
             \<and> (\<forall>(i, r) \<in> set (removed_of_contract out). \<not> conforms libs spec r))
    | Err e \<Rightarrow> cs_on_breach spec = BreachFail \<and> \<not> list_all (conforms libs spec) records"
proof (cases "apply_contract libs records c")
  case (Inr out)
  note sp = contract_pass.splits [OF Inr]
  note rows = contract_pass.no_row_lost [OF Inr]
  have run: "contract_loop libs c 0 \<lparr> co_survivors = [], co_quarantined = [], co_warned = [] \<rparr> records = Ok out"
    using Inr by (simp add: apply_contract_def)
  have wfr: "wf_value r" if "r \<in> set records" for r using wf that by (simp add: list_all_iff)
  note eval = evaluate_record_correct [OF compiled wfr]
  have fail: "co_survivors out = records" if "cs_on_breach spec = BreachFail"
  proof -
    from that compile_ok(4) [OF compiled] have "co_quarantined out = []"
      using contract_loop_conforming [OF run] by simp
    with sp show ?thesis by (simp add: removed_of_contract_def splits_page_def map_nth)
  qed
  have warn: "co_survivors out = records" if "cs_on_breach spec = BreachWarn"
    using that contract_loop_warn [of c libs 0 "\<lparr> co_survivors = [], co_quarantined = [], co_warned = [] \<rparr>" records] run
      compile_ok(4) [OF compiled] by auto
  have keep: "conforms libs spec r"
    if "cs_on_breach spec \<noteq> BreachWarn" "r \<in> set (co_survivors out)" for r
  proof -
    from that obtain i where "evaluate_record libs r c i = None"
      using contract_loop_conforming [OF run] compile_ok(4) [OF compiled] by auto
    with eval [of r i] rows that(2) show ?thesis by blast
  qed
  have out: "\<not> conforms libs spec r"
    if "cs_on_breach spec \<noteq> BreachWarn" "(i, r) \<in> set (removed_of_contract out)" for i r
  proof -
    from that obtain v j where "evaluate_record libs r c j = Some v"
      using contract_loop_conforming [OF run] compile_ok(4) [OF compiled]
      by (fastforce simp: removed_of_contract_def)
    moreover have "r \<in> set records" using rows that(2) by force
    ultimately show ?thesis using eval [of r j] by simp
  qed
  from sp fail warn keep out show ?thesis by (auto simp: Inr)
next
  case (Inl e)
  then have run: "contract_loop libs c 0 \<lparr> co_survivors = [], co_quarantined = [], co_warned = [] \<rparr> records = Err e"
    by (simp add: apply_contract_def)
  then have f: "cc_on_breach c = BreachFail"
    using contract_loop_total [of c libs 0 "\<lparr> co_survivors = [], co_quarantined = [], co_warned = [] \<rparr>" records] by auto
  from contract_loop_fail [OF f run] obtain j r v where "r \<in> set records" "evaluate_record libs r c j = Some v"
    by blast
  with evaluate_record_correct [OF compiled, of r j] wf have "\<exists>r \<in> set records. \<not> conforms libs spec r"
    by (auto simp: list_all_iff)
  with f compile_ok(4) [OF compiled] Inl show ?thesis by (auto simp: list_all_iff)
qed

theorem contract_page_correct_witness:
  "\<exists>out. apply_contract sample_libs [Object [(''id'', Number (PosInt 7))], Null] sample_compiled = Ok out
     \<and> splits_page [Object [(''id'', Number (PosInt 7))], Null] (co_survivors out) (removed_of_contract out)
     \<and> co_survivors out = [Object [(''id'', Number (PosInt 7))]]"
proof -
  have "\<exists>out. apply_contract sample_libs [Object [(''id'', Number (PosInt 7))], Null] sample_compiled = Ok out
      \<and> co_survivors out = [Object [(''id'', Number (PosInt 7))]]"
    by (rule exI [of _ "\<lparr> co_survivors = [Object [(''id'', Number (PosInt 7))]],
      co_quarantined = [(Null, violation 1 ''not_object'' None ''record is not a JSON object (got null)'')],
      co_warned = [] \<rparr>"]) code_simp
  moreover have "list_all wf_value [Object [(''id'', Number (PosInt 7))], Null]" by simp
  ultimately show ?thesis using contract_page_correct [OF sample_compiles] by fastforce
qed

end
