(* ===== verification/Quality.thy ===== *)
theory Quality
  imports Contract
begin

section \<open>Data-quality checks\<close>

text \<open>
  The quality pass (\<open>quality/mod.rs\<close>) with its per-record checks (\<open>quality/record.rs\<close>) and per-batch
  checks (\<open>quality/batch.rs\<close>), on compiled checks. A compiled path is its list of keys
  (\<open>CompiledPath\<close> of \<open>stage.rs\<close>). Parameters: the regular expressions, the comparison of two exact
  decimals written as numbers or strings, the JSON-schema validator, the canonical JSON text and the
  texts of numbers in messages. The pass/fail tallies and timings feed metrics only and are left out.
\<close>

datatype on_failure = Quarantine | QuarantineBatch | Abort

datatype compare_op = Gt | Gte | Lt | Lte | Eq | Ne

fun compare_op_display :: "compare_op \<Rightarrow> string" where
  "compare_op_display Gt = ''gt''"
| "compare_op_display Gte = ''gte''"
| "compare_op_display Lt = ''lt''"
| "compare_op_display Lte = ''lte''"
| "compare_op_display Eq = ''eq''"
| "compare_op_display Ne = ''ne''"

datatype json_type = JBoolean | JNumber | JString | JArray | JObject | JNull

fun json_type_display :: "json_type \<Rightarrow> string" where
  "json_type_display JBoolean = ''boolean''"
| "json_type_display JNumber = ''number''"
| "json_type_display JString = ''string''"
| "json_type_display JArray = ''array''"
| "json_type_display JObject = ''object''"
| "json_type_display JNull = ''null''"

type_synonym path = "string list"

fun resolve_segments :: "value \<Rightarrow> path \<Rightarrow> value option" where
  "resolve_segments v [] = Some v"
| "resolve_segments v (k # ks) =
     (case v of
        Object m \<Rightarrow> (case map_of m k of Some v' \<Rightarrow> resolve_segments v' ks | None \<Rightarrow> None)
      | _ \<Rightarrow> None)"

record quality_libs =
  ql_is_match :: "string \<Rightarrow> string \<Rightarrow> bool"
  ql_decimal_cmp :: "value \<Rightarrow> value \<Rightarrow> ordering option"
  ql_schema_error :: "value \<Rightarrow> value \<Rightarrow> string option"
  ql_canonical_json :: "value \<Rightarrow> string"
  ql_show_value :: "value \<Rightarrow> string"
  ql_show_rate :: "float64 \<Rightarrow> string"
  ql_show_f64 :: "float64 \<Rightarrow> string"

subsection \<open>Numeric-aware equality and the set index\<close>

definition cmp_numbers :: "number \<Rightarrow> number \<Rightarrow> ordering option" where
  "cmp_numbers a b =
     (case (number_as_i64 a, number_as_i64 b) of
        (Some x, Some y) \<Rightarrow> Some (cmp_of x y)
      | _ \<Rightarrow>
          (case (number_as_u64 a, number_as_u64 b) of
             (Some x, Some y) \<Rightarrow> Some (cmp_of x y)
           | _ \<Rightarrow>
               if number_as_i64 a \<noteq> None \<and> number_as_u64 b \<noteq> None then Some OrdLess
               else if number_as_u64 a \<noteq> None \<and> number_as_i64 b \<noteq> None then Some OrdGreater
               else Some (cmp_of (number_as_f64 a) (number_as_f64 b))))"

definition values_equal :: "value \<Rightarrow> value \<Rightarrow> bool" where
  "values_equal a b =
     (case (a, b) of
        (Number x, Number y) \<Rightarrow> cmp_numbers x y = Some OrdEqual
      | _ \<Rightarrow> value_eq a b)"

text \<open>The linear scan the index replaces.\<close>

definition set_contains :: "value list \<Rightarrow> value \<Rightarrow> bool" where
  "set_contains values v = list_ex (\<lambda>candidate. values_equal candidate v) values"

text \<open>
  The bucket of a number: the bits of its \<open>f64\<close> value, with one bucket for the two zeros, which is the
  value itself.
\<close>

definition number_bucket :: "number \<Rightarrow> rat" where
  "number_bucket n = number_as_f64 n"

record value_set_index =
  vi_strings :: "string list"
  vi_numbers :: "(rat \<times> number list) list"
  vi_rest :: "value list"

definition bucket_push :: "rat \<Rightarrow> number \<Rightarrow> (rat \<times> number list) list \<Rightarrow> (rat \<times> number list) list" where
  "bucket_push b n m = AList.update b ((case map_of m b of Some ns \<Rightarrow> ns | None \<Rightarrow> []) @ [n]) m"

fun index_add :: "value \<Rightarrow> value_set_index \<Rightarrow> value_set_index" where
  "index_add (String s) idx = idx \<lparr> vi_strings := s # vi_strings idx \<rparr>"
| "index_add (Number n) idx = idx \<lparr> vi_numbers := bucket_push (number_bucket n) n (vi_numbers idx) \<rparr>"
| "index_add v idx = idx \<lparr> vi_rest := vi_rest idx @ [v] \<rparr>"

definition ValueSetIndex_new :: "value list \<Rightarrow> value_set_index" where
  "ValueSetIndex_new values = fold index_add values \<lparr> vi_strings = [], vi_numbers = [], vi_rest = [] \<rparr>"

definition index_contains :: "value_set_index \<Rightarrow> value \<Rightarrow> bool" where
  "index_contains idx v =
     (case v of
        String s \<Rightarrow> s \<in> set (vi_strings idx)
      | Number n \<Rightarrow>
          (case map_of (vi_numbers idx) (number_bucket n) of
             Some ns \<Rightarrow> list_ex (\<lambda>c. cmp_numbers c n = Some OrdEqual) ns
           | None \<Rightarrow> False)
          \<or> list_ex (\<lambda>c. values_equal c v) (vi_rest idx)
      | _ \<Rightarrow> list_ex (\<lambda>c. values_equal c v) (vi_rest idx))"

subsection \<open>Per-record checks\<close>

datatype compiled_record_kind =
    NotNull path bool
  | NotEmpty path
  | RegexMatch path string
  | ValueInSet path value_set_index
  | NotInSet path value_set_index
  | Compare path compare_op "value"
  | TypeIs path json_type
  | StringLength path "nat option" "nat option"
  | JsonSchema "value"

record compiled_record_check =
  rc_kind :: compiled_record_kind
  rc_on_failure :: on_failure
  rc_name :: string
  rc_field :: "string option"

definition evaluate_compare :: "quality_libs \<Rightarrow> compare_op \<Rightarrow> value \<Rightarrow> value \<Rightarrow> (string, unit) result" where
  "evaluate_compare libs oper actual expected =
     (case oper of
        Eq \<Rightarrow> if values_equal actual expected then Ok () else Err ''values were not equal''
      | Ne \<Rightarrow> if \<not> values_equal actual expected then Ok () else Err ''values were equal''
      | _ \<Rightarrow>
          (case (case (actual, expected) of
                   (Number a, Number b) \<Rightarrow> cmp_numbers a b
                 | _ \<Rightarrow> ql_decimal_cmp libs actual expected) of
             None \<Rightarrow> Err ''value was not numeric''
           | Some ord \<Rightarrow>
               if (case oper of
                     Gt \<Rightarrow> ord = OrdGreater
                   | Gte \<Rightarrow> ord \<noteq> OrdLess
                   | Lt \<Rightarrow> ord = OrdLess
                   | _ \<Rightarrow> ord \<noteq> OrdGreater)
               then Ok ()
               else Err (''comparison '' @ compare_op_display oper @ '' '' @ ql_show_value libs expected @ '' failed'')))"

fun json_type_matches :: "value \<Rightarrow> json_type \<Rightarrow> bool" where
  "json_type_matches (Bool _) JBoolean = True"
| "json_type_matches (Number _) JNumber = True"
| "json_type_matches (String _) JString = True"
| "json_type_matches (Array _) JArray = True"
| "json_type_matches (Object _) JObject = True"
| "json_type_matches Null JNull = True"
| "json_type_matches _ _ = False"

definition within_bounds :: "string \<Rightarrow> nat \<Rightarrow> nat option \<Rightarrow> nat option \<Rightarrow> (string, unit) result" where
  "within_bounds what n lo hi =
     (case lo of
        Some l \<Rightarrow> if n < l then Err (what @ show_nat n @ '' < min '' @ show_nat l)
                  else (case hi of Some h \<Rightarrow> if h < n then Err (what @ show_nat n @ '' > max '' @ show_nat h) else Ok ()
                        | None \<Rightarrow> Ok ())
      | None \<Rightarrow> (case hi of Some h \<Rightarrow> if h < n then Err (what @ show_nat n @ '' > max '' @ show_nat h) else Ok ()
                 | None \<Rightarrow> Ok ()))"

fun evaluate_record_kind :: "quality_libs \<Rightarrow> compiled_record_kind \<Rightarrow> value \<Rightarrow> (string, unit) result" where
  "evaluate_record_kind libs (NotNull p missing_is_null) rec =
     (case resolve_segments rec p of
        Some v \<Rightarrow> if v = Null then Err ''value was null'' else Ok ()
      | None \<Rightarrow> if missing_is_null then Err ''field was missing'' else Ok ())"
| "evaluate_record_kind libs (NotEmpty p) rec =
     (case resolve_segments rec p of
        Some (String s) \<Rightarrow> if trim s \<noteq> [] then Ok () else Err ''string was empty/whitespace''
      | Some Null \<Rightarrow> Err ''value was null''
      | Some _ \<Rightarrow> Err ''value was not a string''
      | None \<Rightarrow> Err ''field was missing'')"
| "evaluate_record_kind libs (RegexMatch p re) rec =
     (case resolve_segments rec p of
        Some (String s) \<Rightarrow> if ql_is_match libs re s then Ok () else Err ''value did not match pattern''
      | Some _ \<Rightarrow> Err ''value was not a string''
      | None \<Rightarrow> Err ''field was missing'')"
| "evaluate_record_kind libs (ValueInSet p index) rec =
     (case resolve_segments rec p of
        Some v \<Rightarrow> if index_contains index v then Ok () else Err ''value not in allowed set''
      | None \<Rightarrow> Err ''field was missing'')"
| "evaluate_record_kind libs (NotInSet p index) rec =
     (case resolve_segments rec p of
        Some v \<Rightarrow> if index_contains index v then Err ''value is in the forbidden set'' else Ok ()
      | None \<Rightarrow> Ok ())"
| "evaluate_record_kind libs (Compare p oper expected) rec =
     (case resolve_segments rec p of
        None \<Rightarrow> Err ''field was missing''
      | Some actual \<Rightarrow> evaluate_compare libs oper actual expected)"
| "evaluate_record_kind libs (TypeIs p expected) rec =
     (case resolve_segments rec p of
        Some v \<Rightarrow> if json_type_matches v expected then Ok ()
                  else Err (''value was not of type '' @ json_type_display expected)
      | None \<Rightarrow> Err ''field was missing'')"
| "evaluate_record_kind libs (StringLength p lo hi) rec =
     (case resolve_segments rec p of
        Some (String s) \<Rightarrow> within_bounds ''string length '' (char_count s) lo hi
      | Some _ \<Rightarrow> Err ''value was not a string''
      | None \<Rightarrow> Err ''field was missing'')"
| "evaluate_record_kind libs (JsonSchema schema) rec =
     (case ql_schema_error libs schema rec of None \<Rightarrow> Ok () | Some msg \<Rightarrow> Err msg)"

definition evaluate_record_check :: "quality_libs \<Rightarrow> compiled_record_check \<Rightarrow> value \<Rightarrow> (string, unit) result" where
  "evaluate_record_check libs c rec = evaluate_record_kind libs (rc_kind c) rec"

subsection \<open>Per-batch checks\<close>

datatype compiled_batch_kind =
    RowCount "nat option" "nat option"
  | NullRate path float64
  | Unique "path list"
  | DistinctCount path "nat option" "nat option"

record compiled_batch_check =
  bc_kind :: compiled_batch_kind
  bc_on_failure :: on_failure
  bc_name :: string
  bc_field :: "string option"

definition value_key :: "quality_libs \<Rightarrow> value option \<Rightarrow> string" where
  "value_key libs v =
     (case v of None \<Rightarrow> CHR 0x00 # ''__missing__'' | Some val \<Rightarrow> ql_canonical_json libs val)"

fun evaluate_aggregate_check :: "quality_libs \<Rightarrow> compiled_batch_kind \<Rightarrow> value list \<Rightarrow> (string, unit) result" where
  "evaluate_aggregate_check libs (RowCount lo hi) survivors = within_bounds ''row count '' (length survivors) lo hi"
| "evaluate_aggregate_check libs (NullRate p rate_max) survivors =
     (let n = length survivors in
      if n = 0 then Ok ()
      else let nulls = length (filter (\<lambda>r. case resolve_segments r p of None \<Rightarrow> True | Some v \<Rightarrow> v = Null) survivors);
               rate = f_div_nat (f_of_nat nulls) n
           in if f_le rate rate_max then Ok ()
              else Err (''null rate '' @ ql_show_rate libs rate @ '' > max '' @ ql_show_f64 libs rate_max))"
| "evaluate_aggregate_check libs (DistinctCount p lo hi) survivors =
     within_bounds ''distinct count ''
       (length (remdups (map (\<lambda>r. value_key libs (resolve_segments r p)) survivors))) lo hi"
| "evaluate_aggregate_check libs (Unique _) survivors = Err ''internal: unique evaluated as aggregate''"

definition composite_key :: "quality_libs \<Rightarrow> path list \<Rightarrow> value \<Rightarrow> string" where
  "composite_key libs paths rec = join_with [CHR 0x1F] (map (\<lambda>p. value_key libs (resolve_segments rec p)) paths)"

fun unique_loop :: "(value \<Rightarrow> string) \<Rightarrow> nat \<Rightarrow> string list \<Rightarrow> value list \<Rightarrow> nat list" where
  "unique_loop key i seen [] = []"
| "unique_loop key i seen (r # rs) =
     (if key r \<in> set seen then i # unique_loop key (Suc i) seen rs
      else unique_loop key (Suc i) (key r # seen) rs)"

definition evaluate_unique_check :: "quality_libs \<Rightarrow> compiled_batch_kind \<Rightarrow> value list \<Rightarrow> nat list" where
  "evaluate_unique_check libs kind survivors =
     (case kind of Unique paths \<Rightarrow> unique_loop (composite_key libs paths) 0 [] survivors | _ \<Rightarrow> [])"

subsection \<open>The pass\<close>

record compiled_quality =
  cq_record :: "compiled_record_check list"
  cq_batch :: "compiled_batch_check list"

definition quality_requires_dlq :: "compiled_quality \<Rightarrow> bool" where
  "quality_requires_dlq q =
     (list_ex (\<lambda>c. rc_on_failure c = Quarantine) (cq_record q)
      \<or> list_ex (\<lambda>c. bc_on_failure c = Quarantine \<or> bc_on_failure c = QuarantineBatch) (cq_batch q))"

record quarantined_record =
  qr_record :: "value"
  qr_check :: string
  qr_field :: "string option"
  qr_message :: string
  qr_page_index :: nat

record quality_outcome =
  qo_survivors :: "value list"
  qo_quarantined :: "quarantined_record list"

text \<open>The pass's working state: the outcome and the page positions of the survivors.\<close>

type_synonym quality_state = "quality_outcome \<times> nat list"

definition field_msg :: "string option \<Rightarrow> string \<Rightarrow> string" where
  "field_msg field message =
     (case field of Some f \<Rightarrow> ''field '' @ quoted f @ '': '' @ message | None \<Rightarrow> message)"

text \<open>The checks of one record: the first failing one decides.\<close>

fun first_failure ::
    "quality_libs \<Rightarrow> compiled_record_check list \<Rightarrow> value \<Rightarrow> (compiled_record_check \<times> string) option" where
  "first_failure libs [] rec = None"
| "first_failure libs (c # cs) rec =
     (case evaluate_record_check libs c rec of
        Ok _ \<Rightarrow> first_failure libs cs rec
      | Err message \<Rightarrow> Some (c, message))"

definition push_quarantined :: "value \<Rightarrow> string \<Rightarrow> string option \<Rightarrow> string \<Rightarrow> nat \<Rightarrow> quality_outcome \<Rightarrow> quality_outcome" where
  "push_quarantined rec name field message page_index out =
     out \<lparr> qo_quarantined := qo_quarantined out
       @ [\<lparr> qr_record = rec, qr_check = name, qr_field = field, qr_message = field_msg field message,
            qr_page_index = page_index \<rparr>] \<rparr>"

fun record_pass ::
    "quality_libs \<Rightarrow> compiled_record_check list \<Rightarrow> nat \<Rightarrow> quality_state \<Rightarrow> value list
     \<Rightarrow> (faucet_error, quality_state) result" where
  "record_pass libs checks page_index st [] = Ok st"
| "record_pass libs checks page_index (out, idx) (rec # records) =
     (case first_failure libs checks rec of
        None \<Rightarrow> record_pass libs checks (Suc page_index)
                  (out \<lparr> qo_survivors := qo_survivors out @ [rec] \<rparr>, idx @ [page_index]) records
      | Some (c, message) \<Rightarrow>
          if rc_on_failure c = Abort
          then Err (QualityFailure (rc_name c) (field_msg (rc_field c) message))
          else record_pass libs checks (Suc page_index)
                 (push_quarantined rec (rc_name c) (rc_field c) message page_index out, idx) records)"

text \<open>Taking the marked survivors out, in order, each with its page position.\<close>

fun take_out ::
    "compiled_batch_check \<Rightarrow> string \<Rightarrow> nat list \<Rightarrow> nat \<Rightarrow> nat list \<Rightarrow> value list \<Rightarrow> quality_state \<Rightarrow> quality_state" where
  "take_out check message marked i (p # old_idx) (rec # records) (out, idx) =
     (if i \<in> set marked
      then take_out check message marked (Suc i) old_idx records
             (push_quarantined rec (bc_name check) (bc_field check) message p out, idx)
      else take_out check message marked (Suc i) old_idx records
             (out \<lparr> qo_survivors := qo_survivors out @ [rec] \<rparr>, idx @ [p]))"
| "take_out check message marked i _ _ st = st"

definition clear_survivors :: "quality_outcome \<Rightarrow> quality_outcome" where
  "clear_survivors out = out \<lparr> qo_survivors := [] \<rparr>"

definition batch_step ::
    "quality_libs \<Rightarrow> compiled_batch_check \<Rightarrow> quality_state \<Rightarrow> (faucet_error, quality_state) result" where
  "batch_step libs check st =
     (let (out, idx) = st in
      case bc_kind check of
        Unique _ \<Rightarrow>
          (let dups = evaluate_unique_check libs (bc_kind check) (qo_survivors out) in
           if dups = [] then Ok st
           else if bc_on_failure check = Abort
           then Err (QualityFailure (bc_name check) (show_nat (length dups) @ '' duplicate row(s)''))
           else Ok (take_out check ''duplicate key'' dups 0 idx (qo_survivors out) (clear_survivors out, [])))
      | _ \<Rightarrow>
          (case evaluate_aggregate_check libs (bc_kind check) (qo_survivors out) of
             Ok _ \<Rightarrow> Ok st
           | Err message \<Rightarrow>
               if bc_on_failure check = Abort
               then Err (QualityFailure (bc_name check) (field_msg (bc_field check) message))
               else Ok (take_out check message [0..<length (qo_survivors out)] 0 idx (qo_survivors out)
                          (clear_survivors out, []))))"

fun batch_pass ::
    "quality_libs \<Rightarrow> compiled_batch_check list \<Rightarrow> quality_state \<Rightarrow> (faucet_error, quality_state) result" where
  "batch_pass libs [] st = Ok st"
| "batch_pass libs (c # cs) st = (case batch_step libs c st of Err e \<Rightarrow> Err e | Ok st' \<Rightarrow> batch_pass libs cs st')"

definition apply_quality ::
    "quality_libs \<Rightarrow> value list \<Rightarrow> compiled_quality \<Rightarrow> (faucet_error, quality_outcome) result" where
  "apply_quality libs records q =
     (case record_pass libs (cq_record q) 0 (\<lparr> qo_survivors = [], qo_quarantined = [] \<rparr>, []) records of
        Err e \<Rightarrow> Err e
      | Ok st \<Rightarrow> (case batch_pass libs (cq_batch q) st of Err e \<Rightarrow> Err e | Ok (out, _) \<Rightarrow> Ok out))"

section \<open>Lemmas\<close>

subsection \<open>The set index\<close>

lemma equal_numbers_bucket: "cmp_numbers a b = Some OrdEqual \<Longrightarrow> number_bucket a = number_bucket b"
  by (cases a; cases b) (auto simp: cmp_numbers_def number_bucket_def simp flip: word_uint_eq_iff
      split: if_splits)

lemma map_of_bucket_push:
  "map_of (bucket_push b n m) b' =
     (if b' = b then Some ((case map_of m b of Some ns \<Rightarrow> ns | None \<Rightarrow> []) @ [n]) else map_of m b')"
  by (simp add: bucket_push_def update_conv')

lemma index_contains_add: "index_contains (index_add c idx) v \<longleftrightarrow> index_contains idx v \<or> values_equal c v"
proof (cases "\<exists>a b. c = Number a \<and> v = Number b")
  case True
  then obtain a b where ab: "c = Number a" "v = Number b" by blast
  show ?thesis
    using equal_numbers_bucket [of a b]
    by (auto simp: ab index_contains_def map_of_bucket_push values_equal_def split: option.splits)
next
  case False
  then show ?thesis
    by (cases c; cases v) (auto simp: index_contains_def values_equal_def)
qed

lemma index_contains_fold:
  "index_contains (fold index_add vs idx) v \<longleftrightarrow> index_contains idx v \<or> set_contains vs v"
  by (induction vs arbitrary: idx) (auto simp: index_contains_add set_contains_def)

lemma index_contains_empty: "\<not> index_contains \<lparr> vi_strings = [], vi_numbers = [], vi_rest = [] \<rparr> v"
  by (cases v) (auto simp: index_contains_def)

subsection \<open>The pass splits the page\<close>

definition removed_of_quality :: "quality_outcome \<Rightarrow> removed" where
  "removed_of_quality out = map (\<lambda>q. (qr_page_index q, qr_record q)) (qo_quarantined out)"

definition quality_inv :: "value list \<Rightarrow> quality_state \<Rightarrow> bool" where
  "quality_inv records st \<longleftrightarrow>
     splits_page records (qo_survivors (fst st)) (removed_of_quality (fst st))
     \<and> snd st = survivor_positions (length records) (set (map fst (removed_of_quality (fst st))))"

lemma push_quarantined_simps [simp]:
  "qo_survivors (push_quarantined r name field message i out) = qo_survivors out"
  "removed_of_quality (push_quarantined r name field message i out) = removed_of_quality out @ [(i, r)]"
  by (simp_all add: push_quarantined_def removed_of_quality_def)

lemma removed_survivors_update [simp]:
  "removed_of_quality (out \<lparr> qo_survivors := ss \<rparr>) = removed_of_quality out"
  by (simp add: removed_of_quality_def)

lemma positions_keep:
  assumes "splits_page done survivors removed"
  shows "survivor_positions (Suc (length done)) (set (map fst removed))
    = survivor_positions (length done) (set (map fst removed)) @ [length done]"
  using assms by (auto simp: survivor_positions_Suc splits_page_def)

lemma positions_take:
  "survivor_positions (Suc n) (set (map fst (removed @ [(n, r)]))) = survivor_positions n (set (map fst removed))"
  using survivor_positions_beyond [of "{n}" n "set (map fst removed)"] by (simp add: survivor_positions_Suc)

lemma record_pass_inv:
  assumes "record_pass libs checks (length done) st rest = Ok st'"
    and "quality_inv done st" and "\<forall>r \<in> set (qo_survivors (fst st)). first_failure libs checks r = None"
  shows "quality_inv (done @ rest) st' \<and> (\<forall>r \<in> set (qo_survivors (fst st')). first_failure libs checks r = None)"
  using assms
proof (induction rest arbitrary: "done" st)
  case (Cons r rest)
  obtain out idx where st: "st = (out, idx)" by (cases st)
  from Cons.prems(2) have sp: "splits_page done (qo_survivors out) (removed_of_quality out)"
    and ix: "idx = survivor_positions (length done) (set (map fst (removed_of_quality out)))"
    by (auto simp: quality_inv_def st)
  show ?case
  proof (cases "first_failure libs checks r")
    case None
    have "quality_inv (done @ [r]) (out \<lparr> qo_survivors := qo_survivors out @ [r] \<rparr>, idx @ [length done])"
      using splits_page_keep [OF sp, of r] positions_keep [OF sp] ix by (simp add: quality_inv_def)
    from Cons.IH [OF _ this] None Cons.prems(1,3) show ?thesis by (simp add: st)
  next
    case (Some cm)
    obtain c message where cm: "cm = (c, message)" by (cases cm)
    have "quality_inv (done @ [r]) (push_quarantined r (rc_name c) (rc_field c) message (length done) out, idx)"
      using splits_page_take [OF sp, of r] positions_take [of "length done" "removed_of_quality out" r] ix
      by (simp add: quality_inv_def)
    from Cons.IH [OF _ this] Some Cons.prems(1,3) show ?thesis by (simp add: st cm split: if_splits)
  qed
qed simp

lemma take_out_splits:
  assumes "length old = length (done @ rest)"
    and "splits_page done (qo_survivors out) taken"
    and "removed_of_quality out = base @ map (\<lambda>(i, r). (old ! i, r)) taken"
    and "idx = map ((!) old) (survivor_positions (length done) (set (map fst taken)))"
    and "set (map fst taken) = set marked \<inter> {..<length done}"
    and "take_out check message marked (length done) (drop (length done) old) rest (out, idx) = (out', idx')"
  shows "\<exists>taken'. splits_page (done @ rest) (qo_survivors out') taken'
    \<and> removed_of_quality out' = base @ map (\<lambda>(i, r). (old ! i, r)) taken'
    \<and> idx' = map ((!) old) (survivor_positions (length (done @ rest)) (set (map fst taken')))
    \<and> set (map fst taken') = set marked \<inter> {..<length (done @ rest)}"
  using assms
proof (induction rest arbitrary: "done" out idx taken)
  case (Cons r rest)
  from Cons.prems(1) have d: "drop (length done) old = old ! length done # drop (Suc (length done)) old"
    by (intro Cons_nth_drop_Suc [symmetric]) simp
  note sp = Cons.prems(2)
  show ?case
  proof (cases "length done \<in> set marked")
    case True
    let ?out = "push_quarantined r (bc_name check) (bc_field check) message (old ! length done) out"
    let ?taken = "taken @ [(length done, r)]"
    have "\<exists>taken'. splits_page ((done @ [r]) @ rest) (qo_survivors out') taken'
        \<and> removed_of_quality out' = base @ map (\<lambda>(i, r). (old ! i, r)) taken'
        \<and> idx' = map ((!) old) (survivor_positions (length ((done @ [r]) @ rest)) (set (map fst taken')))
        \<and> set (map fst taken') = set marked \<inter> {..<length ((done @ [r]) @ rest)}"
    proof (rule Cons.IH [of "done @ [r]" ?out ?taken idx])
      show "splits_page (done @ [r]) (qo_survivors ?out) ?taken" using splits_page_take [OF sp, of r] by simp
      show "idx = map ((!) old) (survivor_positions (length (done @ [r])) (set (map fst ?taken)))"
        using Cons.prems(4) positions_take [of "length done" taken r] by simp
      show "set (map fst ?taken) = set marked \<inter> {..<length (done @ [r])}"
        using Cons.prems(5) True by (auto simp: lessThan_Suc)
      show "take_out check message marked (length (done @ [r])) (drop (length (done @ [r])) old) rest (?out, idx) = (out', idx')"
        using Cons.prems(6) True by (simp add: d)
    qed (use Cons.prems in simp_all)
    then show ?thesis by simp
  next
    case False
    let ?out = "out \<lparr> qo_survivors := qo_survivors out @ [r] \<rparr>"
    have "\<exists>taken'. splits_page ((done @ [r]) @ rest) (qo_survivors out') taken'
        \<and> removed_of_quality out' = base @ map (\<lambda>(i, r). (old ! i, r)) taken'
        \<and> idx' = map ((!) old) (survivor_positions (length ((done @ [r]) @ rest)) (set (map fst taken')))
        \<and> set (map fst taken') = set marked \<inter> {..<length ((done @ [r]) @ rest)}"
    proof (rule Cons.IH [of "done @ [r]" ?out taken "idx @ [old ! length done]"])
      show "splits_page (done @ [r]) (qo_survivors ?out) taken" using splits_page_keep [OF sp, of r] by simp
      show "idx @ [old ! length done] = map ((!) old) (survivor_positions (length (done @ [r])) (set (map fst taken)))"
        using Cons.prems(4) positions_keep [OF sp] by simp
      show "set (map fst taken) = set marked \<inter> {..<length (done @ [r])}"
        using Cons.prems(5) False by (auto simp: lessThan_Suc)
      show "take_out check message marked (length (done @ [r])) (drop (length (done @ [r])) old) rest
          (?out, idx @ [old ! length done]) = (out', idx')"
        using Cons.prems(6) False by (simp add: d)
    qed (use Cons.prems in simp_all)
    then show ?thesis by simp
  qed
qed auto

text \<open>A batch check keeps the invariant and leaves a part of the survivors, those outside the marks.\<close>

lemma take_out_inv:
  assumes inv: "quality_inv records (out, idx)"
    and run: "take_out check message marked 0 idx (qo_survivors out) (clear_survivors out, []) = (out', idx')"
  shows "quality_inv records (out', idx')
    \<and> qo_survivors out' = map ((!) (qo_survivors out)) (survivor_positions (length (qo_survivors out)) (set marked))"
proof -
  let ?S = "qo_survivors out"
  from inv have sp: "splits_page records ?S (removed_of_quality out)"
    and ix: "idx = survivor_positions (length records) (set (map fst (removed_of_quality out)))"
    by (auto simp: quality_inv_def)
  have len: "length idx = length ?S" using sp ix by (simp add: splits_page_def)
  have "\<exists>taken'. splits_page ([] @ ?S) (qo_survivors out') taken'
      \<and> removed_of_quality out' = removed_of_quality out @ map (\<lambda>(i, r). (idx ! i, r)) taken'
      \<and> idx' = map ((!) idx) (survivor_positions (length ([] @ ?S)) (set (map fst taken')))
      \<and> set (map fst taken') = set marked \<inter> {..<length ([] @ ?S)}"
    by (rule take_out_splits [of idx "[]" ?S "clear_survivors out" "[]" _ "[]" marked check message])
       (use run len in \<open>simp_all add: clear_survivors_def\<close>)
  then obtain taken where t: "splits_page ?S (qo_survivors out') taken"
      "removed_of_quality out' = removed_of_quality out @ map (\<lambda>(i, r). (idx ! i, r)) taken"
      "idx' = map ((!) idx) (survivor_positions (length ?S) (set (map fst taken)))"
      "set (map fst taken) = set marked \<inter> {..<length ?S}"
    by auto
  have "survivor_positions (length ?S) (set (map fst taken)) = survivor_positions (length ?S) (set marked)"
    unfolding t(4) survivor_positions_def by (rule filter_cong) auto
  with t(1) have "qo_survivors out' = map ((!) ?S) (survivor_positions (length ?S) (set marked))"
    by (simp add: splits_page_def)
  moreover have "quality_inv records (out', idx')"
    using splits_page_compose [OF sp t(1) ix] t(2,3) len by (simp add: quality_inv_def)
  ultimately show ?thesis by blast
qed

subsection \<open>Unique keys\<close>

lemma unique_loop_set:
  "set (unique_loop key i seen rs) =
     {i + j | j. j < length rs \<and> (key (rs ! j) \<in> set seen \<or> (\<exists>k < j. key (rs ! k) = key (rs ! j)))}"
proof (induction rs arbitrary: i seen)
  case (Cons r rs)
  have idx: "{i + j | j. j < length (r # rs) \<and> (key ((r # rs) ! j) \<in> set seen \<or> (\<exists>k < j. key ((r # rs) ! k) = key ((r # rs) ! j)))}
    = (if key r \<in> set seen then {i} else {})
      \<union> {Suc i + j | j. j < length rs \<and> (key (rs ! j) \<in> set (key r # seen) \<or> (\<exists>k < j. key (rs ! k) = key (rs ! j)))}"
    (is "?L = ?A \<union> ?B")
  proof (intro equalityI subsetI)
    fix x assume "x \<in> ?L"
    then obtain j where j: "x = i + j" "j < length (r # rs)"
        "key ((r # rs) ! j) \<in> set seen \<or> (\<exists>k < j. key ((r # rs) ! k) = key ((r # rs) ! j))" by blast
    show "x \<in> ?A \<union> ?B"
    proof (cases j)
      case (Suc j')
      from j(3) have "key (rs ! j') \<in> set (key r # seen) \<or> (\<exists>k < j'. key (rs ! k) = key (rs ! j'))"
        unfolding Suc by (auto simp: nth_Cons' less_Suc_eq_0_disj split: if_splits)
      with j(1,2) Suc show ?thesis by auto
    qed (use j in auto)
  next
    fix x assume "x \<in> ?A \<union> ?B"
    then show "x \<in> ?L"
    proof
      assume "x \<in> ?A" then show ?thesis by (auto split: if_splits intro!: exI [of _ 0])
    next
      assume "x \<in> ?B"
      then obtain j where j: "x = Suc i + j" "j < length rs"
        "key (rs ! j) \<in> set (key r # seen) \<or> (\<exists>k < j. key (rs ! k) = key (rs ! j))" by blast
      then have "key ((r # rs) ! Suc j) \<in> set seen \<or> (\<exists>k < Suc j. key ((r # rs) ! k) = key ((r # rs) ! Suc j))"
        by fastforce
      with j(1,2) show ?thesis by (auto intro!: exI [of _ "Suc j"])
    qed
  qed
  show ?case
  proof (cases "key r \<in> set seen")
    case True
    then have "set (key r # seen) = set seen" by auto
    with True show ?thesis unfolding idx by (simp add: Cons.IH)
  next
    case False
    then show ?thesis unfolding idx by (simp add: Cons.IH)
  qed
qed simp

lemma distinct_map_positions:
  assumes "distinct (map key xs)" "distinct ps" "\<forall>p \<in> set ps. p < length xs"
  shows "distinct (map key (map ((!) xs) ps))"
proof -
  have "map key (map ((!) xs) ps) = map ((!) (map key xs)) ps" using assms(3) by simp
  moreover have "inj_on ((!) (map key xs)) (set ps)" using assms(1,3) by (intro inj_on_nth) auto
  ultimately show ?thesis using assms(2) by (simp only: distinct_map [of _ ps])
qed

lemma unique_survivors_distinct:
  "distinct (map key (map ((!) xs) (survivor_positions (length xs) (set (unique_loop key 0 [] xs)))))"
proof -
  let ?ps = "survivor_positions (length xs) (set (unique_loop key 0 [] xs))"
  have "inj_on (\<lambda>p. key (xs ! p)) (set ?ps)"
  proof (rule inj_onI)
    fix a b assume ab: "a \<in> set ?ps" "b \<in> set ?ps" "key (xs ! a) = key (xs ! b)"
    then have "\<not> (\<exists>k < a. key (xs ! k) = key (xs ! a))" "\<not> (\<exists>k < b. key (xs ! k) = key (xs ! b))"
      by (auto simp: survivor_positions_bound unique_loop_set)
    with ab(3) show "a = b" by (metis linorder_neqE_nat)
  qed
  then show ?thesis by (simp add: distinct_map survivor_positions_distinct o_def)
qed

subsection \<open>The whole pass\<close>

definition unique_holds :: "quality_libs \<Rightarrow> compiled_batch_check \<Rightarrow> value list \<Rightarrow> bool" where
  "unique_holds libs c survivors \<longleftrightarrow>
     (\<forall>paths. bc_kind c = Unique paths \<longrightarrow> distinct (map (composite_key libs paths) survivors))"

lemma unique_holds_positions:
  assumes "unique_holds libs c xs"
  shows "unique_holds libs c (map ((!) xs) (survivor_positions (length xs) taken))"
  using assms unfolding unique_holds_def
  by (metis distinct_map_positions survivor_positions_bound survivor_positions_distinct)

lemma batch_step_aggregate:
  assumes "batch_step libs check (out, idx) = Ok (out', idx')" "quality_inv records (out, idx)"
    and agg: "\<forall>paths. bc_kind check \<noteq> Unique paths"
  shows "quality_inv records (out', idx') \<and> unique_holds libs check (qo_survivors out')
    \<and> (\<exists>taken. qo_survivors out' = map ((!) (qo_survivors out)) (survivor_positions (length (qo_survivors out)) taken))"
proof -
  let ?S = "qo_survivors out"
  have same: "\<exists>taken. ?S = map ((!) ?S) (survivor_positions (length ?S) taken)"
    by (rule exI [of _ "{}"]) (simp add: map_nth)
  from agg assms(1) have "(out', idx') = (out, idx)
      \<or> (\<exists>m ms. take_out check m ms 0 idx ?S (clear_survivors out, []) = (out', idx'))"
    by (auto simp: batch_step_def Let_def simp del: evaluate_aggregate_check.simps
        split: sum.splits if_splits compiled_batch_kind.splits)
  with take_out_inv [OF assms(2)] assms(2) same agg show ?thesis by (fastforce simp: unique_holds_def)
qed

lemma batch_step_spec:
  assumes "batch_step libs check (out, idx) = Ok (out', idx')" "quality_inv records (out, idx)"
  shows "quality_inv records (out', idx') \<and> unique_holds libs check (qo_survivors out')
    \<and> (\<exists>taken. qo_survivors out' = map ((!) (qo_survivors out)) (survivor_positions (length (qo_survivors out)) taken))"
proof -
  let ?S = "qo_survivors out"
  have same: "\<exists>taken. ?S = map ((!) ?S) (survivor_positions (length ?S) taken)"
    by (rule exI [of _ "{}"]) (simp add: map_nth)
  show ?thesis
  proof (cases "bc_kind check")
    case (Unique paths)
    let ?dups = "evaluate_unique_check libs (bc_kind check) ?S"
    have d: "?dups = unique_loop (composite_key libs paths) 0 [] ?S"
      by (simp add: Unique evaluate_unique_check_def)
    note dist = unique_survivors_distinct [of "composite_key libs paths" ?S]
    show ?thesis
    proof (cases "?dups = []")
      case True
      with assms have "out' = out" "idx' = idx" by (simp_all add: batch_step_def Unique Let_def)
      moreover from True dist have "distinct (map (composite_key libs paths) ?S)"
        unfolding d by (simp add: map_nth)
      ultimately show ?thesis using assms(2) same by (simp add: unique_holds_def Unique)
    next
      case False
      with assms(1) have "take_out check ''duplicate key'' ?dups 0 idx ?S (clear_survivors out, []) = (out', idx')"
        by (auto simp: batch_step_def Unique Let_def split: if_splits)
      from take_out_inv [OF assms(2) this] dist show ?thesis
        unfolding d by (auto simp: unique_holds_def Unique)
    qed
  qed (rule batch_step_aggregate [OF assms]; simp)+
qed

lemma batch_pass_spec:
  assumes "batch_pass libs checks (out, idx) = Ok (out', idx')" "quality_inv records (out, idx)"
    and "\<forall>c \<in> earlier. unique_holds libs c (qo_survivors out)"
  shows "quality_inv records (out', idx')
    \<and> (\<forall>c \<in> earlier \<union> set checks. unique_holds libs c (qo_survivors out'))
    \<and> set (qo_survivors out') \<subseteq> set (qo_survivors out)"
  using assms
proof (induction checks arbitrary: out idx earlier)
  case (Cons c cs)
  from Cons.prems(1) obtain out1 idx1 where step: "batch_step libs c (out, idx) = Ok (out1, idx1)"
    and rest: "batch_pass libs cs (out1, idx1) = Ok (out', idx')"
    by (auto split: sum.splits)
  from batch_step_spec [OF step Cons.prems(2)] obtain taken where inv: "quality_inv records (out1, idx1)"
    and here: "unique_holds libs c (qo_survivors out1)"
    and surv: "qo_survivors out1 = map ((!) (qo_survivors out)) (survivor_positions (length (qo_survivors out)) taken)"
    by blast
  have "\<forall>c' \<in> insert c earlier. unique_holds libs c' (qo_survivors out1)"
    using here Cons.prems(3) unique_holds_positions surv by (metis insert_iff)
  from Cons.IH [OF rest inv this] surv show ?case
    by (fastforce simp: survivor_positions_bound)
qed simp

lemma apply_quality_spec:
  assumes "apply_quality libs records q = Ok out"
  shows "splits_page records (qo_survivors out) (removed_of_quality out)
    \<and> (\<forall>r \<in> set (qo_survivors out). first_failure libs (cq_record q) r = None)
    \<and> (\<forall>c \<in> set (cq_batch q). unique_holds libs c (qo_survivors out))"
proof -
  let ?init = "(\<lparr> qo_survivors = [], qo_quarantined = [] \<rparr>, []) :: quality_state"
  from assms obtain out1 idx1 idx where run: "record_pass libs (cq_record q) (length ([] :: value list)) ?init records = Ok (out1, idx1)"
    and batch: "batch_pass libs (cq_batch q) (out1, idx1) = Ok (out, idx)"
    by (auto simp: apply_quality_def split: sum.splits)
  have init: "quality_inv [] ?init" by (simp add: quality_inv_def removed_of_quality_def)
  have "\<forall>r \<in> set (qo_survivors (fst ?init)). first_failure libs (cq_record q) r = None" by simp
  from record_pass_inv [OF run init this] have r: "quality_inv records (out1, idx1)"
      "\<forall>r \<in> set (qo_survivors out1). first_failure libs (cq_record q) r = None"
    by simp_all
  from batch_pass_spec [OF batch r(1), of "{}"] r(2) show ?thesis by (auto simp: quality_inv_def)
qed

interpretation quality_pass: page_pass "\<lambda>records. apply_quality libs records q" qo_survivors removed_of_quality
  for libs q
  by unfold_locales (use apply_quality_spec in blast)

lemma first_failure_None: "first_failure libs cs r = None \<longleftrightarrow> (\<forall>c \<in> set cs. evaluate_record_check libs c r = Ok ())"
  by (induction cs) (auto split: sum.splits)

section \<open>Properties\<close>

text \<open>C14. The hashed index of a value set answers membership exactly as a linear scan with numeric-aware
  equality does, whatever mix of strings, numbers of either spelling and other values it holds.\<close>

theorem value_set_index_correct:
  "index_contains (ValueSetIndex_new vs) v \<longleftrightarrow> set_contains vs v"
  by (simp add: ValueSetIndex_new_def index_contains_fold index_contains_empty)



end
