(* ===== verification/Engine.thy ===== *)
theory Engine
  imports Accounting Resilience Adaptive Dlq Drift Contract Quality
begin

section \<open>The engine's world\<close>

text \<open>
  What the pipeline loop does to the outside is a sequence of events: calls of the main sink, of the
  dead-letter sink, of the state store, of the page stream and of the clock. The log of a run holds the
  events, the newest first. The sinks, the store and the stream are other components (or other
  processes): they are an environment whose answer to a call may depend on the whole history, so a
  property that holds for every environment holds for every sink, however it fails.

  An operation of the engine takes the state and returns a result and the new state; an error does not
  roll the state back, as the mutable variables of the code keep their values when \<open>?\<close> returns.
\<close>

datatype event =
    SinkSchema
  | SinkEvolve schema_evolution
  | SinkAdmit "value list"
  | SinkWrite "value list"
  | SinkPartial "value list"
  | SinkIdempotent "value list" string string
  | SinkToken string
  | SinkFlush
  | DlqWrite "value list"
  | DlqFlush
  | StatePut string "value"
  | PollPage
  | Sleep duration
  | Clock
  | SinkColumnar "value list option" nat
  | SinkNative "nat option" bool
  | BeginOverwrite
  | CommitOverwrite
  | AbortOverwrite
  | CompleteRun
  | SinkCleanup json_object "json_object list"
  | StateGet string
  | StateCas string "value"
  | StateDelete string
  | StartBookmark "value"

type_synonym log = "event list"

type_synonym row_outcome = "unit fres"

record stream_page =
  sp_records :: "value list"
  sp_bookmark :: "value option"

text \<open>A batch of the columnar stream: its rows, what it converts to, its bookmark. A batch of wire bytes.\<close>

record columnar_page =
  cp_num_rows :: nat
  cp_values :: "value list fres"
  cp_bookmark :: "value option"

record native_batch =
  nb_records :: "nat option"
  nb_bookmark :: "value option"

record env =
  sk_name :: string
  sk_is_overwrite :: bool
  sk_supports_idempotent_writes :: bool
  sk_dedups_by_key :: bool
  sk_replay_safe :: bool
  sk_current_schema :: "log \<Rightarrow> value option fres"
  sk_evolve_schema :: "log \<Rightarrow> unit fres"
  sk_admit_page :: "log \<Rightarrow> unit fres"
  sk_write_governed :: "log \<Rightarrow> write_report fres"
  sk_write_batch_partial :: "log \<Rightarrow> row_outcome list fres"
  sk_write_idempotent :: "log \<Rightarrow> write_report fres"
  sk_last_committed_token :: "log \<Rightarrow> string option fres"
  sk_flush :: "log \<Rightarrow> unit fres"
  dq_replay_safe :: bool
  dq_write_reported :: "log \<Rightarrow> write_report fres"
  dq_flush :: "log \<Rightarrow> unit fres"
  ss_put :: "log \<Rightarrow> unit fres"
  pg_next :: "log \<Rightarrow> stream_page fres option"
  pg_cancel_wins :: "log \<Rightarrow> bool"
  pg_is_cancelled :: "log \<Rightarrow> bool"
  ck_slept :: "log \<Rightarrow> bool"
  ck_jitter :: "log \<Rightarrow> u32 \<times> u64"
  ck_elapsed :: "log \<Rightarrow> duration"
  ck_millis :: "log \<Rightarrow> nat option"
  env_redact :: "string \<Rightarrow> string"
  cb_next :: "log \<Rightarrow> columnar_page fres option"
  cb_encode :: "log \<Rightarrow> value list \<Rightarrow> nat fres"
  sk_write_columnar :: "log \<Rightarrow> nat fres"
  nb_next :: "log \<Rightarrow> native_batch fres option"
  sk_load_native :: "log \<Rightarrow> nat fres"
  sk_begin_overwrite :: "log \<Rightarrow> unit fres"
  sk_commit_overwrite :: "log \<Rightarrow> unit fres"
  sk_abort_overwrite :: "log \<Rightarrow> unit fres"
  sk_complete_run :: "log \<Rightarrow> unit fres"
  sk_cleanup_scope :: "log \<Rightarrow> nat fres"
  ss_get :: "log \<Rightarrow> value option fres"
  so_apply_start_bookmark :: "log \<Rightarrow> unit fres"

text \<open>
  An environment that accepts everything and whose stream ends at once: the starting point of concrete
  runs. A sink reports every row of the page it was called with.
\<close>

fun rows_of :: "log \<Rightarrow> nat" where
  "rows_of (SinkWrite rs # l) = length rs"
| "rows_of (SinkPartial rs # l) = length rs"
| "rows_of (SinkIdempotent rs scope token # l) = length rs"
| "rows_of (DlqWrite rs # l) = length rs"
| "rows_of (SinkColumnar rs n # l) = n"
| "rows_of (SinkNative n first # l) = (case n of Some k \<Rightarrow> k | None \<Rightarrow> 0)"
| "rows_of l = 0"

definition quiet_env :: env where
  "quiet_env =
     \<lparr> sk_name = ''sink'', sk_is_overwrite = False, sk_supports_idempotent_writes = False, sk_dedups_by_key = False,
       sk_replay_safe = False, sk_current_schema = (\<lambda>l. Ok None), sk_evolve_schema = (\<lambda>l. Ok ()),
       sk_admit_page = (\<lambda>l. Ok ()), sk_write_governed = (\<lambda>l. Ok (WriteReport_accepted (rows_of l))),
       sk_write_batch_partial = (\<lambda>l. Ok (replicate (rows_of l) (Ok ()))),
       sk_write_idempotent = (\<lambda>l. Ok (WriteReport_accepted (rows_of l))),
       sk_last_committed_token = (\<lambda>l. Ok None), sk_flush = (\<lambda>l. Ok ()), dq_replay_safe = False,
       dq_write_reported = (\<lambda>l. Ok (WriteReport_accepted (rows_of l))), dq_flush = (\<lambda>l. Ok ()), ss_put = (\<lambda>l. Ok ()),
       pg_next = (\<lambda>l. None), pg_cancel_wins = (\<lambda>l. False), pg_is_cancelled = (\<lambda>l. False), ck_slept = (\<lambda>l. True),
       ck_jitter = (\<lambda>l. (0, 0)), ck_elapsed = (\<lambda>l. 0), ck_millis = (\<lambda>l. Some 0), env_redact = (\<lambda>s. s),
       cb_next = (\<lambda>l. None), cb_encode = (\<lambda>l rs. Ok (length rs)), sk_write_columnar = (\<lambda>l. Ok (rows_of l)),
       nb_next = (\<lambda>l. None), sk_load_native = (\<lambda>l. Ok (rows_of l)), sk_begin_overwrite = (\<lambda>l. Ok ()),
       sk_commit_overwrite = (\<lambda>l. Ok ()), sk_abort_overwrite = (\<lambda>l. Ok ()), sk_complete_run = (\<lambda>l. Ok ()),
       sk_cleanup_scope = (\<lambda>l. Ok 0), ss_get = (\<lambda>l. Ok None), so_apply_start_bookmark = (\<lambda>l. Ok ()) \<rparr>"

section \<open>Operations with state and errors\<close>

type_synonym ('s, 'a) op = "'s \<Rightarrow> 'a fres \<times> 's"

definition ret :: "'a \<Rightarrow> ('s, 'a) op" where
  "ret x = (\<lambda>s. (Ok x, s))"

definition throw :: "faucet_error \<Rightarrow> ('s, 'a) op" where
  "throw e = (\<lambda>s. (Err e, s))"

definition op_bind :: "('s, 'a) op \<Rightarrow> ('a \<Rightarrow> ('s, 'b) op) \<Rightarrow> ('s, 'b) op" where
  "op_bind m f = (\<lambda>s. case m s of (Ok x, s') \<Rightarrow> f x s' | (Err e, s') \<Rightarrow> (Err e, s'))"

definition op_seq :: "('s, 'a) op \<Rightarrow> ('s, 'b) op \<Rightarrow> ('s, 'b) op" where
  "op_seq m m' = op_bind m (\<lambda>_. m')"

definition modify :: "('s \<Rightarrow> 's) \<Rightarrow> ('s, unit) op" where
  "modify f = (\<lambda>s. (Ok (), f s))"

definition gets :: "('s \<Rightarrow> 'a) \<Rightarrow> ('s, 'a) op" where
  "gets f = (\<lambda>s. (Ok (f s), s))"

definition op_map_err :: "(faucet_error \<Rightarrow> faucet_error) \<Rightarrow> ('s, 'a) op \<Rightarrow> ('s, 'a) op" where
  "op_map_err f m = (\<lambda>s. case m s of (r, s') \<Rightarrow> (map_err f r, s'))"

text \<open>The result as a value: nothing is propagated.\<close>

definition attempt :: "('s, 'a) op \<Rightarrow> ('s, 'a fres) op" where
  "attempt m = (\<lambda>s. case m s of (r, s') \<Rightarrow> (Ok r, s'))"

definition lift_result :: "'a fres \<Rightarrow> ('s, 'a) op" where
  "lift_result r = (\<lambda>s. (r, s))"

text \<open>A call: the event is logged and the environment answers knowing the history.\<close>

definition perform :: "event \<Rightarrow> (log \<Rightarrow> 'a fres) \<Rightarrow> (log, 'a) op" where
  "perform ev respond = (\<lambda>l. (respond (ev # l), ev # l))"

section \<open>The write gateway (\<open>governance/write.rs\<close>)\<close>

definition gate_reported :: "env \<Rightarrow> value list \<Rightarrow> (log, write_report) op" where
  "gate_reported env page = perform (SinkWrite page) (sk_write_governed env)"

definition gate_partial :: "env \<Rightarrow> value list \<Rightarrow> (log, row_outcome list) op" where
  "gate_partial env page = perform (SinkPartial page) (sk_write_batch_partial env)"

definition gate_admit :: "env \<Rightarrow> value list \<Rightarrow> (log, unit) op" where
  "gate_admit env page = perform (SinkAdmit page) (sk_admit_page env)"

definition gate_idempotent :: "env \<Rightarrow> value list \<Rightarrow> string \<Rightarrow> string \<Rightarrow> (log, write_report) op" where
  "gate_idempotent env page scope token = perform (SinkIdempotent page scope token) (sk_write_idempotent env)"

definition gate_dlq :: "env \<Rightarrow> value list \<Rightarrow> (log, nat) op" where
  "gate_dlq env envelopes =
     op_bind (perform (DlqWrite envelopes) (dq_write_reported env)) (\<lambda>report.
       if usize_saturating_add (wr_accepted report) (wr_coalesced report) < length envelopes
       then throw (RowsUnaccounted (length envelopes) (wr_accepted report))
       else ret (wr_accepted report))"

definition gate_columnar :: "env \<Rightarrow> value list option \<Rightarrow> nat \<Rightarrow> (log, nat) op" where
  "gate_columnar env governed rows = perform (SinkColumnar governed rows) (sk_write_columnar env)"

definition gate_native :: "env \<Rightarrow> nat option \<Rightarrow> bool \<Rightarrow> (log, nat) op" where
  "gate_native env records first_batch = perform (SinkNative records first_batch) (sk_load_native env)"

definition sink_flush :: "env \<Rightarrow> (log, unit) op" where
  "sink_flush env = perform SinkFlush (sk_flush env)"

definition dlq_flush :: "env \<Rightarrow> (log, unit) op" where
  "dlq_flush env = perform DlqFlush (dq_flush env)"

definition state_put :: "env \<Rightarrow> string \<Rightarrow> value \<Rightarrow> (log, unit) op" where
  "state_put env key v = perform (StatePut key v) (ss_put env)"

definition read_token :: "env \<Rightarrow> string \<Rightarrow> (log, string option) op" where
  "read_token env scope = perform (SinkToken scope) (sk_last_committed_token env)"

text \<open>The clock of the retry runner.\<close>

definition log_retry_env :: "env \<Rightarrow> log retry_env" where
  "log_retry_env env =
     \<lparr> re_sleep = (\<lambda>d l. (ck_slept env (Sleep d # l), Sleep d # l)),
       re_clock = (\<lambda>l. (ck_jitter env (Clock # l), Clock # l)) \<rparr>"

section \<open>Triples\<close>

text \<open>
  From a state with \<open>P\<close>, an operation that succeeds with \<open>x\<close> ends in a state with \<open>Q x\<close>, one that fails
  in a state with \<open>E\<close>. Operations are total, so a triple also says that they end.
\<close>

named_theorems triples

definition triple :: "('s \<Rightarrow> bool) \<Rightarrow> ('s, 'a) op \<Rightarrow> ('a \<Rightarrow> 's \<Rightarrow> bool) \<Rightarrow> ('s \<Rightarrow> bool) \<Rightarrow> bool" where
  "triple P m Q E \<longleftrightarrow>
     (\<forall>s. P s \<longrightarrow> (case m s of (Ok x, s') \<Rightarrow> Q x s' | (Err e, s') \<Rightarrow> E s'))"

lemma tripleI:
  "(\<And>s x s'. P s \<Longrightarrow> m s = (Ok x, s') \<Longrightarrow> Q x s') \<Longrightarrow> (\<And>s e s'. P s \<Longrightarrow> m s = (Err e, s') \<Longrightarrow> E s') \<Longrightarrow>
   triple P m Q E"
  by (auto simp: triple_def split: prod.split sum.split)

lemma triple_Ok: "triple P m Q E \<Longrightarrow> P s \<Longrightarrow> m s = (Ok x, s') \<Longrightarrow> Q x s'"
  by (auto simp: triple_def split: prod.splits)

lemma triple_Err: "triple P m Q E \<Longrightarrow> P s \<Longrightarrow> m s = (Err e, s') \<Longrightarrow> E s'"
  by (auto simp: triple_def split: prod.splits)

lemma triple_weaken:
  assumes "triple P' m Q' E'" "\<And>s. P s \<Longrightarrow> P' s" "\<And>x s. Q' x s \<Longrightarrow> Q x s" "\<And>s. E' s \<Longrightarrow> E s"
  shows "triple P m Q E"
  using assms unfolding triple_def by (fastforce split: prod.splits sum.splits)

lemma triple_ret: "(\<And>s. P s \<Longrightarrow> Q x s) \<Longrightarrow> triple P (ret x) Q E"
  by (simp add: triple_def ret_def)

lemma triple_throw: "(\<And>s. P s \<Longrightarrow> E s) \<Longrightarrow> triple P (throw e) Q E"
  by (simp add: triple_def throw_def)

lemma triple_bind:
  assumes "triple P m R E" "\<And>x. triple (R x) (f x) Q E"
  shows "triple P (op_bind m f) Q E"
  using assms unfolding triple_def op_bind_def by (fastforce split: prod.splits sum.splits)

lemma triple_seq: "triple P m (\<lambda>_. R) E \<Longrightarrow> triple R m' Q E \<Longrightarrow> triple P (op_seq m m') Q E"
  unfolding op_seq_def by (rule triple_bind)

lemma triple_modify: "(\<And>s. P s \<Longrightarrow> Q () (f s)) \<Longrightarrow> triple P (modify f) Q E"
  by (simp add: triple_def modify_def)

lemma triple_gets: "(\<And>s. P s \<Longrightarrow> Q (f s) s) \<Longrightarrow> triple P (gets f) Q E"
  by (simp add: triple_def gets_def)

lemma triple_if: "(b \<Longrightarrow> triple P m Q E) \<Longrightarrow> (\<not> b \<Longrightarrow> triple P m' Q E) \<Longrightarrow> triple P (if b then m else m') Q E"
  by simp

lemma triple_lift: "(\<And>s x. P s \<Longrightarrow> r = Ok x \<Longrightarrow> Q x s) \<Longrightarrow> (\<And>s. P s \<Longrightarrow> E s) \<Longrightarrow> triple P (lift_result r) Q E"
  by (auto simp: triple_def lift_result_def split: sum.split)

lemma triple_map_err: "triple P m Q E \<Longrightarrow> triple P (op_map_err f m) Q E"
  unfolding triple_def op_map_err_def by (fastforce split: prod.splits sum.splits)

lemma triple_attempt:
  assumes "triple P m R E"
    "\<And>x s. R x s \<Longrightarrow> Q (Ok x) s" "\<And>e s. E s \<Longrightarrow> Q (Err e) s"
  shows "triple P (attempt m) Q E'"
proof (rule tripleI)
  fix s x s' assume "P s" "attempt m s = (Ok x, s')"
  then show "Q x s'"
    using assms(2,3) triple_Ok [OF assms(1)] triple_Err [OF assms(1)]
    by (cases x) (auto simp: attempt_def split: prod.splits)
qed (auto simp: attempt_def split: prod.splits)

lemma triple_perform: "(\<And>l. P l \<Longrightarrow> E (ev # l)) \<Longrightarrow> (\<And>l x. P l \<Longrightarrow> respond (ev # l) = Ok x \<Longrightarrow> Q x (ev # l)) \<Longrightarrow>
   triple P (perform ev respond) Q E"
  by (auto simp: triple_def perform_def split: sum.split)

text \<open>The retry runner keeps what every attempt and every wait keeps.\<close>

lemma retry_wait_inv:
  assumes "retry_wait p env e n s = (d, s')" "P s" "\<And>s c s'. P s \<Longrightarrow> re_clock env s = (c, s') \<Longrightarrow> P s'"
  shows "P s'"
  using assms by (cases e) (auto simp: retry_wait_def Let_def split: if_splits prod.splits)

lemma run_loop_triple:
  assumes op: "triple P m Q P"
    and sleep: "\<And>s d b s'. P s \<Longrightarrow> re_sleep env d s = (b, s') \<Longrightarrow> P s'"
    and clock: "\<And>s c s'. P s \<Longrightarrow> re_clock env s = (c, s') \<Longrightarrow> P s'"
  shows "P s \<Longrightarrow> (case run_loop p env None m rl n s of (Ok x, s') \<Rightarrow> Q x s' | (Err e, s') \<Rightarrow> P s')"
proof (induction rl n s rule: run_loop_induction [where B = 0 and M = "max_attempts_of p"])
  case (1 rl n s)
  obtain outcome s1 where m: "m s = (outcome, s1)" by (cases "m s")
  have none: "rate_limit_wait None outcome = None" by (simp add: rate_limit_wait_def)
  show ?case
  proof (cases outcome)
    case (Inr x)
    with m none triple_Ok [OF op 1(3)] show ?thesis by (subst run_loop.simps) simp
  next
    case (Inl e)
    with m have P1: "P s1" using triple_Err [OF op 1(3)] by blast
    show ?thesis
    proof (rule run_loop_cases [of m s, OF m, of p env None rl n], goal_cases stop limited retry)
      case (stop s2)
      then have "P s2" using P1 sleep retry_wait_inv [of p env _ n s1 _ _ P] clock by blast
      with stop(1) Inl show ?thesis by simp
    next
      case (limited wait s2)
      with none show ?thesis by simp
    next
      case (retry e' wait s2 s3)
      have "P s2" using retry(5) P1 clock by (rule retry_wait_inv)
      then have "P s3" using retry(6) sleep by (auto split: if_splits)
      with 1(2) [OF retry(4), of s3] retry(7) show ?thesis by simp
    qed
  qed
qed

lemma execute_with_policy_triple:
  assumes "triple P m Q P"
    and "\<And>s d b s'. P s \<Longrightarrow> re_sleep env d s = (b, s') \<Longrightarrow> P s'"
    and "\<And>s c s'. P s \<Longrightarrow> re_clock env s = (c, s') \<Longrightarrow> P s'"
  shows "triple P (execute_with_policy p env m) Q P"
  unfolding triple_def execute_with_policy_def run_with_policy_def
proof (intro allI impI)
  fix s assume "P s"
  show "case run_loop p env None m 0 0 s of (Inl e, s') \<Rightarrow> P s' | (Inr x, s') \<Rightarrow> Q x s'"
    by (rule run_loop_triple [where P = P and Q = Q and m = m and env = env, OF assms(1) _ _ \<open>P s\<close>])
       (use assms(2,3) in blast)+
qed

end
