(* ===== verification/Governance.thy ===== *)
theory Governance
  imports Engine
begin

section \<open>Governance of a page\<close>

text \<open>
  The passes every page goes through before it is written (\<open>governance/apply.rs\<close>) and the typestate of
  a governed page (\<open>governance/page.rs\<close>). Quality, contract and drift are the models of their own
  theories; the masking rules are a function on records here. Metrics, log lines and the one-shot
  warning latches that only gate log lines of the pure passes are left out, but for the latches of the
  cross-page state, which are kept.
\<close>

record governance_specs =
  gs_masking :: "(value \<Rightarrow> value) option"
  gs_quality :: "compiled_quality option"
  gs_contract :: "compiled_contract option"
  gs_schema_drift :: "schema_drift_policy option"
  gs_pipeline :: string
  gs_row :: string
  gs_has_dlq :: bool
  gs_quality_libs :: quality_libs
  gs_contract_libs :: contract_libs

definition clearance :: "governance_specs \<Rightarrow> bool" where
  "clearance specs =
     (gs_schema_drift specs = None \<and> gs_masking specs = None \<and> gs_quality specs = None \<and> gs_contract specs = None)"

record governance_state =
  gv_dest_schema_cache :: "value option option"
  gv_warned_drift_inert :: bool
  gv_warned_drift :: bool
  gv_warned_contract_breach :: bool

definition GovernanceState_default :: governance_state where
  "GovernanceState_default =
     \<lparr> gv_dest_schema_cache = None, gv_warned_drift_inert = False, gv_warned_drift = False,
       gv_warned_contract_breach = False \<rparr>"

record governance_outcome =
  go_records :: "value list"
  go_envelopes :: "value list"
  go_deferred_abort :: "faucet_error option"

text \<open>The state of the passes: what they carry across pages, and the log.\<close>

type_synonym gov_world = "governance_state \<times> log"

definition on_log :: "(log, 'a) op \<Rightarrow> (gov_world, 'a) op" where
  "on_log m = (\<lambda>(g, l). case m l of (r, l') \<Rightarrow> (r, (g, l')))"

definition on_gov :: "(governance_state \<Rightarrow> governance_state) \<Rightarrow> (gov_world, unit) op" where
  "on_gov f = modify (\<lambda>(g, l). (f g, l))"

text \<open>An envelope of the run: the clock and the redactor of the environment, the run's names.\<close>

definition envelope_of ::
    "env \<Rightarrow> governance_specs \<Rightarrow> log \<Rightarrow> dlq_reason \<Rightarrow> value \<Rightarrow> faucet_error \<Rightarrow> nat \<Rightarrow> value" where
  "envelope_of env specs l reason rec err index =
     build_envelope (env_redact env) (ck_millis env l) rec err reason (sk_name env)
       (gs_pipeline specs) (gs_row specs) index"

subsection \<open>Masking, quality and contract\<close>

definition masking_pass :: "governance_specs \<Rightarrow> value list \<Rightarrow> value list" where
  "masking_pass specs records = (case gs_masking specs of None \<Rightarrow> records | Some m \<Rightarrow> map m records)"

text \<open>The result of a removing pass: survivors, envelopes, and the survivors' page positions.\<close>

type_synonym pass_result = "value list \<times> value list \<times> nat list"

definition quality_pass_step ::
    "env \<Rightarrow> governance_specs \<Rightarrow> log \<Rightarrow> value list \<Rightarrow> pass_result fres" where
  "quality_pass_step env specs l records =
     (case gs_quality specs of
        None \<Rightarrow> Ok (records, [], [0..<length records])
      | Some q \<Rightarrow>
          (case apply_quality (gs_quality_libs specs) records q of
             Err e \<Rightarrow> Err e
           | Ok out \<Rightarrow>
               Ok (qo_survivors out,
                   map (\<lambda>qr. envelope_of env specs l ReasonQuality (qr_record qr)
                          (QualityFailure (qr_check qr) (qr_message qr)) (qr_page_index qr)) (qo_quarantined out),
                   filter (\<lambda>i. i \<notin> set (map qr_page_index (qo_quarantined out))) [0..<length records])))"

definition translate :: "nat list \<Rightarrow> nat \<Rightarrow> nat" where
  "translate page_indices i = (if i < length page_indices then page_indices ! i else i)"

definition contract_envelope ::
    "env \<Rightarrow> governance_specs \<Rightarrow> log \<Rightarrow> compiled_contract \<Rightarrow> nat list \<Rightarrow> value \<times> contract_violation \<Rightarrow> value" where
  "contract_envelope env specs l c page_indices = (\<lambda>(rec, v).
     envelope_of env specs l ReasonContract rec (ContractViolation (cc_version c) (describe v))
       (translate page_indices (cv_page_index v)))"

definition contract_pass_step ::
    "env \<Rightarrow> governance_specs \<Rightarrow> value list \<Rightarrow> nat list \<Rightarrow> (gov_world, pass_result) op" where
  "contract_pass_step env specs records page_indices =
     (case gs_contract specs of
        None \<Rightarrow> ret (records, [], page_indices)
      | Some c \<Rightarrow>
          op_bind (lift_result (apply_contract (gs_contract_libs specs) records c)) (\<lambda>out.
          op_bind (on_gov (\<lambda>g. if co_warned out \<noteq> [] then g \<lparr> gv_warned_contract_breach := True \<rparr> else g)) (\<lambda>_.
          op_bind (gets snd) (\<lambda>l.
            ret (co_survivors out,
                 map (contract_envelope env specs l c page_indices) (co_quarantined out),
                 map snd (filter (\<lambda>(pos, _). pos \<notin> set (map (\<lambda>(_, v). cv_page_index v) (co_quarantined out)))
                   (zip [0..<length page_indices] page_indices)))))))"

subsection \<open>Schema drift\<close>

definition row_exhibits_drift :: "schema_diff \<Rightarrow> value \<Rightarrow> bool" where
  "row_exhibits_drift diff rec =
     (let present = map cc_name (sd_additions diff);
          typed = List.map_filter (\<lambda>c. map_option (\<lambda>dest. (cc_name c, dest)) (cc_from c))
                    (sd_widenings diff @ sd_incompatible diff)
      in case as_object rec of
           None \<Rightarrow> False
         | Some m \<Rightarrow>
             list_ex (\<lambda>k. k \<in> set present) (map fst m)
             \<or> list_ex (\<lambda>(name, dest). case map_of m name of
                          Some v \<Rightarrow> \<not> value_fits dest name v | None \<Rightarrow> False) typed
             \<or> list_ex (\<lambda>c. map_of m c = None) (sd_droppable_required diff))"

fun quarantine_rows ::
    "env \<Rightarrow> governance_specs \<Rightarrow> log \<Rightarrow> schema_diff \<Rightarrow> nat list \<Rightarrow> nat \<Rightarrow> value list \<Rightarrow> value list \<times> value list" where
  "quarantine_rows env specs l diff page_indices idx [] = ([], [])"
| "quarantine_rows env specs l diff page_indices idx (rec # records) =
     (let (kept, envelopes) = quarantine_rows env specs l diff page_indices (Suc idx) records in
      if row_exhibits_drift diff rec
      then (kept,
            envelope_of env specs l ReasonSchemaDrift rec
              (SchemaDrift (changed_columns diff) ''row exhibits schema drift (on_drift=quarantine)'')
              (translate page_indices idx) # envelopes)
      else (rec # kept, envelopes))"

definition quarantine_drift_rows ::
    "env \<Rightarrow> governance_specs \<Rightarrow> log \<Rightarrow> schema_diff \<Rightarrow> value list \<Rightarrow> nat list \<Rightarrow> value list \<times> value list" where
  "quarantine_drift_rows env specs l diff records page_indices =
     quarantine_rows env specs l diff page_indices 0 records"

definition trim_unknown :: "value \<Rightarrow> value \<Rightarrow> value" where
  "trim_unknown dest rec =
     (let allowed = (case Option.bind (value_get ''properties'' dest) as_object of
                       Some m \<Rightarrow> map fst m | None \<Rightarrow> [])
      in case rec of
           Object m \<Rightarrow> Object (filter (\<lambda>(k, _). k \<in> set allowed) m)
         | other \<Rightarrow> other)"

definition evolution_of :: "schema_drift_policy \<Rightarrow> schema_diff \<Rightarrow> schema_evolution" where
  "evolution_of policy diff =
     \<lparr> sv_additions = sd_additions diff,
       sv_widenings = filter (\<lambda>c. case cc_from c of Some f \<Rightarrow> base_widened f (cc_to c) | None \<Rightarrow> False)
         (sd_widenings diff),
       sv_relax_nullability =
         (if dp_relax_nullability_on_missing policy then sd_droppable_required diff else [])
         @ map cc_name (filter (\<lambda>c. case cc_from c of Some f \<Rightarrow> adds_null f (cc_to c) | None \<Rightarrow> False)
             (sd_widenings diff)) \<rparr>"

text \<open>The records that stay, the drift envelopes, and the abort to raise later.\<close>

type_synonym drift_result = "value list \<times> value list \<times> faucet_error option"

definition refresh_schema :: "env \<Rightarrow> (gov_world, unit) op" where
  "refresh_schema env =
     op_bind (on_log (perform SinkSchema (sk_current_schema env))) (\<lambda>schema.
       on_gov (\<lambda>g. g \<lparr> gv_dest_schema_cache := Some schema \<rparr>))"

definition drift_quarantine ::
    "env \<Rightarrow> governance_specs \<Rightarrow> schema_diff \<Rightarrow> value list \<Rightarrow> nat list \<Rightarrow> (gov_world, drift_result) op" where
  "drift_quarantine env specs diff records page_indices =
     op_bind (gets snd) (\<lambda>l.
       case quarantine_drift_rows env specs l diff records page_indices of
         (kept, envelopes) \<Rightarrow> ret (kept, envelopes, None))"

definition apply_drift_policy ::
    "env \<Rightarrow> governance_specs \<Rightarrow> schema_drift_policy \<Rightarrow> schema_diff \<Rightarrow> value \<Rightarrow> value list \<Rightarrow> nat list
     \<Rightarrow> (gov_world, drift_result) op" where
  "apply_drift_policy env specs policy diff dest records page_indices =
     (case dp_on_drift policy of
        DriftWarn \<Rightarrow>
          op_bind (on_gov (\<lambda>g. g \<lparr> gv_warned_drift := True \<rparr>)) (\<lambda>_. ret (records, [], None))
      | DriftFail \<Rightarrow>
          ret (records, [], Some (SchemaDrift (changed_columns diff) ''schema drift detected (on_drift=fail)''))
      | DriftIgnore \<Rightarrow> ret (map (trim_unknown dest) records, [], None)
      | DriftQuarantine \<Rightarrow> drift_quarantine env specs diff records page_indices
      | DriftEvolve \<Rightarrow>
          (let evolution = evolution_of policy diff in
           op_bind
             (if evolution_is_empty evolution then ret ()
              else op_bind (on_log (perform (SinkEvolve evolution) (sk_evolve_schema env))) (\<lambda>_. refresh_schema env))
             (\<lambda>_. if sd_incompatible diff = [] then ret (records, [], None)
                  else (case dp_on_incompatible policy of
                          IncompatibleFail \<Rightarrow>
                            ret (records, [], Some (SchemaDrift (map cc_name (sd_incompatible diff))
                              ''incompatible type change cannot be auto-evolved (on_incompatible=fail)''))
                        | IncompatibleQuarantine \<Rightarrow>
                            drift_quarantine env specs (empty_diff \<lparr> sd_incompatible := sd_incompatible diff \<rparr>)
                              records page_indices))))"

definition drift_pass_step ::
    "env \<Rightarrow> governance_specs \<Rightarrow> value list \<Rightarrow> nat list \<Rightarrow> (gov_world, drift_result) op" where
  "drift_pass_step env specs records page_indices =
     (case gs_schema_drift specs of
        None \<Rightarrow> ret (records, [], None)
      | Some policy \<Rightarrow>
          if records = [] then ret (records, [], None)
          else
            op_bind (gets (gv_dest_schema_cache \<circ> fst)) (\<lambda>cache.
            op_bind (case cache of Some (Some _) \<Rightarrow> ret () | _ \<Rightarrow> refresh_schema env) (\<lambda>_.
            op_bind (gets (gv_dest_schema_cache \<circ> fst)) (\<lambda>cache.
              case Option.bind cache id of
                None \<Rightarrow>
                  op_bind (on_gov (\<lambda>g. g \<lparr> gv_warned_drift_inert := True \<rparr>)) (\<lambda>_. ret (records, [], None))
              | Some dest \<Rightarrow>
                  (let diff = diff_schema dest (infer_page_schema dest records) (dp_allow_widening policy) in
                   if diff_is_empty diff then ret (records, [], None)
                   else apply_drift_policy env specs policy diff dest records page_indices)))))"

definition apply_governance ::
    "env \<Rightarrow> governance_specs \<Rightarrow> value list \<Rightarrow> (gov_world, governance_outcome) op" where
  "apply_governance env specs records =
     op_bind (gets snd) (\<lambda>l.
     op_bind (lift_result (quality_pass_step env specs l (masking_pass specs records)))
       (\<lambda>(records1, quality_envelopes, indices1).
     op_bind (contract_pass_step env specs records1 indices1) (\<lambda>(records2, contract_envelopes, indices2).
     op_bind (drift_pass_step env specs records2 indices2) (\<lambda>(records3, drift_envelopes, drift_abort).
       case drift_abort of
         Some e \<Rightarrow>
           if gs_has_dlq specs
           then ret \<lparr> go_records = records3, go_envelopes = quality_envelopes @ contract_envelopes @ drift_envelopes,
                      go_deferred_abort = Some e \<rparr>
           else throw e
       | None \<Rightarrow>
           ret \<lparr> go_records = records3, go_envelopes = quality_envelopes @ contract_envelopes @ drift_envelopes,
                 go_deferred_abort = None \<rparr>))))"

subsection \<open>The governed page and its envelopes (\<open>governance/page.rs\<close>)\<close>

text \<open>
  A slice or a selection out of bounds panics: it is undefined here, and the engine only takes slices
  and selections within the page.
\<close>

definition page_slice :: "nat \<Rightarrow> nat \<Rightarrow> value list \<Rightarrow> value list" where
  "page_slice lo hi page = take (hi - lo) (drop lo page)"

definition page_select :: "nat list \<Rightarrow> value list \<Rightarrow> value list" where
  "page_select indices page = map (\<lambda>i. page ! i) indices"

definition push_failure :: "value list \<Rightarrow> nat \<Rightarrow> (value \<Rightarrow> value) \<Rightarrow> value list \<Rightarrow> value list" where
  "push_failure page index build envelopes = envelopes @ [build (page ! index)]"

definition prepend :: "value list \<Rightarrow> value list \<Rightarrow> value list" where
  "prepend earlier envelopes = earlier @ envelopes"

text \<open>A batch no record pass applies to may be handed through without being materialized.\<close>

definition batch_passthrough :: "bool \<Rightarrow> nat \<Rightarrow> unit fres" where
  "batch_passthrough cleared rows =
     (if \<not> cleared \<and> 0 < rows
      then Err (Config ''a columnar batch with a record governance pass configured must be governed before it is written'')
      else Ok ())"

subsection \<open>The dead-letter side of an abort\<close>

definition dlq_write_error :: "string \<Rightarrow> faucet_error \<Rightarrow> faucet_error" where
  "dlq_write_error context e =
     (case e of
        PolicyViolation _ _ _ \<Rightarrow> e
      | BudgetExceeded _ _ _ \<Rightarrow> e
      | RowsUnaccounted _ _ \<Rightarrow> e
      | _ \<Rightarrow> Sink (context @ '': '' @ error_display e))"

definition dlq_flush_error :: "faucet_error \<Rightarrow> faucet_error" where
  "dlq_flush_error e = Sink (''DLQ sink flush failed: '' @ error_display e)"

definition abort_with_envelopes :: "env \<Rightarrow> value list \<Rightarrow> (log, dlq_stats \<Rightarrow> dlq_stats) op" where
  "abort_with_envelopes env envelopes =
     (if envelopes = [] then ret id
      else op_bind (op_map_err (dlq_write_error ''DLQ sink write failed'') (gate_dlq env envelopes)) (\<lambda>_.
           op_bind (op_map_err dlq_flush_error (dlq_flush env)) (\<lambda>_.
           ret (\<lambda>stats. stats \<lparr> ds_records_dlq := ds_records_dlq stats + length envelopes,
                                 ds_pages_with_failures := ds_pages_with_failures stats + 1 \<rparr>))))"

section \<open>Lemmas\<close>

subsection \<open>Envelopes\<close>

text \<open>An envelope of a record at a page position, under some reason and error.\<close>

definition envelope_at :: "value \<Rightarrow> nat \<times> value \<Rightarrow> bool" where
  "envelope_at envelope = (\<lambda>(i, r).
     value_get ''payload'' envelope = Some r \<and> value_get ''record_index'' envelope = Some (value_of_nat i))"

lemma envelope_of_at: "envelope_at (envelope_of env specs l reason r err i) (i, r)"
  by (simp add: envelope_at_def envelope_of_def build_envelope_def)

lemma envelopes_at_map:
  "(\<And>x. x \<in> set xs \<Longrightarrow> envelope_at (f x) (g x)) \<Longrightarrow> list_all2 envelope_at (map f xs) (map g xs)"
  by (induction xs) auto

subsection \<open>The drift pass splits the page\<close>

definition drift_split :: "schema_diff \<Rightarrow> value list \<Rightarrow> value list \<times> removed" where
  "drift_split diff records =
     (filter (\<lambda>r. \<not> row_exhibits_drift diff r) records,
      filter (\<lambda>(i, r). row_exhibits_drift diff r) (zip [0..<length records] records))"

lemma quarantine_rows_split:
  "quarantine_rows env specs l diff pos k records =
     (filter (\<lambda>r. \<not> row_exhibits_drift diff r) records,
      map (\<lambda>(i, r). envelope_of env specs l ReasonSchemaDrift r
             (SchemaDrift (changed_columns diff) ''row exhibits schema drift (on_drift=quarantine)'')
             (translate pos i))
        (filter (\<lambda>(i, r). row_exhibits_drift diff r) (zip [k..<k + length records] records)))"
proof (induction records arbitrary: k)
  case (Cons r records)
  have up: "[k..<k + length (r # records)] = k # [Suc k..<Suc k + length records]"
    by (subst upt_conv_Cons) auto
  show ?case unfolding up by (simp add: Cons.IH [of "Suc k"])
qed simp

lemma kept_rows:
  "fst (quarantine_drift_rows env specs l diff records positions) = filter (\<lambda>r. \<not> row_exhibits_drift diff r) records"
  by (simp add: quarantine_drift_rows_def quarantine_rows_split)

lemma drift_split_snoc:
  "drift_split diff (records @ [r]) =
     (if row_exhibits_drift diff r
      then (fst (drift_split diff records), snd (drift_split diff records) @ [(length records, r)])
      else (fst (drift_split diff records) @ [r], snd (drift_split diff records)))"
  by (simp add: drift_split_def)

lemma drift_split_splits: "splits_page records (fst (drift_split diff records)) (snd (drift_split diff records))"
proof (induction records rule: rev_induct)
  case (snoc r records)
  from splits_page_keep [OF snoc, of r] splits_page_take [OF snoc, of r] show ?case by (simp add: drift_split_snoc)
qed (simp add: drift_split_def)

interpretation drift_pass: page_pass "\<lambda>records. Ok (drift_split diff records) :: (value list \<times> removed) fres" fst snd
  for diff
  by unfold_locales (use drift_split_splits in auto)

subsection \<open>One pass after the other\<close>

text \<open>What is known after some passes: the survivors, their positions, and an envelope per removed record.\<close>

definition pass_inv :: "value list \<Rightarrow> pass_result \<Rightarrow> removed \<Rightarrow> bool" where
  "pass_inv page = (\<lambda>(survivors, envelopes, positions) removed.
     splits_page page survivors removed
     \<and> positions = survivor_positions (length page) (set (map fst removed))
     \<and> list_all2 envelope_at envelopes removed)"

lemma pass_inv_lengths: "pass_inv page (survivors, envelopes, positions) removed \<Longrightarrow> length positions = length survivors"
  by (auto simp: pass_inv_def splits_page_def)

lemma pass_inv_start: "pass_inv page (page, [], [0..<length page]) []"
  by (simp add: pass_inv_def splits_page_def map_nth)

lemma pass_inv_step:
  assumes "pass_inv page (survivors, envelopes, positions) removed"
    and "splits_page survivors survivors' removed'"
    and "list_all2 envelope_at envelopes' (map (\<lambda>(i, r). (positions ! i, r)) removed')"
  shows "pass_inv page
    (survivors', envelopes @ envelopes',
     map ((!) positions) (survivor_positions (length positions) (set (map fst removed'))))
    (removed @ map (\<lambda>(i, r). (positions ! i, r)) removed')"
proof -
  from assms(1) have sp: "splits_page page survivors removed"
    and pos: "positions = survivor_positions (length page) (set (map fst removed))"
    and env: "list_all2 envelope_at envelopes removed" by (auto simp: pass_inv_def)
  show ?thesis
    unfolding pass_inv_def prod.case
    using splits_page_compose [OF sp assms(2) pos] list_all2_appendI [OF env assms(3)] by simp
qed

lemma survivors_by_position:
  "map snd (filter (\<lambda>(pos, _). pos \<notin> T) (zip [0..<length xs] xs)) = map ((!) xs) (survivor_positions (length xs) T)"
proof (induction xs rule: rev_induct)
  case (snoc x xs)
  have "map ((!) (xs @ [x])) (survivor_positions (length xs) T) = map ((!) xs) (survivor_positions (length xs) T)"
    by (auto simp: survivor_positions_bound nth_append)
  with snoc show ?case by (simp add: survivor_positions_Suc)
qed (simp add: survivor_positions_def)

lemma quality_step_inv:
  assumes "quality_pass_step env specs l page = Ok (survivors, envelopes, positions)"
  shows "\<exists>removed. pass_inv page (survivors, envelopes, positions) removed"
proof (cases "gs_quality specs")
  case None
  with assms pass_inv_start show ?thesis by (auto simp: quality_pass_step_def)
next
  case (Some q)
  with assms obtain out where out: "apply_quality (gs_quality_libs specs) page q = Ok out"
    and res: "survivors = qo_survivors out"
      "envelopes = map (\<lambda>qr. envelope_of env specs l ReasonQuality (qr_record qr)
         (QualityFailure (qr_check qr) (qr_message qr)) (qr_page_index qr)) (qo_quarantined out)"
      "positions = filter (\<lambda>i. i \<notin> set (map qr_page_index (qo_quarantined out))) [0..<length page]"
    by (auto simp: quality_pass_step_def split: sum.splits)
  have idx: "map fst (removed_of_quality out) = map qr_page_index (qo_quarantined out)"
    by (simp add: removed_of_quality_def)
  have "list_all2 envelope_at envelopes (removed_of_quality out)"
    unfolding res removed_of_quality_def by (rule envelopes_at_map) (rule envelope_of_at)
  with quality_pass.splits [OF out] res idx show ?thesis
    by (intro exI [of _ "removed_of_quality out"]) (simp only: pass_inv_def survivor_positions_def prod.case simp_thms)
qed

lemma contract_step_inv:
  assumes run: "contract_pass_step env specs survivors positions w = (Ok (survivors', envelopes', positions'), w')"
    and inv: "pass_inv page (survivors, envelopes, positions) removed"
  shows "\<exists>removed'. pass_inv page (survivors', envelopes @ envelopes', positions') removed'"
proof (cases "gs_contract specs")
  case None
  with run inv show ?thesis by (auto simp: contract_pass_step_def ret_def)
next
  case (Some c)
  from run Some obtain out where out: "apply_contract (gs_contract_libs specs) survivors c = Ok out"
    and res: "survivors' = co_survivors out"
      "\<exists>l. envelopes' = map (contract_envelope env specs l c positions) (co_quarantined out)"
      "positions' = map snd (filter (\<lambda>(pos, _). pos \<notin> set (map (\<lambda>(_, v). cv_page_index v) (co_quarantined out)))
         (zip [0..<length positions] positions))"
    by (auto simp: contract_pass_step_def op_bind_def lift_result_def on_gov_def modify_def gets_def ret_def
        split: sum.splits prod.splits)
  have idx: "map fst (removed_of_contract out) = map (\<lambda>(_, v). cv_page_index v) (co_quarantined out)"
    by (simp add: removed_of_contract_def case_prod_unfold)
  note sp = contract_pass.splits [OF out]
  have less: "cv_page_index v < length positions" if "(r, v) \<in> set (co_quarantined out)" for r v
    using that sp pass_inv_lengths [OF inv] by (force simp: splits_page_def removed_of_contract_def)
  have at: "list_all2 envelope_at envelopes' (map (\<lambda>(i, r). (positions ! i, r)) (removed_of_contract out))"
    using res(2) less envelope_of_at
    by (auto simp: removed_of_contract_def contract_envelope_def translate_def intro!: envelopes_at_map)
  show ?thesis
    using pass_inv_step [OF inv sp at] unfolding res(1,3) survivors_by_position idx [symmetric] by blast
qed

lemma drift_rows_inv:
  assumes inv: "pass_inv page (survivors, envelopes, positions) removed"
    and run: "quarantine_drift_rows env specs l diff survivors positions = (kept, envelopes')"
  shows "\<exists>removed' positions'. pass_inv page (kept, envelopes @ envelopes', positions') removed'"
proof -
  let ?out = "snd (drift_split diff survivors)"
  have split: "kept = fst (drift_split diff survivors)"
    "envelopes' = map (\<lambda>(i, r). envelope_of env specs l ReasonSchemaDrift r
       (SchemaDrift (changed_columns diff) ''row exhibits schema drift (on_drift=quarantine)'') (translate positions i)) ?out"
    using run by (auto simp: quarantine_drift_rows_def quarantine_rows_split drift_split_def)
  note sp = drift_split_splits [of survivors diff]
  have "list_all2 envelope_at envelopes' (map (\<lambda>(i, r). (positions ! i, r)) ?out)"
    unfolding split
  proof (rule envelopes_at_map)
    fix x assume x: "x \<in> set ?out"
    obtain i r where ir: "x = (i, r)" by (cases x)
    with x sp pass_inv_lengths [OF inv] have "i < length positions" by (auto simp: splits_page_def)
    with ir show "envelope_at (case x of (i, r) \<Rightarrow> envelope_of env specs l ReasonSchemaDrift r
        (SchemaDrift (changed_columns diff) ''row exhibits schema drift (on_drift=quarantine)'') (translate positions i))
        (case x of (i, r) \<Rightarrow> (positions ! i, r))"
      using envelope_of_at by (simp add: translate_def)
  qed
  from pass_inv_step [OF inv sp this] split(1) show ?thesis by blast
qed

lemmas op_defs = op_bind_def op_seq_def ret_def throw_def gets_def modify_def lift_result_def op_map_err_def
  attempt_def perform_def

lemma drift_quarantine_run:
  assumes "drift_quarantine env specs diff survivors positions w = (Ok (kept, envelopes', abort), w')"
  shows "\<exists>l. quarantine_drift_rows env specs l diff survivors positions = (kept, envelopes')"
  using assms by (auto simp: drift_quarantine_def op_defs split: prod.splits)

text \<open>What the drift policies do with the records: nothing, trimming under \<open>ignore\<close>, or quarantine.\<close>

lemma apply_drift_policy_run:
  assumes "apply_drift_policy env specs policy diff dest survivors positions w = (Ok (survivors', envelopes', abort), w')"
  shows "survivors' = survivors \<and> envelopes' = []
    \<or> survivors' = map (trim_unknown dest) survivors \<and> envelopes' = [] \<and> dp_on_drift policy = DriftIgnore
    \<or> (\<exists>l diff'. quarantine_drift_rows env specs l diff' survivors positions = (survivors', envelopes'))"
  using assms
  by (auto simp: apply_drift_policy_def op_bind_def ret_def Let_def
      split: on_drift.splits on_incompatible.splits if_splits sum.splits prod.splits dest: drift_quarantine_run)

lemma drift_step_run:
  assumes "drift_pass_step env specs survivors positions w = (Ok (survivors', envelopes', abort), w')"
  shows "survivors' = survivors \<and> envelopes' = []
    \<or> (\<exists>dest policy. survivors' = map (trim_unknown dest) survivors \<and> envelopes' = []
         \<and> gs_schema_drift specs = Some policy \<and> dp_on_drift policy = DriftIgnore)
    \<or> (\<exists>l diff'. quarantine_drift_rows env specs l diff' survivors positions = (survivors', envelopes'))"
proof (cases "gs_schema_drift specs")
  case (Some policy)
  with assms have "survivors' = survivors \<and> envelopes' = []
      \<or> (\<exists>diff dest w1. apply_drift_policy env specs policy diff dest survivors positions w1
           = (Ok (survivors', envelopes', abort), w'))"
    by (auto simp: drift_pass_step_def op_bind_def ret_def Let_def
        split: if_splits sum.splits prod.splits option.splits)
  then show ?thesis
  proof
    assume "\<exists>diff dest w1. apply_drift_policy env specs policy diff dest survivors positions w1
       = (Ok (survivors', envelopes', abort), w')"
    then show ?thesis using apply_drift_policy_run Some by blast
  qed simp
qed (use assms in \<open>auto simp: drift_pass_step_def ret_def\<close>)

text \<open>The records handed on are the survivors, trimmed to the destination's columns under \<open>ignore\<close>.\<close>

definition handed_on :: "governance_specs \<Rightarrow> value list \<Rightarrow> value list \<Rightarrow> bool" where
  "handed_on specs survivors records \<longleftrightarrow>
     records = survivors
     \<or> (\<exists>dest policy. gs_schema_drift specs = Some policy \<and> dp_on_drift policy = DriftIgnore
          \<and> records = map (trim_unknown dest) survivors)"

lemma apply_governance_parts:
  assumes "apply_governance env specs records w = (Ok out, w')"
  obtains s1 e1 p1 s2 e2 p2 w2 s3 e3 abort w3 where
    "quality_pass_step env specs (snd w) (masking_pass specs records) = Ok (s1, e1, p1)"
    "contract_pass_step env specs s1 p1 w = (Ok (s2, e2, p2), w2)"
    "drift_pass_step env specs s2 p2 w2 = (Ok (s3, e3, abort), w3)"
    "go_records out = s3" "go_envelopes out = e1 @ e2 @ e3" "go_deferred_abort out = abort"
    "abort \<noteq> None \<longrightarrow> gs_has_dlq specs"
  using assms
  by (auto simp: apply_governance_def op_defs split: sum.splits prod.splits option.splits if_splits)

lemma governance_splits:
  assumes "apply_governance env specs records w = (Ok out, w')"
  shows "\<exists>survivors removed. splits_page (masking_pass specs records) survivors removed
    \<and> handed_on specs survivors (go_records out)
    \<and> list_all2 envelope_at (go_envelopes out) removed"
proof -
  let ?page = "masking_pass specs records"
  from assms obtain s1 e1 p1 s2 e2 p2 w2 s3 e3 abort w3 where
    q: "quality_pass_step env specs (snd w) ?page = Ok (s1, e1, p1)" and
    c: "contract_pass_step env specs s1 p1 w = (Ok (s2, e2, p2), w2)" and
    d: "drift_pass_step env specs s2 p2 w2 = (Ok (s3, e3, abort), w3)" and
    out: "go_records out = s3" "go_envelopes out = e1 @ e2 @ e3"
    by (rule apply_governance_parts)
  from quality_step_inv [OF q] obtain r1 where i1: "pass_inv ?page (s1, e1, p1) r1" by blast
  from contract_step_inv [OF c i1] obtain r2 where i2: "pass_inv ?page (s2, e1 @ e2, p2) r2" by blast
  from drift_step_run [OF d] show ?thesis
  proof (elim disjE exE conjE)
    assume "s3 = s2" "e3 = []"
    with i2 out show ?thesis by (auto simp: pass_inv_def handed_on_def)
  next
    fix dest policy
    assume "s3 = map (trim_unknown dest) s2" "e3 = []" "gs_schema_drift specs = Some policy" "dp_on_drift policy = DriftIgnore"
    with i2 out show ?thesis by (auto simp: pass_inv_def handed_on_def)
  next
    fix l diff' assume "quarantine_drift_rows env specs l diff' s2 p2 = (s3, e3)"
    from drift_rows_inv [OF i2 this] out show ?thesis by (auto simp: pass_inv_def handed_on_def)
  qed
qed

lemma governance_accounts:
  assumes "apply_governance env specs records w = (Ok out, w')"
  shows "length (go_records out) + length (go_envelopes out) = length records"
proof -
  from governance_splits [OF assms] obtain survivors removed where
    "splits_page (masking_pass specs records) survivors removed" "handed_on specs survivors (go_records out)"
    "list_all2 envelope_at (go_envelopes out) removed" by blast
  with splits_page_counts [of "masking_pass specs records" survivors removed] show ?thesis
    by (auto simp: handed_on_def masking_pass_def list_all2_lengthD split: option.splits)
qed

subsection \<open>What drift quarantine keeps out\<close>

lemma exhibits_addition:
  "c \<in> set (sd_additions diff) \<Longrightarrow> map_of m (cc_name c) = Some v \<Longrightarrow> row_exhibits_drift diff (Object m)"
  by (force simp: row_exhibits_drift_def Let_def list_ex_iff dest: map_of_SomeD)

lemma exhibits_typed:
  assumes "c \<in> set (sd_widenings diff) \<union> set (sd_incompatible diff)" "cc_from c = Some d"
    and "map_of m (cc_name c) = Some v" "\<not> value_fits d (cc_name c) v"
  shows "row_exhibits_drift diff (Object m)"
proof -
  let ?typed = "List.map_filter (\<lambda>c. map_option (\<lambda>dest. (cc_name c, dest)) (cc_from c)) (sd_widenings diff @ sd_incompatible diff)"
  have "(cc_name c, d) \<in> set ?typed" using assms(1,2) by (force simp: List.map_filter_def)
  with assms(3,4) have "list_ex (\<lambda>(name, dest). case map_of m name of Some v \<Rightarrow> \<not> value_fits dest name v | None \<Rightarrow> False) ?typed"
    unfolding list_ex_iff by (intro bexI [of _ "(cc_name c, d)"]) simp_all
  then show ?thesis by (simp add: row_exhibits_drift_def Let_def)
qed

lemma exhibits_required:
  "k \<in> set (sd_droppable_required diff) \<Longrightarrow> map_of m k = None \<Longrightarrow> row_exhibits_drift diff (Object m)"
  by (auto simp: row_exhibits_drift_def Let_def list_ex_iff)

subsection \<open>A page to govern\<close>

definition sample_specs :: governance_specs where
  "sample_specs = \<lparr> gs_masking = Some (\<lambda>v. Null), gs_quality = None, gs_contract = None, gs_schema_drift = None,
     gs_pipeline = ''p'', gs_row = [], gs_has_dlq = True,
     gs_quality_libs = \<lparr> ql_is_match = (\<lambda>p s. p = s), ql_decimal_cmp = (\<lambda>a b. None), ql_schema_error = (\<lambda>s v. None),
       ql_canonical_json = (\<lambda>v. []), ql_show_value = (\<lambda>v. []), ql_show_rate = (\<lambda>x. []), ql_show_f64 = (\<lambda>x. []) \<rparr>,
     gs_contract_libs = sample_libs \<rparr>"

section \<open>Properties\<close>

text \<open>C9. Governance loses no record and shows none unmasked: every record of the masked page is either
  handed on, in order (trimmed to the destination's columns when drift is ignored), or is in exactly one
  dead-letter envelope that carries it verbatim with its true position in the page, whichever of the
  three passes took it out.\<close>

theorem governance_page_split:
  assumes "apply_governance env specs records w = (Ok out, w')"
  shows "\<exists>survivors removed. splits_page (masking_pass specs records) survivors removed
    \<and> handed_on specs survivors (go_records out)
    \<and> list_all2 envelope_at (go_envelopes out) removed
    \<and> length (go_records out) + length (go_envelopes out) = length records"
  using governance_splits [OF assms] governance_accounts [OF assms] by blast

theorem governance_page_split_witness:
  "\<exists>out w'. apply_governance quiet_env sample_specs [Null, Object [(''id'', Number (PosInt 7))]]
       (GovernanceState_default, []) = (Ok out, w')
     \<and> length (go_records out) + length (go_envelopes out) = 2"
proof -
  obtain out w' where run: "apply_governance quiet_env sample_specs [Null, Object [(''id'', Number (PosInt 7))]]
       (GovernanceState_default, []) = (Ok out, w')"
    by (simp add: apply_governance_def quality_pass_step_def contract_pass_step_def drift_pass_step_def sample_specs_def
        op_defs)
  from governance_page_split [OF run] have "length (go_records out) + length (go_envelopes out) = 2" by auto
  with run show ?thesis by blast
qed

text \<open>C10. What drift quarantine keeps fits the destination: every column of a kept record exists there
  and accepts its value, and a required column the record omits is one that another record of the page
  has (the difference then only reports it as nullable).\<close>

theorem drift_quarantine_sound:
  assumes dest: "Option.bind (value_get ''properties'' destination) as_object = Some dest_props"
    and kept: "Object m \<in> set (fst (quarantine_drift_rows env specs l
      (diff_schema destination (infer_page_schema destination records) allow_widening) records positions))"
  shows "(\<forall>k v. map_of m k = Some v \<longrightarrow> (\<exists>d. map_of dest_props k = Some d \<and> accepts d v))
    \<and> (\<forall>k d. map_of dest_props k = Some d \<and> \<not> snd (type_set d) \<and> map_of m k = None \<longrightarrow>
         (\<exists>m'. Object m' \<in> set records \<and> map_of m' k \<noteq> None))"
proof -
  let ?diff = "diff_schema destination (infer_page_schema destination records) allow_widening"
  let ?objs = "objects_of records"
  have dp: "extract_properties destination = dest_props" using dest by (simp add: extract_properties_def)
  from kept have m: "Object m \<in> set records" "\<not> row_exhibits_drift ?diff (Object m)"
    by (auto simp: quarantine_drift_rows_def quarantine_rows_split)
  have objs: "r \<in> set ?objs \<longleftrightarrow> Object r \<in> set records" for r
    by (force simp: objects_of_def List.map_filter_def)
  show ?thesis
  proof (intro conjI allI impI)
    fix k v assume v: "map_of m k = Some v"
    let ?t = "retype_column dest_props records k (infer_field ?objs k)"
    from v m(1) have "\<exists>r \<in> set ?objs. map_of r k \<noteq> None" using objs by force
    note mem = map_of_SomeD [OF page_column [OF dest this]]
    note members = diff_members [OF mem, of destination allow_widening, unfolded dp]
    obtain d where d: "map_of dest_props k = Some d"
    proof (cases "map_of dest_props k")
      case None
      then have "\<lparr> cc_name = k, cc_from = None, cc_to = ?t \<rparr> \<in> set (sd_additions ?diff)"
        using members(1) by (simp add: classify_column_def)
      from exhibits_addition [OF this] v m(2) show ?thesis by simp
    qed
    have "accepts d v"
    proof (cases "fits d ?t")
      case True
      with column_value_accepted [OF m(1) v d] show ?thesis by blast
    next
      case False
      then obtain c where "c \<in> set (sd_widenings ?diff) \<union> set (sd_incompatible ?diff)" "cc_from c = Some d" "cc_name c = k"
        using members(2,3) d
        by (cases "allow_widening \<and> evolvable d (without_also_accepted d ?t)") (fastforce simp: classify_column_def Let_def)+
      with exhibits_typed [of c ?diff d m v] m(2) v have "value_fits d k v" by blast
      then show ?thesis by (rule value_fits_accepts)
    qed
    with d show "\<exists>d. map_of dest_props k = Some d \<and> accepts d v" by blast
  next
    fix k d assume k: "map_of dest_props k = Some d \<and> \<not> snd (type_set d) \<and> map_of m k = None"
    then have "k \<notin> set (sd_droppable_required ?diff)" using exhibits_required [of k ?diff m] m(2) by blast
    with k diff_required [of destination k d "infer_page_schema destination records" allow_widening]
    have "k \<in> fst ` set (extract_properties (infer_page_schema destination records))" by (auto simp: dp)
    with page_column_absent objs show "\<exists>m'. Object m' \<in> set records \<and> map_of m' k \<noteq> None" by blast
  qed
qed

theorem drift_quarantine_sound_witness:
  "accepts (Object [(''type'', String ''integer'')]) (Number (PosInt 7))"
proof -
  let ?dest = "Object [(''properties'', Object [(''id'', Object [(''type'', String ''integer'')])])]"
  let ?rs = "[Object [(''id'', Number (PosInt 7))], Object [(''id'', String ''x'')]]"
  have "Option.bind (value_get ''properties'' ?dest) as_object = Some [(''id'', Object [(''type'', String ''integer'')])]"
    by simp
  moreover have "Object [(''id'', Number (PosInt 7))] \<in> set (fst (quarantine_drift_rows quiet_env sample_specs []
      (diff_schema ?dest (infer_page_schema ?dest ?rs) True) ?rs [0, 1]))"
    unfolding kept_rows by code_simp
  ultimately have "\<forall>k v. map_of [(''id'', Number (PosInt 7))] k = Some v \<longrightarrow>
      (\<exists>d. map_of [(''id'', Object [(''type'', String ''integer'')])] k = Some d \<and> accepts d v)"
    by (rule drift_quarantine_sound [THEN conjunct1])
  from this [rule_format, of "''id''"] show ?thesis by simp
qed


end
