(* ===== verification/State_Envelope.thy ===== *)
theory State_Envelope
  imports Faucet_Error
begin

section \<open>The versioned state envelope (\<open>crates/core/src/state_version.rs\<close>)\<close>

text \<open>
  The stored form of every bookmark: an object naming the envelope format, the connector that owns the
  shape of the payload and its shape version. This theory holds the data model, \<open>StoredState::parse\<close>,
  \<open>wrap_versioned\<close> and their readers; the compatibility check and the migration are in
  \<open>State_Version\<close>, which needs the exactly-once wrapper of \<open>Idempotency\<close>.
\<close>

definition STATE_FORMAT :: u32 where
  "STATE_FORMAT = 1"

definition FORMAT_KEY :: string where
  "FORMAT_KEY = ''faucet_state''"

definition OWNER_KEY :: string where
  "OWNER_KEY = ''owner''"

definition SCHEMA_KEY :: string where
  "SCHEMA_KEY = ''schema''"

definition DATA_KEY :: string where
  "DATA_KEY = ''data''"

record stored_state =
  ss_format :: u32
  ss_owner :: "string option"
  ss_schema :: u32
  ss_data :: "value"

text \<open>\<open>u32::try_from(n).unwrap_or(u32::MAX)\<close>\<close>

definition u32_try_from_or_max :: "u64 \<Rightarrow> u32" where
  "u32_try_from_or_max n = (if unat n < 2 ^ 32 then of_nat (unat n) else - 1)"

definition StoredState_parse :: "value \<Rightarrow> stored_state" where
  "StoredState_parse stored =
     (case (as_object stored,
            Option.bind (value_get FORMAT_KEY stored) as_u64,
            value_get DATA_KEY stored) of
        (Some m, Some fmt, Some data) \<Rightarrow>
          \<lparr> ss_format = u32_try_from_or_max fmt,
            ss_owner = Option.bind (map_of m OWNER_KEY) as_str,
            ss_schema = (case Option.bind (map_of m SCHEMA_KEY) as_u64 of
                           Some s \<Rightarrow> u32_try_from_or_max s
                         | None \<Rightarrow> 0),
            ss_data = data \<rparr>
      | _ \<Rightarrow> \<lparr> ss_format = 0, ss_owner = None, ss_schema = 0, ss_data = stored \<rparr>)"

definition is_legacy :: "stored_state \<Rightarrow> bool" where
  "is_legacy s = (ss_format s = 0)"

text \<open>\<open>Value::from(u32)\<close> widens to the unsigned 64-bit number.\<close>

definition value_of_u32 :: "u32 \<Rightarrow> value" where
  "value_of_u32 n = value_of_u64 (ucast n)"

definition wrap_versioned :: "string \<Rightarrow> u32 \<Rightarrow> value \<Rightarrow> value" where
  "wrap_versioned owner schema data =
     (let m = [];
          m = obj_insert FORMAT_KEY (value_of_u32 STATE_FORMAT) m;
          m = obj_insert OWNER_KEY (String owner) m;
          m = obj_insert SCHEMA_KEY (value_of_u32 schema) m;
          m = obj_insert DATA_KEY data m
      in Object m)"

definition peel_versioned :: "value \<Rightarrow> value" where
  "peel_versioned stored = ss_data (StoredState_parse stored)"

definition is_versioned :: "value \<Rightarrow> bool" where
  "is_versioned stored = (\<not> is_legacy (StoredState_parse stored))"

section \<open>Lemmas\<close>

lemmas envelope_keys = FORMAT_KEY_def OWNER_KEY_def SCHEMA_KEY_def DATA_KEY_def

lemma u32_try_from_ucast [simp]: "u32_try_from_or_max (ucast (n :: u32)) = n"
proof -
  have "unat (ucast n :: u64) = unat n" by (simp add: unsigned_ucast_eq take_bit_nat_eq_self
      order.strict_trans2 [OF unsigned_less])
  moreover have "unat n < 2 ^ 32" using unsigned_less [of n] by simp
  ultimately show ?thesis by (simp add: u32_try_from_or_max_def)
qed

lemma as_u64_value_of_u32 [simp]: "as_u64 (value_of_u32 n) = Some (ucast n)"
  by (simp add: value_of_u32_def)

lemma wrap_versioned_object:
  "wrap_versioned owner schema data =
     Object [(FORMAT_KEY, value_of_u32 STATE_FORMAT), (OWNER_KEY, String owner),
             (SCHEMA_KEY, value_of_u32 schema), (DATA_KEY, data)]"
  by (simp add: wrap_versioned_def Let_def obj_insert_def envelope_keys)

text \<open>Reading back an envelope gives the fields it was written with.\<close>

lemma parse_wrap_versioned [codec_simps]:
  "StoredState_parse (wrap_versioned owner schema data) =
     \<lparr> ss_format = STATE_FORMAT, ss_owner = Some owner, ss_schema = schema, ss_data = data \<rparr>"
proof -
  have "u32_try_from_or_max (ucast STATE_FORMAT) = STATE_FORMAT"
    by (rule u32_try_from_ucast)
  then show ?thesis
    by (simp add: wrap_versioned_object StoredState_parse_def envelope_keys)
qed

lemma peel_wrap_versioned [simp]: "peel_versioned (wrap_versioned owner schema data) = data"
  by (simp add: peel_versioned_def codec_simps)

lemma is_versioned_wrap [simp]: "is_versioned (wrap_versioned owner schema data)"
  by (simp add: is_versioned_def is_legacy_def codec_simps STATE_FORMAT_def)

text \<open>A value without the format key, or without a payload, is a legacy value read as it is.\<close>

lemma parse_legacy:
  assumes "Option.bind (value_get FORMAT_KEY v) as_u64 = None \<or> value_get DATA_KEY v = None"
  shows "StoredState_parse v = \<lparr> ss_format = 0, ss_owner = None, ss_schema = 0, ss_data = v \<rparr>"
  using assms by (auto simp: StoredState_parse_def split: option.splits)

lemma peel_legacy:
  "Option.bind (value_get FORMAT_KEY v) as_u64 = None \<Longrightarrow> peel_versioned v = v"
  by (simp add: peel_versioned_def parse_legacy)

end
