(* ===== verification/Idempotency.thy ===== *)
theory Idempotency
  imports State_Envelope
begin

section \<open>Delivery primitives (\<open>crates/core/src/idempotency.rs\<close>)\<close>

text \<open>
  Delivery modes and guarantees, commit tokens, the exactly-once state wrapper, overwrite run tokens
  with the abandonment test of a staging relation, and the watermark scope keys. Rendering a JSON value
  as text and parsing it back are the parameters \<open>json_print\<close> and \<open>json_parse\<close>, and the digest of the
  shortened scope key is the parameter \<open>sha256\<close>.
\<close>

unbundle bit_operations_syntax

subsection \<open>Modes and guarantees\<close>

datatype delivery_mode = AtLeastOnce | ExactlyOnce

datatype replay_guarantee = NonDeterministic | Deterministic

datatype sink_guarantee = SinkAtLeastOnce | SinkKeyedUpsert | SinkAtomicWatermark

datatype effectively_once_mechanism = AtomicWatermark | KeyedUpsert

datatype delivery_guarantee = GAtLeastOnce | EffectivelyOnce effectively_once_mechanism

fun delivery_guarantee_display :: "delivery_guarantee \<Rightarrow> string" where
  "delivery_guarantee_display GAtLeastOnce = ''at-least-once''"
| "delivery_guarantee_display (EffectivelyOnce AtomicWatermark) = ''effectively-once (atomic watermark)''"
| "delivery_guarantee_display (EffectivelyOnce KeyedUpsert) = ''effectively-once (keyed upsert)''"

record guarantee_inputs =
  gi_replay :: replay_guarantee
  gi_sink_atomic :: bool
  gi_keyed_upsert_configured :: bool
  gi_durable_state :: bool
  gi_dlq :: bool

definition derive_delivery_guarantee :: "guarantee_inputs \<Rightarrow> delivery_guarantee" where
  "derive_delivery_guarantee i =
     (if gi_sink_atomic i \<and> gi_replay i = Deterministic \<and> gi_durable_state i \<and> \<not> gi_dlq i
      then EffectivelyOnce AtomicWatermark
      else if gi_keyed_upsert_configured i then EffectivelyOnce KeyedUpsert
      else GAtLeastOnce)"

subsection \<open>Commit tokens\<close>

definition TOKEN_WIDTH :: nat where
  "TOKEN_WIDTH = 20"

definition TOKEN_BOOKMARK_SEP :: char where
  "TOKEN_BOOKMARK_SEP = CHR ''#''"

definition format_token :: "u64 \<Rightarrow> string" where
  "format_token seq = zero_pad TOKEN_WIDTH (show_nat (unat seq))"

definition format_token_with_bookmark :: "(value \<Rightarrow> string) \<Rightarrow> u64 \<Rightarrow> value option \<Rightarrow> string" where
  "format_token_with_bookmark json_print seq bookmark =
     (case bookmark of
        Some bm \<Rightarrow> zero_pad TOKEN_WIDTH (show_nat (unat seq)) @ [TOKEN_BOOKMARK_SEP] @ json_print bm
      | None \<Rightarrow> format_token seq)"

text \<open>\<open>s.trim().parse::<u64>().ok()\<close>\<close>

definition parse_seq :: "string \<Rightarrow> u64 option" where
  "parse_seq s = map_option of_nat (parse_u64 (trim s))"

definition parse_token :: "string \<Rightarrow> u64 option" where
  "parse_token s =
     (let seq = (case split_once TOKEN_BOOKMARK_SEP s of Some (prefix, _) \<Rightarrow> prefix | None \<Rightarrow> s)
      in parse_seq seq)"

definition parse_token_parts ::
    "(string \<Rightarrow> value option) \<Rightarrow> string \<Rightarrow> (u64 \<times> value option) option" where
  "parse_token_parts json_parse s =
     (case split_once TOKEN_BOOKMARK_SEP s of
        Some (prefix, suffix) \<Rightarrow> map_option (\<lambda>seq. (seq, json_parse suffix)) (parse_seq prefix)
      | None \<Rightarrow> map_option (\<lambda>seq. (seq, None)) (parse_seq s))"

subsection \<open>The exactly-once state wrapper\<close>

definition EO_MARKER :: string where
  "EO_MARKER = ''__faucet_eo''"

definition EO_BOOKMARK :: string where
  "EO_BOOKMARK = ''bookmark''"

definition EO_SEQ :: string where
  "EO_SEQ = ''seq''"

definition wrap_state :: "value option \<Rightarrow> u64 \<Rightarrow> value" where
  "wrap_state bookmark seq =
     Object [(EO_MARKER, value_of_u64 1),
             (EO_BOOKMARK, case bookmark of Some b \<Rightarrow> b | None \<Rightarrow> Null),
             (EO_SEQ, value_of_u64 seq)]"

definition is_eo_envelope :: "value \<Rightarrow> bool" where
  "is_eo_envelope v = (Option.bind (value_get EO_MARKER v) as_u64 = Some 1)"

definition unwrap_state :: "value \<Rightarrow> value option \<times> u64" where
  "unwrap_state stored =
     (let v = peel_versioned stored in
      if is_eo_envelope v
      then ((case value_get EO_BOOKMARK v of
               None \<Rightarrow> None
             | Some b \<Rightarrow> if is_null b then None else Some b),
            (case Option.bind (value_get EO_SEQ v) as_u64 of Some n \<Rightarrow> n | None \<Rightarrow> 0))
      else (if is_null v then None else Some v, 0))"

subsection \<open>Overwrite run tokens\<close>

definition OVERWRITE_STAGING_SUFFIX :: string where
  "OVERWRITE_STAGING_SUFFIX = ''__faucet_ovw''"

definition OVERWRITE_STAGING_OLD_SUFFIX :: string where
  "OVERWRITE_STAGING_OLD_SUFFIX = ''__faucet_ovw_old''"

definition OVERWRITE_RUN_KEY :: string where
  "OVERWRITE_RUN_KEY = ''_overwrite_run''"

definition OVERWRITE_RUN_TOKEN_LEN :: nat where
  "OVERWRITE_RUN_TOKEN_LEN = 14"

text \<open>In whole seconds.\<close>

definition ABANDONED_OVERWRITE_STAGING :: nat where
  "ABANDONED_OVERWRITE_STAGING = 7 * 24 * 60 * 60"

definition overwrite_run_token_at :: "u64 \<Rightarrow> string \<Rightarrow> string" where
  "overwrite_run_token_at secs random = zero_pad 8 (show_hex (unat (take_bit 32 secs))) @ random"

definition is_lower_hex :: "char \<Rightarrow> bool" where
  "is_lower_hex c = (is_ascii_digit c \<or> 97 \<le> ascii c \<and> ascii c \<le> (102::nat))"

definition is_overwrite_run_token :: "string \<Rightarrow> bool" where
  "is_overwrite_run_token token =
     (length token = OVERWRITE_RUN_TOKEN_LEN \<and> list_all is_lower_hex token)"

definition overwrite_run_started :: "string \<Rightarrow> nat option" where
  "overwrite_run_started token =
     (if is_overwrite_run_token token then parse_uint 16 (2 ^ 64) (take 8 token) else None)"

definition check_overwrite_run_token :: "string \<Rightarrow> unit fres" where
  "check_overwrite_run_token token =
     (if is_overwrite_run_token token then Ok ()
      else Err (Config ([CHR 0x60] @ OVERWRITE_RUN_KEY @ [CHR 0x60] @ '' must be a ''
             @ show_nat OVERWRITE_RUN_TOKEN_LEN
             @ ''-character lowercase hex overwrite run token, got '' @ debug_string token)))"

definition overwrite_staging_prefix :: "string \<Rightarrow> string" where
  "overwrite_staging_prefix table = table @ OVERWRITE_STAGING_SUFFIX @ ''_''"

text \<open>The escape character is an ASCII character in every caller, hence one byte.\<close>

definition like_literal :: "string \<Rightarrow> char \<Rightarrow> string" where
  "like_literal text escape =
     concat (map (\<lambda>c. if c = CHR ''%'' \<or> c = CHR ''_'' \<or> c = escape then [escape, c] else [c]) text)"

definition overwrite_staging_suffix :: "string option \<Rightarrow> string" where
  "overwrite_staging_suffix run =
     (case run of
        Some token \<Rightarrow> OVERWRITE_STAGING_SUFFIX @ ''_'' @ token
      | None \<Rightarrow> OVERWRITE_STAGING_SUFFIX)"

text \<open>
  A byte position is a character boundary when it is an end of the text or the byte there does not
  continue a UTF-8 sequence.
\<close>

definition is_char_boundary :: "string \<Rightarrow> nat \<Rightarrow> bool" where
  "is_char_boundary s i =
     (i = 0 \<or> i = length s \<or> (i < length s \<and> \<not> (128 \<le> ascii (s ! i) \<and> ascii (s ! i) < (192::nat))))"

definition overwrite_staging_token :: "string \<Rightarrow> string \<Rightarrow> string option" where
  "overwrite_staging_token table name =
     (let prefix = overwrite_staging_prefix table in
      if length name = length prefix + OVERWRITE_RUN_TOKEN_LEN
         \<and> is_char_boundary name (length prefix)
         \<and> eq_ignore_ascii_case (take (length prefix) name) prefix
      then let token = map to_ascii_lower (drop (length prefix) name)
           in if is_overwrite_run_token token then Some token else None
      else None)"

definition overwrite_run_abandoned :: "string \<Rightarrow> string option \<Rightarrow> u64 \<Rightarrow> bool" where
  "overwrite_run_abandoned token own now_secs =
     (if own = Some token then False
      else case overwrite_run_started token of
        None \<Rightarrow> False
      | Some started \<Rightarrow>
          (let now = unat (take_bit 32 now_secs) in
           if started \<le> now then ABANDONED_OVERWRITE_STAGING < now - started
           else if started - now < 2 ^ 31 then False
           else ABANDONED_OVERWRITE_STAGING < now + 2 ^ 32 - started))"

definition abandoned_overwrite_staging ::
    "string \<Rightarrow> string \<Rightarrow> string option \<Rightarrow> u64 \<Rightarrow> bool" where
  "abandoned_overwrite_staging table name own now_secs =
     (case overwrite_staging_token table name of
        None \<Rightarrow> False
      | Some token \<Rightarrow> overwrite_run_abandoned token own now_secs)"

subsection \<open>Watermark scopes\<close>

definition SCOPE_DIGEST_LEN :: nat where
  "SCOPE_DIGEST_LEN = 4 + 64"

text \<open>
  The loop over \<open>char_indices\<close>: the last character boundary that is not past \<open>room\<close>; \<open>i\<close> is the byte
  position and \<open>head\<close> the boundary seen last.
\<close>

fun head_boundary :: "nat \<Rightarrow> nat \<Rightarrow> nat \<Rightarrow> string \<Rightarrow> nat" where
  "head_boundary room i head [] = head"
| "head_boundary room i head (c # cs) =
     (if 128 \<le> ascii c \<and> ascii c < (192::nat) then head_boundary room (Suc i) head cs
      else if room < i then head
      else head_boundary room (Suc i) i cs)"

definition hex_byte :: "nat \<Rightarrow> string" where
  "hex_byte b = zero_pad 2 (show_hex b)"

definition scope_key :: "(string \<Rightarrow> nat list) \<Rightarrow> string \<Rightarrow> nat \<Rightarrow> string" where
  "scope_key sha256 scope max_len =
     (if length scope \<le> max_len then scope
      else let h = concat (map hex_byte (sha256 scope));
               room = max_len - SCOPE_DIGEST_LEN;
               head = head_boundary room 0 0 scope
           in take head scope @ ''__h:'' @ h)"

fun fnv1a :: "u64 \<Rightarrow> string \<Rightarrow> u64" where
  "fnv1a h [] = h"
| "fnv1a h (c # cs) = fnv1a ((h XOR of_char c) * 0x100000001b3) cs"

definition legacy_scope_key :: "string \<Rightarrow> nat \<Rightarrow> string option" where
  "legacy_scope_key scope max_len =
     (if length scope \<le> max_len then None
      else let h = fnv1a 0xcbf29ce484222325 scope;
               room = max_len - (4 + 16);
               head = head_boundary room 0 0 scope
           in Some (take head scope @ ''__h:'' @ zero_pad 16 (show_hex (unat h))))"

section \<open>Lemmas\<close>

subsection \<open>Fixed-width numerals are ordered as their values\<close>

lemma digits_value_split: "digits_value b acc s = acc * b ^ length s + digits_value b 0 s"
proof (induction s arbitrary: acc)
  case (Cons c s)
  have "digits_value b (acc * b + digit_value c) s
      = (acc * b + digit_value c) * b ^ length s + digits_value b 0 s"
    by (rule Cons.IH)
  moreover have "digits_value b (digit_value c) s = digit_value c * b ^ length s + digits_value b 0 s"
    by (rule Cons.IH)
  ultimately show ?case by (simp add: algebra_simps)
qed simp

lemma digits_value_less:
  assumes "list_all (\<lambda>c. digit_value c < b) s"
  shows "digits_value b 0 s < b ^ length s"
  using assms
proof (induction s)
  case (Cons c s)
  then have "digit_value c * b ^ length s + digits_value b 0 s < Suc (digit_value c) * b ^ length s"
    by simp
  also have "\<dots> \<le> b * b ^ length s"
    using Cons.prems by (intro mult_le_mono1) auto
  finally show ?case by (simp add: digits_value_split [of b "digit_value c"])
qed simp

lemma decimal_digit_value: "digit_value c < 10 \<longleftrightarrow> is_ascii_digit c"
  by (auto simp: digit_value_def is_ascii_digit_def is_ascii_lower_def is_ascii_upper_def)

lemma decimal_char_less:
  "is_ascii_digit c \<Longrightarrow> is_ascii_digit d \<Longrightarrow> c < d \<longleftrightarrow> digit_value c < digit_value d"
  by (auto simp: digit_value_def is_ascii_digit_def less_char_def)

lemma decimal_char_inj:
  "is_ascii_digit c \<Longrightarrow> is_ascii_digit d \<Longrightarrow> digit_value c = digit_value d \<Longrightarrow> c = d"
  by (metis decimal_char_less less_irrefl neqE)

lemma numeral_order:
  assumes "length s = length t" "list_all is_ascii_digit s" "list_all is_ascii_digit t"
  shows "digits_value 10 0 s < digits_value 10 0 t \<longleftrightarrow> s < t"
  using assms
proof (induction s t rule: list_induct2)
  case Nil
  then show ?case by simp
next
  case (Cons c s d t)
  let ?n = "10 ^ length t :: nat"
  let ?v = "digits_value 10 0"
  from Cons have cd: "is_ascii_digit c" "is_ascii_digit d"
    and st: "list_all is_ascii_digit s" "list_all is_ascii_digit t" by auto
  have s: "?v s < ?n" and t: "?v t < ?n"
    using digits_value_less [of 10 s] digits_value_less [of 10 t] st Cons.hyps
    by (simp_all add: decimal_digit_value)
  have vs: "?v (c # s) = digit_value c * ?n + ?v s" "?v (d # t) = digit_value d * ?n + ?v t"
    using Cons.hyps digits_value_split [of 10 "digit_value c" s] digits_value_split [of 10 "digit_value d" t]
    by simp_all
  consider "digit_value c < digit_value d" | "c = d" | "digit_value d < digit_value c"
    using decimal_char_inj [OF cd] by linarith
  then show ?case
  proof cases
    case 1
    then have "Suc (digit_value c) * ?n \<le> digit_value d * ?n" by (intro mult_le_mono1) simp
    with s 1 show ?thesis by (simp add: vs decimal_char_less [OF cd] del: digits_value.simps)
  next
    case 2
    have "?v (c # s) < ?v (d # t) \<longleftrightarrow> ?v s < ?v t" unfolding vs by (simp add: 2)
    with Cons.IH [OF st] 2 show ?thesis by simp
  next
    case 3
    then have "Suc (digit_value d) * ?n \<le> digit_value c * ?n" by (intro mult_le_mono1) simp
    with t have "\<not> ?v (c # s) < ?v (d # t)" by (simp add: vs del: digits_value.simps)
    moreover from 3 have "d < c" by (simp add: decimal_char_less [OF cd(2) cd(1)])
    ultimately show ?thesis by (metis Cons_less_Cons less_asym less_irrefl)
  qed
qed

lemma append_less_same_length:
  fixes s t :: string
  assumes "length s = length t" "s < t"
  shows "s @ u < t @ v"
  using assms by (induction s t rule: list_induct2) auto

subsection \<open>Commit tokens\<close>

lemma unat_u64_less: "unat (n :: u64) < 2 ^ 64"
  using unsigned_less [of n] by simp

lemma format_token_digits: "list_all is_ascii_digit (format_token seq)"
proof -
  have "list_all (\<lambda>c. digit_value c < 10) (format_token seq)"
    unfolding format_token_def show_nat_def by (intro zero_pad_digits show_base_digits) auto
  then show ?thesis by (simp add: decimal_digit_value)
qed

lemma format_token_length: "length (format_token seq) = TOKEN_WIDTH"
proof -
  have "unat seq < 10 ^ Suc 19" using unat_u64_less [of seq] by simp
  then have "length (show_nat (unat seq)) \<le> Suc 19"
    unfolding show_nat_def by (intro length_show_base_le) auto
  then show ?thesis by (simp add: format_token_def length_zero_pad TOKEN_WIDTH_def)
qed

lemma format_token_value: "digits_value 10 0 (format_token seq) = unat seq"
  by (simp add: format_token_def show_nat_def digits_value_zero_pad digits_value_show_base)

lemma format_token_no_sep: "TOKEN_BOOKMARK_SEP \<notin> set (format_token seq)"
  using format_token_digits [of seq]
  by (auto simp: list_all_iff TOKEN_BOOKMARK_SEP_def is_ascii_digit_def)

lemma trim_format_token: "trim (format_token seq) = format_token seq"
proof (rule trim_digits)
  show ne: "format_token seq \<noteq> []"
    using format_token_length [of seq] by (auto simp: TOKEN_WIDTH_def)
  show "is_ascii_digit (hd (format_token seq))" "is_ascii_digit (last (format_token seq))"
    using format_token_digits [of seq] ne by (auto simp: list_all_iff)
qed

lemma parse_seq_format_token [codec_simps]: "parse_seq (format_token seq) = Some seq"
proof -
  have "parse_uint 10 (2 ^ 64) (format_token seq) = Some (unat seq)"
    unfolding format_token_def show_nat_def
    by (rule parse_uint_zero_pad_show, simp, simp, rule unat_u64_less)
  then show ?thesis by (simp add: parse_seq_def parse_u64_def trim_format_token)
qed

lemma format_token_with_bookmark_alt:
  "format_token_with_bookmark json_print seq bookmark =
     format_token seq @ (case bookmark of None \<Rightarrow> [] | Some bm \<Rightarrow> TOKEN_BOOKMARK_SEP # json_print bm)"
  by (simp add: format_token_with_bookmark_def format_token_def split: option.split)

lemma split_token [codec_simps]:
  "split_once TOKEN_BOOKMARK_SEP (format_token_with_bookmark json_print seq bookmark) =
     (case bookmark of None \<Rightarrow> None | Some bm \<Rightarrow> Some (format_token seq, json_print bm))"
  by (simp add: format_token_with_bookmark_alt split_once_first split_once_None format_token_no_sep
      split: option.split)

lemma parse_token_format_token: "parse_token (format_token seq) = Some seq"
  by (simp add: parse_token_def split_once_None format_token_no_sep codec_simps)

lemma parse_token_with_bookmark:
  "parse_token (format_token_with_bookmark json_print seq bookmark) = Some seq"
  by (cases bookmark)
    (simp_all add: parse_token_def codec_simps, simp add: format_token_with_bookmark_alt codec_simps)

interpretation token_codec: codec format_token parse_token UNIV
  by unfold_locales (rule parse_token_format_token)

subsection \<open>The exactly-once wrapper\<close>

lemma eo_keys_distinct [simp]:
  "EO_MARKER \<noteq> EO_BOOKMARK" "EO_MARKER \<noteq> EO_SEQ" "EO_BOOKMARK \<noteq> EO_SEQ"
  "EO_BOOKMARK \<noteq> EO_MARKER" "EO_SEQ \<noteq> EO_MARKER" "EO_SEQ \<noteq> EO_BOOKMARK"
  "FORMAT_KEY \<noteq> EO_MARKER" "FORMAT_KEY \<noteq> EO_BOOKMARK" "FORMAT_KEY \<noteq> EO_SEQ"
  by (simp_all add: EO_MARKER_def EO_BOOKMARK_def EO_SEQ_def FORMAT_KEY_def)

lemma peel_wrap_state [simp]: "peel_versioned (wrap_state bookmark seq) = wrap_state bookmark seq"
  by (rule peel_legacy) (simp add: wrap_state_def)

lemma is_eo_envelope_wrap_state [simp]: "is_eo_envelope (wrap_state bookmark seq)"
  by (simp add: is_eo_envelope_def wrap_state_def)

lemma unwrap_peeled:
  "peel_versioned v = wrap_state bookmark seq \<Longrightarrow>
   unwrap_state v = (if bookmark = Some Null then None else bookmark, seq)"
  by (auto simp: unwrap_state_def Let_def) (auto simp: wrap_state_def split: option.splits)

lemma unwrap_wrap_state [codec_simps]:
  "unwrap_state (wrap_state bookmark seq) = (if bookmark = Some Null then None else bookmark, seq)"
  by (rule unwrap_peeled) simp

lemma unwrap_wrap_versioned [codec_simps]:
  "unwrap_state (wrap_versioned owner schema (wrap_state bookmark seq)) =
     (if bookmark = Some Null then None else bookmark, seq)"
  by (rule unwrap_peeled) simp

lemma unwrap_bare:
  assumes "\<not> is_eo_envelope (peel_versioned v)"
  shows "unwrap_state v = (if peel_versioned v = Null then None else Some (peel_versioned v), 0)"
  using assms by (simp add: unwrap_state_def Let_def)

subsection \<open>Overwrite run tokens\<close>

lemma lower_hex_digit: "is_lower_hex c \<Longrightarrow> digit_value c < 16"
  by (auto simp: is_lower_hex_def digit_value_def is_ascii_digit_def is_ascii_lower_def)

lemma digit_char_lower_hex: "d < 16 \<Longrightarrow> is_lower_hex (digit_char d)"
  by (auto simp: is_lower_hex_def digit_char_def is_ascii_digit_def)

lemma show_hex_lower: "list_all is_lower_hex (show_base 16 n)"
proof (induction n rule: less_induct)
  case (less n)
  have "n mod 16 < 16" by simp
  then show ?case
    using less.IH [of "n div 16"]
    by (cases "n < 16") (simp_all add: show_base.simps [of 16 n] digit_char_lower_hex)
qed

lemma hex8:
  assumes "n < 2 ^ 32"
  shows "length (zero_pad 8 (show_hex n)) = 8" "list_all is_lower_hex (zero_pad 8 (show_hex n))"
proof -
  from assms have "n < 16 ^ Suc 7" by simp
  then have "length (show_hex n) \<le> Suc 7"
    unfolding show_hex_def by (intro length_show_base_le) auto
  then show "length (zero_pad 8 (show_hex n)) = 8" by (simp add: length_zero_pad)
  show "list_all is_lower_hex (zero_pad 8 (show_hex n))"
    using show_hex_lower [of n]
    by (auto simp: zero_pad_def show_hex_def list_all_iff is_lower_hex_def is_ascii_digit_def)
qed

lemma take_bit_32_less: "unat (take_bit 32 (n :: u64)) < 2 ^ 32"
  unfolding unsigned_take_bit_eq by (rule take_bit_nat_less_exp)

lemma unat_take_bit_32: "unat (take_bit 32 (n :: u64)) = unat n mod 2 ^ 32"
  unfolding unsigned_take_bit_eq by (rule take_bit_eq_mod)

text \<open>The random part of a run token: six lowercase hexadecimal digits.\<close>

definition random_part :: "string \<Rightarrow> bool" where
  "random_part r = (length r = 6 \<and> list_all is_lower_hex r)"

lemma run_token_shape:
  assumes "random_part r"
  shows "is_overwrite_run_token (overwrite_run_token_at secs r)"
  using assms hex8 [OF take_bit_32_less [of secs]]
  by (simp add: is_overwrite_run_token_def overwrite_run_token_at_def OVERWRITE_RUN_TOKEN_LEN_def
      random_part_def)

lemma run_token_started:
  assumes "random_part r"
  shows "overwrite_run_started (overwrite_run_token_at secs r) = Some (unat secs mod 2 ^ 32)"
proof -
  let ?n = "unat (take_bit 32 secs)"
  have "?n < 2 ^ 64" by (rule unat_u64_less)
  then have "parse_uint 16 (2 ^ 64) (zero_pad 8 (show_hex ?n)) = Some ?n"
    unfolding show_hex_def by (intro parse_uint_zero_pad_show) auto
  moreover have "take 8 (overwrite_run_token_at secs r) = zero_pad 8 (show_hex ?n)"
    using hex8(1) [OF take_bit_32_less [of secs]] by (simp add: overwrite_run_token_at_def)
  ultimately show ?thesis
    by (simp add: overwrite_run_started_def run_token_shape [OF assms] unat_take_bit_32)
qed

lemma to_ascii_lower_hex [simp]: "is_lower_hex c \<Longrightarrow> to_ascii_lower c = c"
  by (auto simp: is_lower_hex_def to_ascii_lower_def is_ascii_upper_def is_ascii_digit_def)

lemma run_token_lower:
  "is_overwrite_run_token token \<Longrightarrow> map to_ascii_lower token = token"
  by (auto simp: is_overwrite_run_token_def list_all_iff intro!: map_idI)

lemma staging_token_of_suffix:
  assumes "is_overwrite_run_token token"
  shows "overwrite_staging_token table (table @ overwrite_staging_suffix (Some token)) = Some token"
proof -
  let ?p = "overwrite_staging_prefix table"
  have name: "table @ overwrite_staging_suffix (Some token) = ?p @ token"
    by (simp add: overwrite_staging_prefix_def overwrite_staging_suffix_def)
  have len: "length token = OVERWRITE_RUN_TOKEN_LEN"
    using assms by (simp add: is_overwrite_run_token_def)
  have "token \<noteq> []" using len by (auto simp: OVERWRITE_RUN_TOKEN_LEN_def)
  then have "is_lower_hex (hd token)"
    using assms by (cases token) (auto simp: is_overwrite_run_token_def)
  then have "ascii (hd token) < (128::nat)" by (auto simp: is_lower_hex_def is_ascii_digit_def)
  with \<open>token \<noteq> []\<close> have "is_char_boundary (?p @ token) (length ?p)"
    by (cases token) (auto simp: is_char_boundary_def)
  with len assms show ?thesis
    by (simp add: name overwrite_staging_token_def Let_def eq_ignore_ascii_case_def run_token_lower)
qed

lemma staging_token_length:
  "length name \<noteq> length table + length OVERWRITE_STAGING_SUFFIX + 1 + OVERWRITE_RUN_TOKEN_LEN \<Longrightarrow>
   overwrite_staging_token table name = None"
  by (auto simp: overwrite_staging_token_def Let_def overwrite_staging_prefix_def)

lemma staging_token_other_names:
  "overwrite_staging_token table (table @ overwrite_staging_suffix None) = None"
  "overwrite_staging_token table (table @ OVERWRITE_STAGING_OLD_SUFFIX) = None"
  by (rule staging_token_length, simp add: overwrite_staging_suffix_def
      OVERWRITE_STAGING_OLD_SUFFIX_def OVERWRITE_STAGING_SUFFIX_def OVERWRITE_RUN_TOKEN_LEN_def)+

text \<open>Two times less than half an era apart, compared by their low 32 bits.\<close>

lemma era_difference:
  fixes s n :: nat
  assumes "s \<le> n" "n - s \<le> 2 ^ 31"
  shows "s mod 2 ^ 32 \<le> n mod 2 ^ 32 \<and> n mod 2 ^ 32 - s mod 2 ^ 32 = n - s
       \<or> n mod 2 ^ 32 < s mod 2 ^ 32 \<and> n mod 2 ^ 32 + 2 ^ 32 - s mod 2 ^ 32 = n - s
         \<and> 2 ^ 31 \<le> s mod 2 ^ 32 - n mod 2 ^ 32"
proof -
  let ?e = "2 ^ 32 :: nat"
  define d where "d = n - s"
  define sm where "sm = s mod ?e"
  have n: "n = d + s" and d: "d \<le> 2 ^ 31" using assms by (auto simp: d_def)
  have sm: "sm < ?e" by (simp add: sm_def)
  have nm: "n mod ?e = (d + sm) mod ?e" by (simp add: n sm_def mod_simps)
  show ?thesis
  proof (cases "d + sm < ?e")
    case True
    then have "n mod ?e = d + sm" using nm by simp
    then show ?thesis by (simp add: n sm_def)
  next
    case False
    have "(d + sm) mod ?e = d + sm - ?e"
      using False d sm by (subst le_mod_geq) auto
    then have nm': "n mod ?e = d + sm - ?e" using nm by simp
    show ?thesis
      unfolding nm' sm_def [symmetric] using False d sm assms(1) n by auto
  qed
qed

lemma abandoned_token_at:
  assumes "random_part r" "own \<noteq> Some (overwrite_run_token_at started r)"
    "started \<le> now" "unat now - unat started \<le> 2 ^ 31"
  shows "overwrite_run_abandoned (overwrite_run_token_at started r) own now \<longleftrightarrow>
    ABANDONED_OVERWRITE_STAGING < unat now - unat started"
proof -
  have "unat started \<le> unat now" using assms(3) by (simp add: word_le_nat_alt)
  from era_difference [OF this assms(4)] show ?thesis
    using assms(2) run_token_started [OF assms(1), of started]
    by (auto simp: overwrite_run_abandoned_def unat_take_bit_32 Let_def)
qed

subsection \<open>Scope keys\<close>

lemma head_boundary_le: "head \<le> room \<Longrightarrow> head_boundary room i head s \<le> room"
  by (induction s arbitrary: i head) auto

lemma head_boundary_char:
  "is_char_boundary s head \<Longrightarrow> i + length t = length s \<Longrightarrow> t = drop i s \<Longrightarrow>
   is_char_boundary s (head_boundary room i head t)"
proof (induction t arbitrary: i head)
  case (Cons c t)
  from Cons.prems(2) have i: "i < length s" by simp
  with Cons.prems(3) have c: "s ! i = c" "t = drop (Suc i) s"
    by (simp_all add: Cons_nth_drop_Suc [symmetric])
  show ?case
  proof (cases "128 \<le> ascii c \<and> ascii c < (192::nat) \<or> room < i")
    case True
    with Cons.IH [OF Cons.prems(1) _ c(2)] Cons.prems(1,2) show ?thesis by auto
  next
    case False
    with i c have "is_char_boundary s i" by (auto simp: is_char_boundary_def)
    with False Cons.IH [OF _ _ c(2), of i] Cons.prems(2) show ?thesis by auto
  qed
qed simp

lemma length_hex_byte: "b < 256 \<Longrightarrow> length (hex_byte b) = 2"
  using length_show_base_le [of 16 b 1] by (simp add: hex_byte_def show_hex_def length_zero_pad)

lemma length_hex_bytes: "list_all (\<lambda>b. b < 256) bs \<Longrightarrow> length (concat (map hex_byte bs)) = 2 * length bs"
  by (induction bs) (auto simp: length_hex_byte)

lemma hex_byte_value: "digits_value 16 0 (hex_byte b) = b"
  by (simp add: hex_byte_def show_hex_def digits_value_zero_pad digits_value_show_base)

lemma hex_byte_inj: "hex_byte a = hex_byte b \<Longrightarrow> a = b"
  by (metis hex_byte_value)

lemma hex_bytes_inj:
  assumes "length as = length bs" "list_all (\<lambda>b. b < 256) as" "list_all (\<lambda>b. b < 256) bs"
    "concat (map hex_byte as) = concat (map hex_byte bs)"
  shows "as = bs"
  using assms
proof (induction as bs rule: list_induct2)
  case (Cons a as b bs)
  then have "hex_byte a = hex_byte b \<and> concat (map hex_byte as) = concat (map hex_byte bs)"
    by (auto simp: length_hex_byte append_eq_append_conv)
  with Cons show ?case by (auto dest: hex_byte_inj)
qed simp

subsection \<open>LIKE patterns\<close>

text \<open>The meaning of a SQL \<open>LIKE\<close> pattern with an escape character.\<close>

fun like_match :: "char \<Rightarrow> string \<Rightarrow> string \<Rightarrow> bool" where
  "like_match e [] s = (s = [])"
| "like_match e (p # ps) s =
     (if p = e then (case ps of q # qs \<Rightarrow> (case s of c # cs \<Rightarrow> c = q \<and> like_match e qs cs | [] \<Rightarrow> False)
                     | [] \<Rightarrow> False)
      else if p = CHR ''%'' then (\<exists>k \<in> set [0..<Suc (length s)]. like_match e ps (drop k s))
      else (case s of c # cs \<Rightarrow> (p = CHR ''_'' \<or> c = p) \<and> like_match e ps cs | [] \<Rightarrow> False))"

lemma like_literal_match: "like_match e (like_literal t e) s \<longleftrightarrow> s = t"
  by (induction t arbitrary: s) (auto simp: like_literal_def split: list.split)

lemma parse_parts_token:
  assumes "\<forall>bm. bookmark = Some bm \<longrightarrow> json_parse (json_print bm) = Some bm"
  shows "parse_token_parts json_parse (format_token_with_bookmark json_print seq bookmark) = Some (seq, bookmark)"
  using assms
  by (cases bookmark)
    (simp_all add: parse_token_parts_def codec_simps, simp add: format_token_with_bookmark_alt codec_simps)

section \<open>Properties\<close>

text \<open>C16. A commit token is read back as the sequence and the bookmark it was made from, whatever the
  bookmark's text: the separator is searched from the left and never occurs in the numeral.\<close>

theorem token_roundtrip:
  assumes "\<forall>bm. bookmark = Some bm \<longrightarrow> json_parse (json_print bm) = Some bm"
  shows "parse_token_parts json_parse (format_token_with_bookmark json_print seq bookmark)
           = Some (seq, bookmark)
         \<and> parse_token (format_token_with_bookmark json_print seq bookmark) = Some seq"
proof
  show "parse_token (format_token_with_bookmark json_print seq bookmark) = Some seq"
    by (rule parse_token_with_bookmark)
  show "parse_token_parts json_parse (format_token_with_bookmark json_print seq bookmark)
          = Some (seq, bookmark)"
    using assms by (rule parse_parts_token)
qed

theorem token_roundtrip_witness:
  "parse_token_parts (\<lambda>s. if s = ''null'' then Some Null else None)
     (format_token_with_bookmark (\<lambda>v. ''null'') 7 (Some Null)) = Some (7, Some Null)"
  using token_roundtrip [of "Some Null" "\<lambda>s. if s = ''null'' then Some Null else None" "\<lambda>v. ''null''" 7]
  by simp

text \<open>C17. The lexicographic order of commit tokens is the numeric order of their sequences over the
  whole 64-bit range, with or without embedded bookmarks, so a sink may compare stored tokens as text.\<close>

theorem token_order:
  assumes "seq1 \<noteq> seq2"
  shows "format_token_with_bookmark json_print seq1 b1 < format_token_with_bookmark json_print seq2 b2
         \<longleftrightarrow> seq1 < seq2"
proof -
  have num: "s < t \<longleftrightarrow> format_token s < format_token t" for s t :: u64
    using numeral_order [OF _ format_token_digits format_token_digits, of s t]
    by (simp add: format_token_length format_token_value word_less_nat_alt)
  have ext: "format_token_with_bookmark json_print s b < format_token_with_bookmark json_print t c"
    if "s < t" for s t b c
    using that num by (simp add: format_token_with_bookmark_alt append_less_same_length format_token_length)
  show ?thesis using assms ext by (metis less_asym linorder_neqE)
qed

theorem token_order_witness:
  "format_token_with_bookmark (\<lambda>_. ''1'') 9 None < format_token_with_bookmark (\<lambda>_. ''1'') 10 (Some Null)
   \<longleftrightarrow> (9::u64) < 10"
  using token_order [of 9 10 "\<lambda>_. ''1''" None "Some Null"] by simp

text \<open>C18. The state value of an exactly-once run gives back its bookmark and sequence, bare or inside a
  versioned envelope; any other stored value is a bare bookmark with sequence 0. A null bookmark is
  read as no bookmark.\<close>

theorem unwrap_state_correct:
  "unwrap_state (wrap_state bookmark seq) = (if bookmark = Some Null then None else bookmark, seq)
   \<and> unwrap_state (wrap_versioned owner schema (wrap_state bookmark seq))
       = (if bookmark = Some Null then None else bookmark, seq)
   \<and> (is_eo_envelope (peel_versioned v)
      \<or> unwrap_state v = (if peel_versioned v = Null then None else Some (peel_versioned v), 0))"
  using unwrap_bare [of v] unwrap_wrap_state unwrap_wrap_versioned by blast




text \<open>C21. A watermark scope that fits is stored verbatim; a longer one is shortened to the column's
  width on a character boundary, and two long scopes that share a key share the digest of their full
  text, so distinct scopes never share a watermark unless the digest collides.\<close>

theorem scope_key_correct:
  assumes sha: "\<forall>s. length (sha256 s) = 32 \<and> list_all (\<lambda>b. b < 256) (sha256 s)"
    and "SCOPE_DIGEST_LEN \<le> max_len"
  shows "length (scope_key sha256 scope max_len) \<le> max_len
    \<and> (length scope \<le> max_len \<longrightarrow> scope_key sha256 scope max_len = scope)
    \<and> (max_len < length scope \<and> max_len < length scope'
         \<and> scope_key sha256 scope max_len = scope_key sha256 scope' max_len \<longrightarrow>
         sha256 scope = sha256 scope')
    \<and> (max_len < length scope \<longrightarrow>
         (\<exists>head. is_char_boundary scope head \<and> head \<le> max_len - SCOPE_DIGEST_LEN
           \<and> scope_key sha256 scope max_len =
               take head scope @ ''__h:'' @ concat (map hex_byte (sha256 scope))))"
proof (intro conjI impI)
  have hex: "length (concat (map hex_byte (sha256 s))) = 64" for s
    using sha by (simp add: length_hex_bytes)
  show "scope_key sha256 scope max_len = scope" if "length scope \<le> max_len"
    using that by (simp add: scope_key_def)
  let ?head = "head_boundary (max_len - SCOPE_DIGEST_LEN) 0 0"
  have head: "?head s \<le> max_len - SCOPE_DIGEST_LEN" for s by (rule head_boundary_le) simp
  show "length (scope_key sha256 scope max_len) \<le> max_len"
    using head [of scope] assms(2) hex [of scope]
    by (auto simp: scope_key_def Let_def SCOPE_DIGEST_LEN_def min_def)
  show "sha256 scope = sha256 scope'"
    if "max_len < length scope \<and> max_len < length scope'
      \<and> scope_key sha256 scope max_len = scope_key sha256 scope' max_len"
  proof (rule hex_bytes_inj)
    have "drop (length (u @ v) - 64) (u @ v) = v" if "length v = 64" for u v :: string
      using that by simp
    from this [OF hex] that show "concat (map hex_byte (sha256 scope)) = concat (map hex_byte (sha256 scope'))"
      unfolding scope_key_def Let_def by (metis append.assoc leD)
  qed (use sha in auto)
  show "\<exists>head. is_char_boundary scope head \<and> head \<le> max_len - SCOPE_DIGEST_LEN
           \<and> scope_key sha256 scope max_len =
               take head scope @ ''__h:'' @ concat (map hex_byte (sha256 scope))"
    if "max_len < length scope"
    using that head [of scope] head_boundary_char [of scope 0 0 scope]
    by (intro exI [of _ "?head scope"]) (auto simp: scope_key_def Let_def is_char_boundary_def)
qed

theorem scope_key_correct_witness:
  "length (scope_key (\<lambda>_. replicate 32 171) (replicate 200 CHR ''a'') 100) \<le> 100"
  using scope_key_correct [of "\<lambda>_. replicate 32 171" 100 "replicate 200 CHR ''a''"]
  by (simp add: list_all_iff SCOPE_DIGEST_LEN_def)


end
