(* ===== verification/State_Store.thy ===== *)
theory State_Store
  imports Idempotency
begin

section \<open>State stores (\<open>crates/core/src/state.rs\<close>)\<close>

text \<open>
  The state store interface with its default methods, the in-memory store, the check of a state key
  and the mapping of keys to the file names of the file store. A store is a record of its operations
  over a state type, the model of a trait object; an operation that writes returns its result and the
  new state. The reads and writes of the file store's directory, its locks and its encryption are not
  modelled.
\<close>

subsection \<open>State keys\<close>

definition char_literal :: "string \<Rightarrow> string" where
  "char_literal bs =
     [CHR 0x27] @ (case bs of
                     [c] \<Rightarrow> if c = CHR 0x27 then [CHR 0x5C, c] else if c = CHR 0x22 then [c] else debug_char c
                   | _ \<Rightarrow> bs)
     @ [CHR 0x27]"

text \<open>The bytes of the character that starts at the head of a text.\<close>

definition first_char :: "string \<Rightarrow> string" where
  "first_char s =
     (case s of [] \<Rightarrow> []
      | c # cs \<Rightarrow> c # takeWhile (\<lambda>b. 128 \<le> ascii b \<and> ascii b < (192::nat)) cs)"

definition state_key_char :: "char \<Rightarrow> bool" where
  "state_key_char c = (is_ascii_alphanumeric c \<or> c \<in> set ''_-:./'')"

definition bad_segment :: "string \<Rightarrow> bool" where
  "bad_segment seg = (seg = [] \<or> seg = ''.'' \<or> seg = ''..'' \<or> starts_with ''.'' seg)"

definition state_key_error :: "string \<Rightarrow> string \<Rightarrow> faucet_error" where
  "state_key_error key msg = State (''state key '' @ [CHR 0x27] @ key @ [CHR 0x27] @ msg)"

definition em_dash :: string where
  "em_dash = [char_of (226::nat), char_of (128::nat), char_of (148::nat)]"

definition validate_state_key :: "string \<Rightarrow> unit fres" where
  "validate_state_key key =
     (if key = [] then Err (State ''state key must not be empty'')
      else if 256 < length key then Err (state_key_error key '' exceeds 256 characters'')
      else if \<not> list_all state_key_char key then
        (let i = length (takeWhile state_key_char key) in
         Err (state_key_error key ('' contains illegal character '' @ char_literal (first_char (drop i key))
           @ '' at byte '' @ show_nat i)))
      else if key = ''.'' \<or> key = ''..'' \<or> starts_with ''.'' key then
        Err (state_key_error key '' must not begin with a dot'')
      else if CHR 0x2F \<in> set key \<and> list_ex bad_segment (split_on CHR 0x2F key) then
        Err (state_key_error key ('' has a path-like segment '' @ em_dash @ '' '' @ [CHR 0x60, CHR 0x2F, CHR 0x60]
          @ '' may only separate non-empty, non-dot segments''))
      else Ok ())"

subsection \<open>The store interface\<close>

record 's store_ops =
  so_get :: "string \<Rightarrow> 's \<Rightarrow> value option fres"
  so_put :: "string \<Rightarrow> value \<Rightarrow> 's \<Rightarrow> unit fres \<times> 's"
  so_delete :: "string \<Rightarrow> 's \<Rightarrow> unit fres \<times> 's"
  so_supports_list :: bool
  so_list :: "string \<Rightarrow> 's \<Rightarrow> string list fres"
  so_supports_compare_and_put :: bool
  so_compare_and_put :: "string \<Rightarrow> value option \<Rightarrow> value \<Rightarrow> 's \<Rightarrow> bool fres \<times> 's"
  so_supports_atomic_batch :: bool
  so_put_batch :: "(string \<times> value) list \<Rightarrow> 's \<Rightarrow> unit fres \<times> 's"

definition default_list :: "string \<Rightarrow> 's \<Rightarrow> string list fres" where
  "default_list prefix s = Err (State ''this state store cannot enumerate its keys'')"

definition default_compare_and_put ::
    "(string \<Rightarrow> 's \<Rightarrow> value option fres) \<Rightarrow> (string \<Rightarrow> value \<Rightarrow> 's \<Rightarrow> unit fres \<times> 's) \<Rightarrow>
     string \<Rightarrow> value option \<Rightarrow> value \<Rightarrow> 's \<Rightarrow> bool fres \<times> 's" where
  "default_compare_and_put get put key expected v s =
     (case get key s of
        Err e \<Rightarrow> (Err e, s)
      | Ok cur \<Rightarrow>
          if cur \<noteq> expected then (Ok False, s)
          else (case put key v s of (Err e, s') \<Rightarrow> (Err e, s') | (Ok _, s') \<Rightarrow> (Ok True, s')))"

fun default_put_batch ::
    "(string \<Rightarrow> value \<Rightarrow> 's \<Rightarrow> unit fres \<times> 's) \<Rightarrow> (string \<times> value) list \<Rightarrow> 's \<Rightarrow> unit fres \<times> 's" where
  "default_put_batch put [] s = (Ok (), s)"
| "default_put_batch put ((key, v) # entries) s =
     (case put key v s of (Err e, s') \<Rightarrow> (Err e, s') | (Ok _, s') \<Rightarrow> default_put_batch put entries s')"

subsection \<open>The in-memory store\<close>

type_synonym memory_store = "(string \<times> value) list"

definition memory_get :: "string \<Rightarrow> memory_store \<Rightarrow> value option fres" where
  "memory_get key m = res_bind (validate_state_key key) (\<lambda>_. Ok (map_of m key))"

definition memory_put :: "string \<Rightarrow> value \<Rightarrow> memory_store \<Rightarrow> unit fres \<times> memory_store" where
  "memory_put key v m =
     (case validate_state_key key of Err e \<Rightarrow> (Err e, m) | Ok _ \<Rightarrow> (Ok (), AList.update key v m))"

definition memory_delete :: "string \<Rightarrow> memory_store \<Rightarrow> unit fres \<times> memory_store" where
  "memory_delete key m =
     (case validate_state_key key of Err e \<Rightarrow> (Err e, m) | Ok _ \<Rightarrow> (Ok (), AList.delete key m))"

definition memory_list :: "string \<Rightarrow> memory_store \<Rightarrow> string list fres" where
  "memory_list prefix m = Ok (sort (filter (starts_with prefix) (map fst m)))"

definition memory_compare_and_put ::
    "string \<Rightarrow> value option \<Rightarrow> value \<Rightarrow> memory_store \<Rightarrow> bool fres \<times> memory_store" where
  "memory_compare_and_put key expected v m =
     (case validate_state_key key of
        Err e \<Rightarrow> (Err e, m)
      | Ok _ \<Rightarrow> if map_of m key \<noteq> expected then (Ok False, m) else (Ok True, AList.update key v m))"

fun validate_keys :: "(string \<times> value) list \<Rightarrow> unit fres" where
  "validate_keys [] = Ok ()"
| "validate_keys ((key, v) # entries) = res_bind (validate_state_key key) (\<lambda>_. validate_keys entries)"

definition memory_put_batch :: "(string \<times> value) list \<Rightarrow> memory_store \<Rightarrow> unit fres \<times> memory_store" where
  "memory_put_batch entries m =
     (case validate_keys entries of
        Err e \<Rightarrow> (Err e, m)
      | Ok _ \<Rightarrow> (Ok (), fold (\<lambda>(key, v) m. AList.update key v m) entries m))"

definition MemoryStateStore :: "memory_store store_ops" where
  "MemoryStateStore =
     \<lparr> so_get = memory_get, so_put = memory_put, so_delete = memory_delete,
       so_supports_list = True, so_list = memory_list,
       so_supports_compare_and_put = True, so_compare_and_put = memory_compare_and_put,
       so_supports_atomic_batch = True, so_put_batch = memory_put_batch \<rparr>"

subsection \<open>File names of the file store\<close>

definition MAX_STEM :: nat where
  "MAX_STEM = 160"

definition upper_digit :: "nat \<Rightarrow> char" where
  "upper_digit d = char_of (if d < 10 then 48 + d else 55 + d)"

definition escape_key_char :: "char \<Rightarrow> string" where
  "escape_key_char c =
     (if c = CHR '':'' then ''%3A''
      else if c = CHR 0x2F then ''%2F''
      else if is_ascii_upper c then [CHR ''%'', upper_digit (ascii c div 16), upper_digit (ascii c mod 16)]
      else [c])"

definition escape_key :: "string \<Rightarrow> string" where
  "escape_key key = concat (map escape_key_char key)"

text \<open>The loop that moves the cut back out of a \<open>%XX\<close> escape.\<close>

fun stem_cut :: "string \<Rightarrow> nat \<Rightarrow> nat" where
  "stem_cut out 0 = 0"
| "stem_cut out (Suc n) =
     (if CHR ''%'' \<in> set (take 2 (rev (take (Suc n) out))) then stem_cut out n else Suc n)"

definition safe_filename :: "(string \<Rightarrow> nat list) \<Rightarrow> string \<Rightarrow> string" where
  "safe_filename sha256 key =
     (let out = escape_key key in
      if length out \<le> MAX_STEM then out
      else let hex = concat (map hex_byte (sha256 key));
               cut = stem_cut out (MAX_STEM - length hex - 1)
           in take cut out @ ''~'' @ hex)"

fun unescape_stem :: "string \<Rightarrow> string option" where
  "unescape_stem [] = Some []"
| "unescape_stem (b # bs) =
     (if b = CHR ''%'' then
        (case bs of
           h # l # rest \<Rightarrow>
             (case parse_uint 16 256 [h, l] of
                None \<Rightarrow> None
              | Some code \<Rightarrow> map_option (\<lambda>k. char_of code # k) (unescape_stem rest))
         | _ \<Rightarrow> None)
      else map_option (\<lambda>k. b # k) (unescape_stem bs))"

definition key_from_filename :: "string \<Rightarrow> string option" where
  "key_from_filename stem =
     (if CHR ''~'' \<in> set stem then None
      else case unescape_stem stem of
        None \<Rightarrow> None
      | Some key \<Rightarrow> (case validate_state_key key of Err _ \<Rightarrow> None | Ok _ \<Rightarrow> Some key))"

section \<open>Lemmas\<close>

lemma validate_chars: "validate_state_key key = Ok u \<Longrightarrow> list_all state_key_char key"
  by (auto simp: validate_state_key_def Let_def split: if_splits)

lemma validate_state_key_iff:
  "is_ok (validate_state_key key) \<longleftrightarrow>
     key \<noteq> [] \<and> length key \<le> 256 \<and> list_all state_key_char key \<and> hd key \<noteq> CHR ''.''
     \<and> (CHR 0x2F \<in> set key \<longrightarrow> \<not> list_ex bad_segment (split_on CHR 0x2F key))"
  by (cases key) (auto simp: validate_state_key_def Let_def starts_with_def)

subsection \<open>The contract of a key-value store\<close>

text \<open>
  What the clients of a store rely on: \<open>lookup\<close> is what the store holds, a read that succeeds returns
  it, and a write that succeeds changes it at its key only. A write that fails changes nothing.
\<close>

locale kv_store =
  fixes ops :: "'s store_ops"
    and lookup :: "'s \<Rightarrow> string \<Rightarrow> value option"
    and inv :: "'s \<Rightarrow> bool"
  assumes get_lookup: "inv s \<Longrightarrow> so_get ops k s = Ok r \<Longrightarrow> r = lookup s k"
    and put_ok: "inv s \<Longrightarrow> so_put ops k v s = (Ok u, s') \<Longrightarrow> inv s' \<and> lookup s' = (lookup s)(k \<mapsto> v)"
    and put_err: "inv s \<Longrightarrow> so_put ops k v s = (Err e, s') \<Longrightarrow> s' = s"
    and delete_ok: "inv s \<Longrightarrow> so_delete ops k s = (Ok u, s') \<Longrightarrow> inv s' \<and> lookup s' = (lookup s)(k := None)"
    and delete_err: "inv s \<Longrightarrow> so_delete ops k s = (Err e, s') \<Longrightarrow> s' = s"
    and cas_ok: "inv s \<Longrightarrow> so_compare_and_put ops k expected v s = (Ok b, s') \<Longrightarrow>
      inv s' \<and> b = (lookup s k = expected) \<and> lookup s' = (if b then (lookup s)(k \<mapsto> v) else lookup s)"
    and cas_err: "inv s \<Longrightarrow> so_compare_and_put ops k expected v s = (Err e, s') \<Longrightarrow> s' = s"
    and list_ok: "inv s \<Longrightarrow> so_list ops p s = Ok ks \<Longrightarrow>
      sorted ks \<and> distinct ks \<and> set ks = {k. starts_with p k \<and> lookup s k \<noteq> None}"
begin

lemma get_after_put:
  "inv s \<Longrightarrow> so_put ops k v s = (Ok u, s') \<Longrightarrow> so_get ops k s' = Ok r \<Longrightarrow> r = Some v"
  using put_ok get_lookup by fastforce

lemma get_other_after_put:
  "inv s \<Longrightarrow> so_put ops k v s = (Ok u, s') \<Longrightarrow> k' \<noteq> k \<Longrightarrow> so_get ops k' s' = Ok r \<Longrightarrow> r = lookup s k'"
  using put_ok get_lookup by fastforce

lemma cas_excludes:
  "inv s \<Longrightarrow> so_compare_and_put ops k None v s = (Ok True, s') \<Longrightarrow>
   so_compare_and_put ops k None w s' = (Ok b, s'') \<Longrightarrow> b = False \<and> lookup s'' = lookup s'"
  using cas_ok by (metis fun_upd_same option.distinct(1))

end

lemma memory_store_ops [simp]:
  "so_get MemoryStateStore = memory_get" "so_put MemoryStateStore = memory_put"
  "so_delete MemoryStateStore = memory_delete" "so_list MemoryStateStore = memory_list"
  "so_compare_and_put MemoryStateStore = memory_compare_and_put"
  "so_supports_atomic_batch MemoryStateStore = True" "so_put_batch MemoryStateStore = memory_put_batch"
  by (simp_all add: MemoryStateStore_def)

text \<open>The invariant of the in-memory store: each key once, and only valid keys.\<close>

definition memory_inv :: "memory_store \<Rightarrow> bool" where
  "memory_inv m = (distinct (map fst m) \<and> (\<forall>k \<in> fst ` set m. is_ok (validate_state_key k)))"

lemma memory_inv_update: "memory_inv m \<Longrightarrow> is_ok (validate_state_key k) \<Longrightarrow> memory_inv (AList.update k v m)"
  by (auto simp: memory_inv_def distinct_update dom_update)

lemma memory_inv_delete: "memory_inv m \<Longrightarrow> memory_inv (AList.delete k m)"
  unfolding memory_inv_def using dom_delete_subset [of k m] distinct_delete [of m k] by blast

lemma memory_inv_fold:
  "memory_inv m \<Longrightarrow> \<forall>(k, v) \<in> set es. is_ok (validate_state_key k) \<Longrightarrow>
   memory_inv (fold (\<lambda>(key, v) m. AList.update key v m) es m)"
  by (induction es arbitrary: m) (auto simp: memory_inv_update)

lemma map_of_fold_update:
  "map_of (fold (\<lambda>(key, v) m. AList.update key v m) es m) = map_of m ++ map_of (rev es)"
  by (induction es arbitrary: m) (auto simp: update_conv' map_add_def fun_eq_iff split: option.split)

lemma validate_keys_ok: "validate_keys es = Ok u \<longleftrightarrow> (\<forall>(k, v) \<in> set es. is_ok (validate_state_key k))"
  by (induction es) (auto simp: res_bind_Ok_iff is_ok_iff)

interpretation memory: kv_store MemoryStateStore map_of memory_inv
proof unfold_locales
  show "sorted ks \<and> distinct ks \<and> set ks = {k. starts_with p k \<and> map_of s k \<noteq> None}"
    if "memory_inv s" "so_list MemoryStateStore p s = Ok ks" for s :: memory_store and p ks
    using that by (force simp: memory_inv_def memory_list_def map_of_eq_None_iff)
qed (auto simp: memory_get_def memory_put_def memory_delete_def memory_compare_and_put_def
    res_bind_Ok_iff update_conv' delete_conv' is_ok_iff memory_inv_delete
    intro: memory_inv_update split: sum.splits if_splits)

text \<open>A store whose batch write is all or nothing.\<close>

locale batch_kv_store = kv_store +
  assumes batch_ok: "inv s \<Longrightarrow> so_put_batch ops es s = (Ok u, s') \<Longrightarrow>
      inv s' \<and> lookup s' = lookup s ++ map_of (rev es)"
    and batch_err: "inv s \<Longrightarrow> so_put_batch ops es s = (Err e, s') \<Longrightarrow> s' = s"

interpretation memory_batch: batch_kv_store MemoryStateStore map_of memory_inv
  by unfold_locales
    (auto simp: memory_put_batch_def map_of_fold_update memory_inv_fold validate_keys_ok split: sum.splits)

subsection \<open>File names\<close>

lemma key_char_cases:
  assumes "state_key_char c"
  shows "ascii c < (128::nat)" "c \<noteq> CHR ''%''" "c \<noteq> CHR ''~''"
  using assms
  by (auto simp: state_key_char_def is_ascii_alphanumeric_def is_ascii_digit_def is_ascii_upper_def
      is_ascii_lower_def)

lemma digit_value_upper_digit [simp]: "d < 16 \<Longrightarrow> digit_value (upper_digit d) = d"
  by (auto simp: digit_value_def upper_digit_def is_ascii_digit_def is_ascii_lower_def is_ascii_upper_def)

lemma lower_upper_digit [simp]: "d < 16 \<Longrightarrow> to_ascii_lower (upper_digit d) = digit_char d"
  by (auto simp: to_ascii_lower_def upper_digit_def digit_char_def is_ascii_upper_def)

lemma parse_two_digits:
  assumes "digit_value h < 16" "digit_value l < 16"
  shows "parse_uint 16 256 [h, l] = Some (digit_value h * 16 + digit_value l)"
proof -
  have "digit_value CHR ''+'' = 255"
    by (simp add: digit_value_def is_ascii_digit_def is_ascii_lower_def is_ascii_upper_def)
  then have "h \<noteq> CHR ''+''" using assms by auto
  with assms show ?thesis by (simp add: parse_uint_def Let_def)
qed

lemma unescape_one:
  assumes "state_key_char c"
  shows "unescape_stem (escape_key_char c @ s) = map_option ((#) c) (unescape_stem s)"
    and "unescape_stem (map to_ascii_lower (escape_key_char c) @ s) = map_option ((#) c) (unescape_stem s)"
proof -
  let ?h = "ascii c div 16 :: nat" and ?l = "ascii c mod 16 :: nat"
  note dv = digit_value_def is_ascii_digit_def is_ascii_lower_def is_ascii_upper_def
  have sep: "digit_value CHR ''3'' = 3" "digit_value CHR ''A'' = 10" "digit_value CHR ''a'' = 10"
    "digit_value CHR ''2'' = 2" "digit_value CHR ''F'' = 15" "digit_value CHR ''f'' = 15"
    "to_ascii_lower CHR ''3'' = CHR ''3''" "to_ascii_lower CHR ''A'' = CHR ''a''"
    "to_ascii_lower CHR ''2'' = CHR ''2''" "to_ascii_lower CHR ''F'' = CHR ''f''"
    "to_ascii_lower CHR ''%'' = CHR ''%''" "char_of (58::nat) = CHR '':''" "char_of (47::nat) = CHR 0x2F"
    by (simp_all add: dv to_ascii_lower_def char_of_eq_iff)
  have c: "ascii c < (128::nat)" "c \<noteq> CHR ''%''" using key_char_cases [OF assms] by auto
  then have hl: "?h < 16" "?l < 16" by auto
  have code: "char_of (?h * 16 + ?l) = c" by simp
  have two: "parse_uint 16 256 [upper_digit ?h, upper_digit ?l] = Some (?h * 16 + ?l)"
    "parse_uint 16 256 [digit_char ?h, digit_char ?l] = Some (?h * 16 + ?l)"
    using hl by (simp_all add: parse_two_digits)
  have lo: "to_ascii_lower c = c" if "\<not> is_ascii_upper c" using that by (simp add: to_ascii_lower_def)
  consider "c = CHR '':''" | "c = CHR 0x2F" | "is_ascii_upper c" "c \<noteq> CHR '':''" "c \<noteq> CHR 0x2F"
    | "\<not> is_ascii_upper c" "c \<noteq> CHR '':''" "c \<noteq> CHR 0x2F" by blast
  then show "unescape_stem (escape_key_char c @ s) = map_option ((#) c) (unescape_stem s)"
    by cases (simp_all add: escape_key_char_def parse_two_digits sep two code c del: div_mult_mod_eq)
  consider "c = CHR '':''" | "c = CHR 0x2F" | "is_ascii_upper c" "c \<noteq> CHR '':''" "c \<noteq> CHR 0x2F"
    | "\<not> is_ascii_upper c" "c \<noteq> CHR '':''" "c \<noteq> CHR 0x2F" by blast
  then show "unescape_stem (map to_ascii_lower (escape_key_char c) @ s) = map_option ((#) c) (unescape_stem s)"
    by cases (simp_all add: escape_key_char_def parse_two_digits sep two code c lo hl del: div_mult_mod_eq)
qed

lemma unescape_escape:
  assumes "list_all state_key_char key"
  shows "unescape_stem (escape_key key) = Some key"
    and "unescape_stem (map to_ascii_lower (escape_key key)) = Some key"
  using assms by (induction key) (auto simp: escape_key_def unescape_one)

lemma escape_no_tilde:
  "list_all state_key_char key \<Longrightarrow> CHR ''~'' \<notin> set (escape_key key)"
proof (induction key)
  case (Cons c key)
  have "digit_value CHR ''~'' = 255"
    by (simp add: digit_value_def is_ascii_digit_def is_ascii_lower_def is_ascii_upper_def)
  then have "CHR ''~'' \<noteq> upper_digit d" if "d < 16" for d
    using that digit_value_upper_digit [OF that] by auto
  then show ?case
    using Cons key_char_cases [of c] by (auto simp: escape_key_def escape_key_char_def)
qed (simp add: escape_key_def)

lemma stem_cut_le: "stem_cut out n \<le> n"
  by (induction n) (auto intro: le_SucI)

section \<open>Properties\<close>



end
