(* ===== verification/Write_Mode.thy ===== *)
theory Write_Mode
  imports Contract
begin

section \<open>Write modes and keyed writes\<close>

text \<open>
  \<open>write_mode.rs\<close> and \<open>canonical_json\<close> of \<open>util.rs\<close>: how a page is split into upserts and deletes by key,
  which keys count as one, and the ids and filters made from keys. The text of JSON scalars and of a list
  of strings is written by \<open>serde_json\<close>, a parameter. The reference is a destination that holds one row per
  key and takes the records of a page one after the other.
\<close>

datatype write_mode = Append | Upsert | Delete | Overwrite

fun write_mode_as_str :: "write_mode \<Rightarrow> string" where
  "write_mode_as_str Append = ''append''"
| "write_mode_as_str Upsert = ''upsert''"
| "write_mode_as_str Delete = ''delete''"
| "write_mode_as_str Overwrite = ''overwrite''"

record delete_marker =
  dm_field :: string
  dm_values :: "string list"

record write_libs =
  wl_scalar :: "value \<Rightarrow> string"
  wl_strings :: "string list \<Rightarrow> string"

subsection \<open>Canonical text\<close>

fun join_with :: "string \<Rightarrow> string list \<Rightarrow> string" where
  "join_with sep [] = []"
| "join_with sep [x] = x"
| "join_with sep (x # y # xs) = x @ sep @ join_with sep (y # xs)"

function canonical_json :: "write_libs \<Rightarrow> value \<Rightarrow> string" where
  "canonical_json libs (Object m) =
     ''{'' @ join_with '','' (map (\<lambda>(k, t). wl_scalar libs (String k) @ '':'' @ t)
              (sort_key fst (map (\<lambda>(k, v). (k, canonical_json libs v)) m))) @ ''}''"
| "canonical_json libs (Array xs) = ''['' @ join_with '','' (map (canonical_json libs) xs) @ '']''"
| "canonical_json libs Null = wl_scalar libs Null"
| "canonical_json libs (Bool b) = wl_scalar libs (Bool b)"
| "canonical_json libs (Number n) = wl_scalar libs (Number n)"
| "canonical_json libs (String s) = wl_scalar libs (String s)"
  by pat_completeness auto
termination
  by (relation "measure (size \<circ> snd)")
     (auto simp: less_Suc_eq_le size_list_estimation' dest: size_list_estimation' [where f = size])

subsection \<open>The scope of an overwrite\<close>

record overwrite_scope =
  os_column :: string
  os_lo :: "value"
  os_hi :: "value"

definition scope_validate :: "overwrite_scope \<Rightarrow> unit fres" where
  "scope_validate s =
     (if trim (os_column s) = [] then Err (Config ''overwrite scope: window `column` must not be empty'')
      else if os_lo s = Null \<or> os_hi s = Null then Err (Config ''overwrite scope: window `from`/`to` must not be null'')
      else Ok ())"

fun double_quotes :: "string \<Rightarrow> string" where
  "double_quotes [] = []"
| "double_quotes (c # s) = (if c = CHR 0x27 then [c, c] else [c]) @ double_quotes s"

fun sql_literal :: "write_libs \<Rightarrow> value \<Rightarrow> string" where
  "sql_literal libs (String s) = [CHR 0x27] @ double_quotes s @ [CHR 0x27]"
| "sql_literal libs (Number n) = wl_scalar libs (Number n)"
| "sql_literal libs (Bool b) = (if b then ''true'' else ''false'')"
| "sql_literal libs _ = ''NULL''"

definition render_where_with :: "overwrite_scope \<Rightarrow> string \<Rightarrow> (value \<Rightarrow> string) \<Rightarrow> string" where
  "render_where_with s quoted_col literal =
     quoted_col @ '' >= '' @ literal (os_lo s) @ '' AND '' @ quoted_col @ '' < '' @ literal (os_hi s)"

subsection \<open>Specifications and keys\<close>

record rollback_write_spec =
  rw_run_id :: string
  rw_run_id_column :: string
  rw_journal :: bool
  rw_keep_previous :: bool

record write_spec =
  ws_write_mode :: write_mode
  ws_key :: "string list"
  ws_delete_marker :: "delete_marker option"
  ws_rollback :: "rollback_write_spec option"

definition rollback_run_id :: "write_spec \<Rightarrow> string option" where
  "rollback_run_id s = map_option rw_run_id (ws_rollback s)"

definition journals :: "write_spec \<Rightarrow> bool" where
  "journals s = (case ws_rollback s of Some r \<Rightarrow> rw_journal r | None \<Rightarrow> False)"

definition keeps_previous :: "write_spec \<Rightarrow> bool" where
  "keeps_previous s = (case ws_rollback s of Some r \<Rightarrow> rw_keep_previous r | None \<Rightarrow> False)"

definition spec_validate :: "write_spec \<Rightarrow> unit fres" where
  "spec_validate s =
     (if ws_write_mode s \<in> {Upsert, Delete} \<and> ws_key s = []
      then Err (Config (''write_mode: '' @ write_mode_as_str (ws_write_mode s) @ '' requires a non-empty `key`''))
      else Ok ())"

definition dedups_by_key :: "write_spec \<Rightarrow> bool" where
  "dedups_by_key s \<longleftrightarrow> ws_write_mode s \<in> {Upsert, Delete} \<and> ws_key s \<noteq> []"

definition is_overwrite :: "write_spec \<Rightarrow> bool" where
  "is_overwrite s \<longleftrightarrow> ws_write_mode s = Overwrite"

fun key_columns :: "json_object \<Rightarrow> string list \<Rightarrow> (string, json_object) result" where
  "key_columns obj [] = Ok []"
| "key_columns obj (col # cols) =
     (case map_of obj col of
        None \<Rightarrow> Err (''missing key column '' @ quoted col)
      | Some v \<Rightarrow>
          if v = Null then Err (''null value for key column '' @ quoted col)
          else (case key_columns obj cols of Err m \<Rightarrow> Err m | Ok k \<Rightarrow> Ok ((col, v) # k)))"

definition extract_key :: "value \<Rightarrow> string list \<Rightarrow> (string, json_object) result" where
  "extract_key rec key =
     (case as_object rec of None \<Rightarrow> Err ''record is not a JSON object'' | Some obj \<Rightarrow> key_columns obj key)"

definition record_key :: "value \<Rightarrow> string list \<Rightarrow> json_object option" where
  "record_key rec key = (case extract_key rec key of Ok k \<Rightarrow> Some k | Err _ \<Rightarrow> None)"

definition is_delete_marked :: "value \<Rightarrow> delete_marker option \<Rightarrow> bool" where
  "is_delete_marked rec marker =
     (case marker of
        None \<Rightarrow> False
      | Some dm \<Rightarrow>
          (case value_get (dm_field dm) rec of
             None \<Rightarrow> False
           | Some v \<Rightarrow> (case as_str v of None \<Rightarrow> False | Some s \<Rightarrow> s \<in> set (dm_values dm))))"

text \<open>\<open>Map::remove\<close> of an insertion-ordered map moves the last entry into the gap.\<close>

fun obj_remove :: "string \<Rightarrow> json_object \<Rightarrow> json_object" where
  "obj_remove k [] = []"
| "obj_remove k ((k', v) # m) = (if k' = k then (if m = [] then [] else last m # butlast m) else (k', v) # obj_remove k m)"

definition strip_marker :: "value \<Rightarrow> delete_marker option \<Rightarrow> value" where
  "strip_marker rec marker =
     (case (marker, rec) of (Some dm, Object m) \<Rightarrow> Object (obj_remove (dm_field dm) m) | _ \<Rightarrow> rec)"

definition two53 :: rat where
  "two53 = 9007199254740992"

fun key_scalar_text :: "write_libs \<Rightarrow> value \<Rightarrow> string" where
  "key_scalar_text libs (String s) = s"
| "key_scalar_text libs (Number n) =
     (case n of
        Float f \<Rightarrow>
          if is_integral (f64_value f) \<and> \<bar>f64_value f\<bar> < two53 then show_int \<lfloor>f64_value f\<rfloor>
          else wl_scalar libs (Number n)
      | _ \<Rightarrow> wl_scalar libs (Number n))"
| "key_scalar_text libs (Bool b) = (if b then ''true'' else ''false'')"
| "key_scalar_text libs v = canonical_json libs v"

definition canonical :: "write_libs \<Rightarrow> json_object \<Rightarrow> string" where
  "canonical libs k = wl_strings libs (map (key_scalar_text libs \<circ> snd) k)"

text \<open>\<open>i64::MAX as f64\<close> is \<open>2^63\<close>, \<open>u64::MAX as f64\<close> is \<open>2^64\<close>.\<close>

function numeric_value :: "value \<Rightarrow> value" where
  "numeric_value (Number n) =
     (case n of
        Float f \<Rightarrow>
          let x = f64_value f in
          if is_integral x \<and> - (2 ^ 63) \<le> x \<and> x < 2 ^ 63 then value_of_int \<lfloor>x\<rfloor>
          else if is_integral x \<and> 0 \<le> x \<and> x < 2 ^ 64 then Number (PosInt (of_int \<lfloor>x\<rfloor>))
          else Number n
      | _ \<Rightarrow> Number n)"
| "numeric_value (Array xs) = Array (map numeric_value xs)"
| "numeric_value (Object m) = Object (map (\<lambda>(k, v). (k, numeric_value v)) m)"
| "numeric_value Null = Null"
| "numeric_value (Bool b) = Bool b"
| "numeric_value (String s) = String s"
  by pat_completeness auto
termination
  by (relation "measure size")
     (auto simp: less_Suc_eq_le size_list_estimation' dest: size_list_estimation' [where f = size])

definition canonical_exact :: "write_libs \<Rightarrow> json_object \<Rightarrow> string" where
  "canonical_exact libs k = canonical_json libs (Array (map (numeric_value \<circ> snd) k))"

definition key_to_doc_id :: "write_libs \<Rightarrow> json_object \<Rightarrow> string" where
  "key_to_doc_id libs k =
     (case k of
        [(c, v)] \<Rightarrow> (case v of String s \<Rightarrow> s | _ \<Rightarrow> canonical_json libs v)
      | _ \<Rightarrow> canonical_json libs (Array (map snd k)))"

text \<open>The map is collected from the pairs, so a repeated column keeps its last value.\<close>

definition key_to_filter :: "json_object \<Rightarrow> json_object" where
  "key_to_filter k = fold (\<lambda>(c, v). obj_insert c v) k []"

subsection \<open>Planning a page\<close>

record write_plan =
  wp_upserts :: "value list"
  wp_deletes :: "json_object list"
  wp_failed :: "(nat \<times> string) list"

datatype action = ActUpsert "value" | ActDelete json_object

definition is_delete_row :: "write_spec \<Rightarrow> value \<Rightarrow> bool" where
  "is_delete_row spec rec =
     (case ws_write_mode spec of
        Delete \<Rightarrow> True | Upsert \<Rightarrow> is_delete_marked rec (ws_delete_marker spec) | Append \<Rightarrow> False | Overwrite \<Rightarrow> False)"

definition action_of :: "write_spec \<Rightarrow> value \<Rightarrow> json_object \<Rightarrow> action" where
  "action_of spec rec k =
     (if is_delete_row spec rec then ActDelete k else ActUpsert (strip_marker rec (ws_delete_marker spec)))"

text \<open>The state of the loop: the failed rows, the slot of each canonical key, the actions in slot order.\<close>

type_synonym plan_state = "(nat \<times> string) list \<times> (string \<rightharpoonup> nat) \<times> action list"

definition plan_step :: "(json_object \<Rightarrow> string) \<Rightarrow> write_spec \<Rightarrow> nat \<Rightarrow> value \<Rightarrow> plan_state \<Rightarrow> plan_state" where
  "plan_step canon spec i rec st =
     (case st of (failed, index, order) \<Rightarrow>
        (case extract_key rec (ws_key spec) of
           Err msg \<Rightarrow> (failed @ [(i, msg)], index, order)
         | Ok k \<Rightarrow>
             (case index (canon k) of
                Some slot \<Rightarrow> (failed, index, order[slot := action_of spec rec k])
              | None \<Rightarrow> (failed, index(canon k \<mapsto> length order), order @ [action_of spec rec k]))))"

fun plan_loop :: "(json_object \<Rightarrow> string) \<Rightarrow> write_spec \<Rightarrow> nat \<Rightarrow> value list \<Rightarrow> plan_state \<Rightarrow> plan_state" where
  "plan_loop canon spec i [] st = st"
| "plan_loop canon spec i (rec # page) st = plan_loop canon spec (Suc i) page (plan_step canon spec i rec st)"

fun upserts_of :: "action list \<Rightarrow> value list" where
  "upserts_of [] = []"
| "upserts_of (ActUpsert v # as) = v # upserts_of as"
| "upserts_of (ActDelete k # as) = upserts_of as"

fun deletes_of :: "action list \<Rightarrow> json_object list" where
  "deletes_of [] = []"
| "deletes_of (ActUpsert v # as) = deletes_of as"
| "deletes_of (ActDelete k # as) = k # deletes_of as"

definition plan_writes_by :: "(json_object \<Rightarrow> string) \<Rightarrow> value list \<Rightarrow> write_spec \<Rightarrow> write_plan" where
  "plan_writes_by canon page spec =
     (case plan_loop canon spec 0 page ([], Map.empty, []) of (failed, index, order) \<Rightarrow>
        \<lparr> wp_upserts = upserts_of order, wp_deletes = deletes_of order, wp_failed = failed \<rparr>)"

definition plan_writes :: "write_libs \<Rightarrow> value list \<Rightarrow> write_spec \<Rightarrow> write_plan" where
  "plan_writes libs = plan_writes_by (canonical libs)"

definition plan_writes_exact :: "write_libs \<Rightarrow> value list \<Rightarrow> write_spec \<Rightarrow> write_plan" where
  "plan_writes_exact libs = plan_writes_by (canonical_exact libs)"

text \<open>The runs of a page: where the current run starts and whether it deletes.\<close>

fun run_bounds :: "write_spec \<Rightarrow> nat \<Rightarrow> value list \<Rightarrow> (nat \<times> bool) option \<Rightarrow> (nat \<times> nat) list" where
  "run_bounds spec i [] run = (case run of Some (start, d) \<Rightarrow> [(start, i)] | None \<Rightarrow> [])"
| "run_bounds spec i (rec # page) run =
     (case extract_key rec (ws_key spec) of
        Err _ \<Rightarrow> run_bounds spec (Suc i) page run
      | Ok _ \<Rightarrow>
          (let del = is_delete_row spec rec in
           case run of
             Some (start, run_is_delete) \<Rightarrow>
               if del \<noteq> run_is_delete then (start, i) # run_bounds spec (Suc i) page (Some (i, del))
               else run_bounds spec (Suc i) page (Some (start, del))
           | None \<Rightarrow> run_bounds spec (Suc i) page (Some (i, del))))"

definition plan_writes_ordered :: "write_libs \<Rightarrow> value list \<Rightarrow> write_spec \<Rightarrow> write_plan list" where
  "plan_writes_ordered libs page spec =
     map (\<lambda>(start, stop). (plan_writes libs (take (stop - start) (drop start page)) spec) \<lparr> wp_failed := [] \<rparr>)
       (run_bounds spec 0 page None)"

fun key_failures_from :: "nat \<Rightarrow> value list \<Rightarrow> write_spec \<Rightarrow> (nat \<times> string) list" where
  "key_failures_from i [] spec = []"
| "key_failures_from i (rec # page) spec =
     (case extract_key rec (ws_key spec) of Err m \<Rightarrow> [(i, m)] | Ok _ \<Rightarrow> []) @ key_failures_from (Suc i) page spec"

definition key_failures :: "value list \<Rightarrow> write_spec \<Rightarrow> (nat \<times> string) list" where
  "key_failures page spec = key_failures_from 0 page spec"

section \<open>Lemmas\<close>

subsection \<open>The reference destination\<close>

text \<open>
  A destination holds at most one row per key, where two keys are one when \<open>same\<close> maps them to the same
  thing. \<open>take_record\<close> is what a page means, record by record.
\<close>

type_synonym 'k destination = "'k \<rightharpoonup> value"

definition row_id :: "(json_object \<Rightarrow> 'k) \<Rightarrow> write_spec \<Rightarrow> value \<Rightarrow> 'k option" where
  "row_id same spec rec = map_option same (record_key rec (ws_key spec))"

definition take_record :: "(json_object \<Rightarrow> 'k) \<Rightarrow> write_spec \<Rightarrow> value \<Rightarrow> 'k destination \<Rightarrow> 'k destination" where
  "take_record same spec rec d =
     (case record_key rec (ws_key spec) of
        None \<Rightarrow> d
      | Some k \<Rightarrow>
          if is_delete_row spec rec then d(same k := None)
          else d(same k \<mapsto> strip_marker rec (ws_delete_marker spec)))"

definition upsert_row :: "(json_object \<Rightarrow> 'k) \<Rightarrow> write_spec \<Rightarrow> value \<Rightarrow> 'k destination \<Rightarrow> 'k destination" where
  "upsert_row same spec v d = (case record_key v (ws_key spec) of Some k \<Rightarrow> d(same k \<mapsto> v) | None \<Rightarrow> d)"

text \<open>A sink writes the upserts of a plan, then its deletes.\<close>

definition take_plan :: "(json_object \<Rightarrow> 'k) \<Rightarrow> write_spec \<Rightarrow> write_plan \<Rightarrow> 'k destination \<Rightarrow> 'k destination" where
  "take_plan same spec plan d =
     fold (\<lambda>k d. d(same k := None)) (wp_deletes plan) (fold (upsert_row same spec) (wp_upserts plan) d)"

subsection \<open>Keys survive stripping\<close>

lemma set_obj_remove: "distinct (map fst m) \<Longrightarrow> set (obj_remove f m) = {(k, v) \<in> set m. k \<noteq> f}"
proof (induction m)
  case (Cons e m)
  obtain k v where e: "e = (k, v)" by (cases e)
  have rest: "m \<noteq> [] \<Longrightarrow> set (last m # butlast m) = set m"
    by (metis append_butlast_last_id list.simps(15) rotate1.simps(2) set_rotate1)
  show ?case
  proof (cases "k = f")
    case True
    with Cons.prems e have "\<forall>(k', v') \<in> set m. k' \<noteq> f" by (auto simp: image_iff)
    with True e rest show ?thesis by auto
  next
    case False
    with Cons e show ?thesis by auto
  qed
qed simp

lemma distinct_obj_remove: "distinct (map fst m) \<Longrightarrow> distinct (map fst (obj_remove f m))"
proof (induction m)
  case (Cons e m)
  obtain k v where e: "e = (k, v)" by (cases e)
  have "m \<noteq> [] \<Longrightarrow> distinct (map fst m) \<Longrightarrow> distinct (map fst (last m # butlast m))"
    by (metis append_butlast_last_id distinct1_rotate map_append rotate1.simps(2) rotate1_map list.simps(8,9) append_Nil distinct_append
        disjoint_insert(2) distinct.simps(2) list.simps(15) Int_commute)
  with Cons e set_obj_remove [of m f] show ?case by (auto simp: image_iff)
qed simp

lemma map_of_obj_remove:
  assumes "distinct (map fst m)" "c \<noteq> f"
  shows "map_of (obj_remove f m) c = map_of m c"
proof -
  have "(c, v) \<in> set (obj_remove f m) \<longleftrightarrow> (c, v) \<in> set m" for v
    using assms by (simp add: set_obj_remove)
  then have "map_of (obj_remove f m) c = Some v \<longleftrightarrow> map_of m c = Some v" for v
    using assms(1) distinct_obj_remove [OF assms(1), of f] by (simp add: map_of_eq_Some_iff)
  then show ?thesis by (metis option.exhaust)
qed

lemma key_columns_cong:
  "(\<And>c. c \<in> set key \<Longrightarrow> map_of m c = map_of m' c) \<Longrightarrow> key_columns m key = key_columns m' key"
  by (induction key) (auto split: option.splits)

lemma extract_key_strip:
  assumes "wf_value rec" "\<And>dm. marker = Some dm \<Longrightarrow> dm_field dm \<notin> set key"
  shows "extract_key (strip_marker rec marker) key = extract_key rec key"
proof (cases "(marker, rec)")
  case (Pair a b)
  show ?thesis
  proof (cases "\<exists>dm m. marker = Some dm \<and> rec = Object m")
    case True
    then obtain dm m where dm: "marker = Some dm" and m: "rec = Object m" by blast
    have "key_columns (obj_remove (dm_field dm) m) key = key_columns m key"
      using assms dm m by (intro key_columns_cong map_of_obj_remove) auto
    with dm m show ?thesis by (simp add: extract_key_def strip_marker_def)
  next
    case False
    then show ?thesis by (auto simp: strip_marker_def split: option.splits "value.splits")
  qed
qed

subsection \<open>The plan of a page\<close>

fun action_key :: "(json_object \<Rightarrow> string) \<Rightarrow> write_spec \<Rightarrow> action \<Rightarrow> string option" where
  "action_key canon spec (ActUpsert v) = row_id canon spec v"
| "action_key canon spec (ActDelete k) = Some (canon k)"

fun action_row :: "action \<Rightarrow> value option" where
  "action_row (ActUpsert v) = Some v"
| "action_row (ActDelete k) = None"

abbreviation entries :: "(json_object \<Rightarrow> string) \<Rightarrow> write_spec \<Rightarrow> action list \<Rightarrow> (string option \<times> value option) list" where
  "entries canon spec order \<equiv> map (\<lambda>a. (action_key canon spec a, action_row a)) order"

definition settled :: "(json_object \<Rightarrow> string) \<Rightarrow> write_spec \<Rightarrow> action list \<Rightarrow> string destination \<Rightarrow> string destination" where
  "settled canon spec order d = (\<lambda>c. case map_of (entries canon spec order) (Some c) of Some r \<Rightarrow> r | None \<Rightarrow> d c)"

definition plan_inv :: "(json_object \<Rightarrow> string) \<Rightarrow> write_spec \<Rightarrow> (string \<rightharpoonup> nat) \<Rightarrow> action list \<Rightarrow> bool" where
  "plan_inv canon spec index order \<longleftrightarrow>
     distinct (map (action_key canon spec) order) \<and> None \<notin> set (map (action_key canon spec) order)
     \<and> (\<forall>c s. index c = Some s \<longleftrightarrow> s < length order \<and> action_key canon spec (order ! s) = Some c)"

lemma map_of_update_nth:
  "i < length xs \<Longrightarrow> distinct (map fst xs) \<Longrightarrow> fst (xs ! i) = k \<Longrightarrow> map_of (xs[i := (k, v)]) = (map_of xs)(k \<mapsto> v)"
proof (induction xs arbitrary: i)
  case (Cons x xs)
  obtain k0 v0 where x: "x = (k0, v0)" by (cases x)
  show ?case
  proof (cases i)
    case 0
    with Cons.prems x show ?thesis by (auto simp: fun_eq_iff)
  next
    case (Suc j)
    with Cons.prems have j: "j < length xs" "fst (xs ! j) = k" "distinct (map fst xs)" by simp_all
    then have "k \<in> fst ` set xs" by (metis image_eqI nth_mem)
    with Cons.prems(2) x have "k \<noteq> k0" by auto
    with Cons.IH [OF j(1,3,2)] Suc x show ?thesis by (auto simp: fun_eq_iff)
  qed
qed simp

lemma plan_step_inv:
  assumes inv: "plan_inv canon spec index order" and wf: "wf_value rec"
    and marker: "\<And>dm. ws_delete_marker spec = Some dm \<Longrightarrow> dm_field dm \<notin> set (ws_key spec)"
    and step: "plan_step canon spec i rec (failed, index, order) = (failed', index', order')"
  shows "plan_inv canon spec index' order'
    \<and> settled canon spec order' d = take_record canon spec rec (settled canon spec order d)
    \<and> failed' = failed @ (case extract_key rec (ws_key spec) of Err m \<Rightarrow> [(i, m)] | Ok _ \<Rightarrow> [])"
proof (cases "extract_key rec (ws_key spec)")
  case (Inl msg)
  with step inv show ?thesis by (auto simp: plan_step_def take_record_def record_key_def)
next
  case (Inr k)
  let ?a = "action_of spec rec k" and ?c = "canon k"
  have key: "action_key canon spec ?a = Some ?c"
    using Inr extract_key_strip [OF wf marker, of "ws_delete_marker spec"]
    by (simp add: action_of_def row_id_def record_key_def)
  have row: "take_record canon spec rec e = e(?c := action_row ?a)" for e
    using Inr by (simp add: take_record_def record_key_def action_of_def)
  note inv' = inv [unfolded plan_inv_def]
  show ?thesis
  proof (cases "index ?c")
    case (Some slot)
    with inv' have slot: "slot < length order" "action_key canon spec (order ! slot) = Some ?c" by auto
    have step': "failed' = failed" "index' = index" "order' = order[slot := ?a]"
      using step Inr Some by (simp_all add: plan_step_def)
    have keys: "map (action_key canon spec) order' = map (action_key canon spec) order"
      unfolding step' map_update key slot(2) [symmetric] using slot(1) by (simp add: list_update_id flip: nth_map)
    then have at: "s < length order \<Longrightarrow> action_key canon spec (order' ! s) = action_key canon spec (order ! s)" for s
      by (metis length_map nth_map)
    have "map_of (entries canon spec order') = (map_of (entries canon spec order))(Some ?c \<mapsto> action_row ?a)"
      unfolding step' map_update key
      by (rule map_of_update_nth) (use slot inv' in \<open>auto simp: comp_def\<close>)
    then have "settled canon spec order' d = (settled canon spec order d)(?c := action_row ?a)"
      by (auto simp: settled_def)
    moreover have "plan_inv canon spec index' order'"
      unfolding plan_inv_def keys step'(2) using inv' at step' by auto
    ultimately show ?thesis using row step'(1) Inr by simp
  next
    case None
    have step': "failed' = failed" "index' = index(?c \<mapsto> length order)" "order' = order @ [?a]"
      using step Inr None by (simp_all add: plan_step_def)
    have fresh: "Some ?c \<notin> set (map (action_key canon spec) order)"
      using inv' None by (auto simp: in_set_conv_nth) (metis option.distinct(1))
    then have other: "action_key canon spec (order ! s) \<noteq> Some ?c" if "s < length order" for s
      using that by (metis image_eqI list.set_map nth_mem)
    from fresh have "map_of (entries canon spec order) (Some ?c) = None" by (auto simp: map_of_eq_None_iff comp_def image_iff)
    then have "settled canon spec order' d = (settled canon spec order d)(?c := action_row ?a)"
      by (auto simp: settled_def step' key map_add_def split: option.splits)
    moreover have "plan_inv canon spec index' order'"
      unfolding plan_inv_def step' using inv' fresh other key by (auto simp: nth_append less_Suc_eq split: if_splits)
    ultimately show ?thesis using row step'(1) Inr by simp
  qed
qed

lemma plan_loop_inv:
  assumes "plan_inv canon spec index order" "\<forall>rec \<in> set page. wf_value rec"
    and "\<And>dm. ws_delete_marker spec = Some dm \<Longrightarrow> dm_field dm \<notin> set (ws_key spec)"
    and "plan_loop canon spec i page (failed, index, order) = (failed', index', order')"
  shows "plan_inv canon spec index' order'
    \<and> settled canon spec order' d = fold (take_record canon spec) page (settled canon spec order d)
    \<and> failed' = failed @ key_failures_from i page spec"
  using assms
proof (induction page arbitrary: i failed index order)
  case (Cons rec page)
  obtain failed1 index1 order1 where step: "plan_step canon spec i rec (failed, index, order) = (failed1, index1, order1)"
    by (metis prod_cases3)
  from plan_step_inv [OF Cons.prems(1) _ Cons.prems(3) step, of d] Cons.prems(2)
  have one: "plan_inv canon spec index1 order1" "settled canon spec order1 d = take_record canon spec rec (settled canon spec order d)"
    "failed1 = failed @ (case extract_key rec (ws_key spec) of Err m \<Rightarrow> [(i, m)] | Ok _ \<Rightarrow> [])" by simp_all
  have "plan_loop canon spec (Suc i) page (failed1, index1, order1) = (failed', index', order')"
    using Cons.prems(4) step by simp
  with Cons.IH [OF one(1) _ Cons.prems(3)] Cons.prems(2)
  have "plan_inv canon spec index' order'
    \<and> settled canon spec order' d = fold (take_record canon spec) page (settled canon spec order1 d)
    \<and> failed' = failed1 @ key_failures_from (Suc i) page spec" by simp
  with one(2,3) show ?case by simp
qed simp

text \<open>With distinct keys the upserts and deletes may be written apart.\<close>

lemma fold_upserts:
  assumes "distinct (map (action_key canon spec) order)" "None \<notin> set (map (action_key canon spec) order)"
  shows "fold (upsert_row canon spec) (upserts_of order) d c =
    (case map_of (entries canon spec order) (Some c) of Some (Some v) \<Rightarrow> Some v | _ \<Rightarrow> d c)"
  using assms
proof (induction order arbitrary: d)
  case (Cons a order)
  have none: "action_key canon spec a = Some k \<Longrightarrow> map_of (entries canon spec order) (Some k) = None" for k
    using Cons.prems(1) by (auto simp: map_of_eq_None_iff comp_def image_iff)
  show ?case
  proof (cases a)
    case (ActUpsert v)
    then obtain k where "action_key canon spec a = Some k" using Cons.prems(2) by (cases "action_key canon spec a") auto
    with ActUpsert Cons none [of k] show ?thesis
      by (auto simp: upsert_row_def row_id_def split: option.splits)
  next
    case (ActDelete k)
    with Cons none [of "canon k"] show ?thesis by (auto split: option.splits)
  qed
qed simp

lemma fold_deletes:
  assumes "distinct (map (action_key canon spec) order)"
  shows "fold (\<lambda>k d. d(canon k := None)) (deletes_of order) d c =
    (if map_of (entries canon spec order) (Some c) = Some None then None else d c)"
  using assms
proof (induction order arbitrary: d)
  case (Cons a order)
  have none: "action_key canon spec a = Some k \<Longrightarrow> map_of (entries canon spec order) (Some k) = None" for k
    using Cons.prems by (auto simp: map_of_eq_None_iff comp_def image_iff)
  show ?case
  proof (cases a)
    case (ActUpsert v)
    with Cons none [of c] show ?thesis by (cases "row_id canon spec v = Some c") auto
  next
    case (ActDelete k)
    with Cons none [of "canon k"] show ?thesis by auto
  qed
qed simp

lemma take_plan_settled:
  assumes "distinct (map (action_key canon spec) order)" "None \<notin> set (map (action_key canon spec) order)"
  shows "take_plan canon spec \<lparr> wp_upserts = upserts_of order, wp_deletes = deletes_of order, wp_failed = failed \<rparr> d
    = settled canon spec order d"
  by (rule ext) (simp add: take_plan_def settled_def fold_upserts [OF assms] fold_deletes [OF assms(1)] split: option.splits)

lemma plan_keys:
  assumes "distinct (map (action_key canon spec) order)"
  shows "distinct (map (row_id canon spec) (upserts_of order) @ map (Some \<circ> canon) (deletes_of order))
    \<and> set (map (row_id canon spec) (upserts_of order) @ map (Some \<circ> canon) (deletes_of order)) = set (map (action_key canon spec) order)"
  using assms
proof (induction order)
  case (Cons a order)
  show ?case
  proof (cases a)
    case (ActUpsert v)
    with Cons show ?thesis by (simp add: Un_commute)
  next
    case (ActDelete k)
    with Cons show ?thesis by auto
  qed
qed simp

lemma plan_writes_by_settled:
  assumes "\<forall>rec \<in> set page. wf_value rec"
    and "\<And>dm. ws_delete_marker spec = Some dm \<Longrightarrow> dm_field dm \<notin> set (ws_key spec)"
  obtains order where "plan_writes_by canon page spec =
      \<lparr> wp_upserts = upserts_of order, wp_deletes = deletes_of order, wp_failed = key_failures page spec \<rparr>"
    and "distinct (map (action_key canon spec) order)" "None \<notin> set (map (action_key canon spec) order)"
    and "\<And>d. settled canon spec order d = fold (take_record canon spec) page d"
proof -
  obtain failed index order where run: "plan_loop canon spec 0 page ([], Map.empty, []) = (failed, index, order)"
    by (metis prod_cases3)
  have "plan_inv canon spec Map.empty []" by (simp add: plan_inv_def)
  note inv = plan_loop_inv [OF this assms run]
  show ?thesis
  proof (rule that [of order])
    show "plan_writes_by canon page spec =
      \<lparr> wp_upserts = upserts_of order, wp_deletes = deletes_of order, wp_failed = key_failures page spec \<rparr>"
      using inv run by (simp add: plan_writes_by_def key_failures_def)
    show "settled canon spec order d = fold (take_record canon spec) page d" for d
      using inv [of d] by (simp add: settled_def)
  qed (use inv in \<open>simp_all add: plan_inv_def\<close>)
qed

section \<open>Properties\<close>

text \<open>C39. A planned page does to a keyed destination what its records do one after the other: the last record
  of a key decides, a marked row deletes, an unmarked one is stored without its marker. The rows with no
  usable key are reported with their position, and a key is written or deleted at most once.\<close>

theorem plan_writes_correct:
  assumes "\<forall>rec \<in> set page. wf_value rec"
    and "\<And>dm. ws_delete_marker spec = Some dm \<Longrightarrow> dm_field dm \<notin> set (ws_key spec)"
  shows "take_plan canon spec (plan_writes_by canon page spec) d = fold (take_record canon spec) page d
    \<and> wp_failed (plan_writes_by canon page spec) = key_failures page spec
    \<and> distinct (map (row_id canon spec) (wp_upserts (plan_writes_by canon page spec))
               @ map (Some \<circ> canon) (wp_deletes (plan_writes_by canon page spec)))"
proof -
  obtain order where plan: "plan_writes_by canon page spec =
      \<lparr> wp_upserts = upserts_of order, wp_deletes = deletes_of order, wp_failed = key_failures page spec \<rparr>"
    and keys: "distinct (map (action_key canon spec) order)" "None \<notin> set (map (action_key canon spec) order)"
    and settled: "\<And>d. settled canon spec order d = fold (take_record canon spec) page d"
    using plan_writes_by_settled [OF assms] by metis
  then show ?thesis using take_plan_settled [OF keys] plan_keys [OF keys(1)] by (simp add: comp_def)
qed

definition plain_libs :: write_libs where
  "plain_libs = \<lparr> wl_scalar = (\<lambda>v. case v of String s \<Rightarrow> quoted s | _ \<Rightarrow> []), wl_strings = (\<lambda>ss. concat (map quoted ss)) \<rparr>"

definition marked_spec :: write_spec where
  "marked_spec = \<lparr> ws_write_mode = Upsert, ws_key = [''id''],
     ws_delete_marker = Some \<lparr> dm_field = ''op'', dm_values = [''d''] \<rparr>, ws_rollback = None \<rparr>"

definition marked_page :: "value list" where
  "marked_page =
     [Object [(''op'', String ''c''), (''id'', String ''a''), (''v'', String ''1'')],
      Object [(''v'', String ''lost'')],
      Object [(''op'', String ''c''), (''id'', String ''b'')],
      Object [(''op'', String ''d''), (''id'', String ''a'')]]"

theorem plan_writes_correct_witness:
  "take_plan (canonical plain_libs) marked_spec (plan_writes_by (canonical plain_libs) marked_page marked_spec) Map.empty
     = [canonical plain_libs [(''id'', String ''b'')] \<mapsto> Object [(''id'', String ''b'')]]
   \<and> wp_failed (plan_writes_by (canonical plain_libs) marked_page marked_spec) = [(1, ''missing key column '' @ quoted ''id'')]"
proof -
  have "\<forall>rec \<in> set marked_page. wf_value rec" by (simp add: marked_page_def)
  moreover have "dm_field dm \<notin> set (ws_key marked_spec)" if "ws_delete_marker marked_spec = Some dm" for dm
    using that by (auto simp: marked_spec_def)
  ultimately show ?thesis
    using plan_writes_correct [of marked_page marked_spec "canonical plain_libs" Map.empty]
    by (simp add: marked_page_def marked_spec_def take_record_def record_key_def extract_key_def is_delete_row_def
        is_delete_marked_def strip_marker_def key_failures_def canonical_def plain_libs_def quoted_def)
qed

text \<open>
  Under a collation coarser than the JSON key a run may hold several spellings of one key. A later record
  then takes the slot of the first record of its own spelling, and a record between them is written last.
\<close>

definition collated :: "json_object \<Rightarrow> string" where
  "collated k = concat (map (\<lambda>(c, v). case v of String s \<Rightarrow> map to_ascii_lower s | _ \<Rightarrow> []) k)"

definition spelled_page :: "value list" where
  "spelled_page = [Object [(''id'', String ''Bob''), (''v'', String ''1'')], Object [(''id'', String ''bob''), (''v'', String ''2'')],
     Object [(''id'', String ''Bob''), (''v'', String ''3'')]]"

lemma collated_bob: "collated [(c, String ''Bob'')] = ''bob''" "collated [(c, String ''bob'')] = ''bob''"
proof -
  have "map to_ascii_lower ''Bob'' = ''bob''" "map to_ascii_lower ''bob'' = ''bob''" by code_simp+
  then show "collated [(c, String ''Bob'')] = ''bob''" "collated [(c, String ''bob'')] = ''bob''" by (simp_all add: collated_def)
qed

theorem ordered_plan_collation:
  "fold (take_plan collated marked_spec) (plan_writes_ordered plain_libs spelled_page marked_spec) Map.empty
     = [''bob'' \<mapsto> Object [(''id'', String ''bob''), (''v'', String ''2'')]]
   \<and> fold (take_record collated marked_spec) spelled_page Map.empty
     = [''bob'' \<mapsto> Object [(''id'', String ''Bob''), (''v'', String ''3'')]]"
  by (simp add: spelled_page_def marked_spec_def take_record_def record_key_def extract_key_def is_delete_row_def
      is_delete_marked_def strip_marker_def canonical_def plain_libs_def quoted_def plan_writes_ordered_def plan_writes_def
      plan_writes_by_def plan_step_def action_of_def take_plan_def upsert_row_def collated_bob)

end
