(* ===== verification/Compat.thy ===== *)
theory Compat
  imports Write_Mode Idempotency
begin

section \<open>Features and write paths\<close>

text \<open>
  \<open>compat.rs\<close>: the table that says on which write path a feature holds, which paths a run may take and which
  combinations are refused; \<open>native.rs\<close>: the negotiation of the byte path. The text of the reference page is
  left out. Of a sink's capabilities only what the table reads is here.
\<close>

datatype feature =
    Transforms | Masking | MaskingRetypesByValue | QualityFeature | ContractFeature | SchemaDrift | SchemaDriftFail
  | SchemaDriftEvolve | DlqPropagate | DlqAll | ExactlyOnceFeature | KeyedWrites | OverwriteFeature
  | GroupedOverwrite | AdaptiveFeature | ResilienceFeature | Cleanup | PolicyQuarantine | Policy | Budget | Profiling
  | MetadataColumns | DlqPerRowSink

definition Feature_ALL :: "feature list" where
  "Feature_ALL = [Transforms, Masking, MaskingRetypesByValue, QualityFeature, ContractFeature, SchemaDrift,
     SchemaDriftFail, SchemaDriftEvolve, DlqPropagate, DlqAll, DlqPerRowSink, ExactlyOnceFeature, KeyedWrites,
     OverwriteFeature, GroupedOverwrite, AdaptiveFeature, ResilienceFeature, Cleanup, PolicyQuarantine, Policy, Budget,
     Profiling, MetadataColumns]"

datatype write_path = Native | Columnar | Row | Watermark | OverwriteStaging

definition WritePath_ALL :: "write_path list" where
  "WritePath_ALL = [Native, Columnar, Row, Watermark, OverwriteStaging]"

fun write_path_label :: "write_path \<Rightarrow> string" where
  "write_path_label Native = ''native''"
| "write_path_label Columnar = ''columnar''"
| "write_path_label Row = ''row''"
| "write_path_label Watermark = ''exactly-once watermark''"
| "write_path_label OverwriteStaging = ''overwrite staging''"

datatype schema_report = Undeclared | Reported | Schemaless | DropsUnknownFieldsReport

record capabilities =
  ca_schema_report :: schema_report
  ca_schema_evolution :: bool
  ca_cleanup :: bool

datatype capability_condition = DropsUnknownFields | NoSchemaEvolution | NoCleanup

fun condition_label :: "capability_condition \<Rightarrow> string" where
  "condition_label DropsUnknownFields = ''sink drops unknown fields''"
| "condition_label NoSchemaEvolution = ''sink without schema evolution''"
| "condition_label NoCleanup = ''sink without cleanup''"

fun condition_holds :: "capability_condition \<Rightarrow> capabilities \<Rightarrow> bool" where
  "condition_holds DropsUnknownFields caps \<longleftrightarrow> ca_schema_report caps = DropsUnknownFieldsReport"
| "condition_holds NoSchemaEvolution caps \<longleftrightarrow> \<not> ca_schema_evolution caps"
| "condition_holds NoCleanup caps \<longleftrightarrow> \<not> ca_cleanup caps"

datatype target = PathTarget write_path | CapabilityTarget capability_condition

datatype verdict = Supported | DisablesPath | Refuse string

record compat_rule =
  cr_feature :: feature
  cr_target :: target
  cr_verdict :: verdict

definition path_rule :: "feature \<Rightarrow> write_path \<Rightarrow> verdict \<Rightarrow> compat_rule" where
  "path_rule f p v = \<lparr> cr_feature = f, cr_target = PathTarget p, cr_verdict = v \<rparr>"

definition cap_rule :: "feature \<Rightarrow> capability_condition \<Rightarrow> verdict \<Rightarrow> compat_rule" where
  "cap_rule f c v = \<lparr> cr_feature = f, cr_target = CapabilityTarget c, cr_verdict = v \<rparr>"

definition EO_WITH_DLQ :: string where
  "EO_WITH_DLQ = ''delivery: exactly_once (atomic watermark) is not compatible with a DLQ in this version''"

definition EO_WITH_OVERWRITE :: string where
  "EO_WITH_OVERWRITE = ''delivery: exactly_once (atomic watermark) is not compatible with write_mode: overwrite''"

definition EO_WITH_POLICY_QUARANTINE :: string where
  "EO_WITH_POLICY_QUARANTINE = ''a policy rule with on_runtime: quarantine is not compatible with delivery: exactly_once (atomic watermark): a quarantined row would fail the whole page's atomic commit instead of reaching the DLQ (only a rule whose `when` can match the row's sink kind and attributes counts)''"

definition DRIFT_FAIL_DROPS_FIELDS :: string where
  "DRIFT_FAIL_DROPS_FIELDS = ''schema.on_drift: fail cannot be enforced against this sink: it reports no destination schema and silently drops fields its schema lacks, so a drift would never be detected and the fields would be lost''"

definition DRIFT_EVOLVE_UNSUPPORTED :: string where
  "DRIFT_EVOLVE_UNSUPPORTED = ''schema.on_drift: evolve requires a sink that can evolve its destination schema''"

definition CLEANUP_UNSUPPORTED :: string where
  "CLEANUP_UNSUPPORTED = ''scoped cleanup requires a sink that can delete a scope''"

definition OVERWRITE_WITH_CLEANUP :: string where
  "OVERWRITE_WITH_CLEANUP = ''write_mode: overwrite replaces the whole destination, so scoped cleanup has nothing to do''"

definition OVERWRITE_WITH_EVOLVE :: string where
  "OVERWRITE_WITH_EVOLVE = ''write_mode: overwrite stages into a copy of the destination taken before the run, so schema.on_drift: evolve cannot apply to it''"

definition NATIVE_RULES :: "compat_rule list" where
  "NATIVE_RULES = map (\<lambda>f. path_rule f Native DisablesPath)
     [Transforms, Masking, MaskingRetypesByValue, QualityFeature, ContractFeature, SchemaDrift, SchemaDriftFail,
      SchemaDriftEvolve, DlqPropagate, DlqAll, ExactlyOnceFeature, KeyedWrites, GroupedOverwrite, AdaptiveFeature,
      ResilienceFeature, Cleanup, PolicyQuarantine, Policy, Budget, Profiling, MetadataColumns]"

definition COLUMNAR_RULES :: "compat_rule list" where
  "COLUMNAR_RULES = map (\<lambda>f. path_rule f Columnar DisablesPath)
     [MaskingRetypesByValue, DlqAll, DlqPerRowSink, ExactlyOnceFeature, OverwriteFeature, GroupedOverwrite,
      AdaptiveFeature, ResilienceFeature, Cleanup, PolicyQuarantine, MetadataColumns]"

definition RULES :: "compat_rule list" where
  "RULES = NATIVE_RULES @ COLUMNAR_RULES @
     [path_rule DlqPropagate Watermark (Refuse EO_WITH_DLQ),
      path_rule DlqAll Watermark (Refuse EO_WITH_DLQ),
      path_rule OverwriteFeature Watermark (Refuse EO_WITH_OVERWRITE),
      path_rule GroupedOverwrite Watermark (Refuse EO_WITH_OVERWRITE),
      path_rule PolicyQuarantine Watermark (Refuse EO_WITH_POLICY_QUARANTINE),
      path_rule Cleanup OverwriteStaging (Refuse OVERWRITE_WITH_CLEANUP),
      path_rule SchemaDriftEvolve OverwriteStaging (Refuse OVERWRITE_WITH_EVOLVE),
      cap_rule SchemaDriftFail DropsUnknownFields (Refuse DRIFT_FAIL_DROPS_FIELDS),
      cap_rule SchemaDriftEvolve NoSchemaEvolution (Refuse DRIFT_EVOLVE_UNSUPPORTED),
      cap_rule Cleanup NoCleanup (Refuse CLEANUP_UNSUPPORTED)]"

definition verdict_of :: "feature \<Rightarrow> target \<Rightarrow> verdict" where
  "verdict_of f t =
     (case find (\<lambda>r. cr_feature r = f \<and> cr_target r = t) RULES of Some r \<Rightarrow> cr_verdict r | None \<Rightarrow> Supported)"

definition path_allowed :: "write_path \<Rightarrow> feature list \<Rightarrow> bool" where
  "path_allowed p features = list_all (\<lambda>f. verdict_of f (PathTarget p) = Supported) features"

fun selected_path :: "feature \<Rightarrow> write_path option" where
  "selected_path ExactlyOnceFeature = Some Watermark"
| "selected_path OverwriteFeature = Some OverwriteStaging"
| "selected_path GroupedOverwrite = Some OverwriteStaging"
| "selected_path _ = None"

definition target_applies :: "feature list \<Rightarrow> capabilities option \<Rightarrow> target \<Rightarrow> bool" where
  "target_applies features sink t =
     (case t of
        PathTarget p \<Rightarrow> p \<in> set (List.map_filter selected_path features)
      | CapabilityTarget c \<Rightarrow> (case sink of Some caps \<Rightarrow> condition_holds c caps | None \<Rightarrow> False))"

fun refusal_of :: "compat_rule \<Rightarrow> (feature \<times> target \<times> string) option" where
  "refusal_of r = (case cr_verdict r of Refuse reason \<Rightarrow> Some (cr_feature r, cr_target r, reason) | _ \<Rightarrow> None)"

definition refusals :: "feature list \<Rightarrow> capabilities option \<Rightarrow> (feature \<times> target \<times> string) list" where
  "refusals features sink =
     List.map_filter refusal_of
       (filter (\<lambda>r. target_applies features sink (cr_target r)) (filter (\<lambda>r. cr_feature r \<in> set features) RULES))"

subsection \<open>The byte path\<close>

datatype native_format = NdJson | Csv | Parquet | ArrowIpc

fun native_format_as_str :: "native_format \<Rightarrow> string" where
  "native_format_as_str NdJson = ''ndjson''"
| "native_format_as_str Csv = ''csv''"
| "native_format_as_str Parquet = ''parquet''"
| "native_format_as_str ArrowIpc = ''arrow_ipc''"

record native_load_capability =
  nc_format :: native_format
  nc_mechanism :: string
  nc_write_modes :: "write_mode list"

record native_plan_inputs =
  ni_source_formats :: "native_format list"
  ni_sink_caps :: "native_load_capability list"
  ni_has_transforms :: bool
  ni_has_governance :: bool
  ni_delivery :: delivery_mode
  ni_write_mode :: write_mode
  ni_has_dlq :: bool

record native_plan =
  np_format :: native_format
  np_mechanism :: string

fun match_format :: "native_format list \<Rightarrow> native_load_capability list \<Rightarrow> write_mode \<Rightarrow> native_plan option" where
  "match_format [] caps mode = None"
| "match_format (fmt # fmts) caps mode =
     (case find (\<lambda>c. nc_format c = fmt \<and> mode \<in> set (nc_write_modes c)) caps of
        Some c \<Rightarrow> Some \<lparr> np_format = nc_format c, np_mechanism = nc_mechanism c \<rparr>
      | None \<Rightarrow> match_format fmts caps mode)"

definition plan_native_transfer :: "native_plan_inputs \<Rightarrow> native_plan option" where
  "plan_native_transfer i =
     (if ni_has_transforms i \<or> ni_has_governance i \<or> ni_has_dlq i then None
      else if ni_delivery i \<noteq> AtLeastOnce then None
      else match_format (ni_source_formats i) (ni_sink_caps i) (ni_write_mode i))"

section \<open>Lemmas\<close>

subsection \<open>The table\<close>

lemma set_map_filter_iff: "y \<in> set (List.map_filter f xs) \<longleftrightarrow> (\<exists>x \<in> set xs. f x = Some y)"
  by (force simp: List.map_filter_def)

text \<open>A pair has one verdict: no later line of the table is hidden by an earlier one.\<close>

lemma rules_distinct: "distinct (map (\<lambda>r. (cr_feature r, cr_target r)) RULES)"
  by (simp add: RULES_def NATIVE_RULES_def COLUMNAR_RULES_def path_rule_def cap_rule_def)

lemma rules_not_supported: "r \<in> set RULES \<Longrightarrow> cr_verdict r \<noteq> Supported"
  by (auto simp: RULES_def NATIVE_RULES_def COLUMNAR_RULES_def path_rule_def cap_rule_def)

lemma verdict_of_rule: "r \<in> set RULES \<Longrightarrow> verdict_of (cr_feature r) (cr_target r) = cr_verdict r"
proof -
  assume r: "r \<in> set RULES"
  let ?P = "\<lambda>r'. cr_feature r' = cr_feature r \<and> cr_target r' = cr_target r"
  have same: "r' = r" if "r' \<in> set RULES" "?P r'" for r'
    using rules_distinct r that by (auto simp: distinct_map dest: inj_onD)
  obtain r' where find: "find ?P RULES = Some r'" using r by (cases "find ?P RULES") (auto simp: find_None_iff)
  then have "r' \<in> set RULES" "?P r'" by (auto simp: find_Some_iff nth_mem)
  with same [of r'] find show ?thesis by (simp add: verdict_of_def)
qed

lemma verdict_of_iff:
  "v \<noteq> Supported \<Longrightarrow> verdict_of f t = v \<longleftrightarrow> \<lparr> cr_feature = f, cr_target = t, cr_verdict = v \<rparr> \<in> set RULES"
proof
  assume "v \<noteq> Supported" "verdict_of f t = v"
  then obtain r where "find (\<lambda>r. cr_feature r = f \<and> cr_target r = t) RULES = Some r" "cr_verdict r = v"
    by (auto simp: verdict_of_def split: option.splits)
  moreover from this have "r \<in> set RULES" "cr_feature r = f" "cr_target r = t"
    by (auto simp: find_Some_iff nth_mem)
  ultimately show "\<lparr> cr_feature = f, cr_target = t, cr_verdict = v \<rparr> \<in> set RULES" by (cases r) simp
next
  assume "\<lparr> cr_feature = f, cr_target = t, cr_verdict = v \<rparr> \<in> set RULES"
  from verdict_of_rule [OF this] show "verdict_of f t = v" by simp
qed

text \<open>A path that a feature selects is never merely disabled: what it does not support is refused.\<close>

lemma selected_refuses:
  assumes "selected_path g = Some p"
  shows "verdict_of f (PathTarget p) \<noteq> DisablesPath"
proof -
  have "\<lparr> cr_feature = f, cr_target = PathTarget p, cr_verdict = DisablesPath \<rparr> \<notin> set RULES"
    using assms by (cases g) (auto simp: RULES_def NATIVE_RULES_def COLUMNAR_RULES_def path_rule_def cap_rule_def)
  then show ?thesis using verdict_of_iff [of DisablesPath f "PathTarget p"] by simp
qed

lemma refusals_iff:
  "(f, t, reason) \<in> set (refusals features sink) \<longleftrightarrow>
     f \<in> set features \<and> verdict_of f t = Refuse reason \<and> target_applies features sink t"
proof
  assume "(f, t, reason) \<in> set (refusals features sink)"
  then obtain r where r: "r \<in> set RULES" "cr_feature r \<in> set features" "target_applies features sink (cr_target r)"
    "refusal_of r = Some (f, t, reason)" by (auto simp: refusals_def set_map_filter_iff simp del: refusal_of.simps)
  from r(4) have "f = cr_feature r" "t = cr_target r" "cr_verdict r = Refuse reason" by (auto split: verdict.splits)
  with r verdict_of_rule [OF r(1)]
  show "f \<in> set features \<and> verdict_of f t = Refuse reason \<and> target_applies features sink t" by simp
next
  assume "f \<in> set features \<and> verdict_of f t = Refuse reason \<and> target_applies features sink t"
  then show "(f, t, reason) \<in> set (refusals features sink)"
    by (force simp: refusals_def set_map_filter_iff verdict_of_iff)
qed

lemma path_allowed_iff: "path_allowed p features \<longleftrightarrow> (\<forall>f \<in> set features. verdict_of f (PathTarget p) = Supported)"
  by (simp add: path_allowed_def list_all_iff)

lemma disabled_path: "verdict_of f (PathTarget p) \<noteq> Supported \<Longrightarrow> path_allowed p features \<Longrightarrow> f \<notin> set features"
  by (auto simp: path_allowed_iff)

section \<open>Properties\<close>

text \<open>C0. A set of features is refused for a path it selects exactly when that path does not allow it, and a
  capability refusal names a condition the sink meets: the load-time gate and the path selection agree. The row
  path is always allowed.\<close>

theorem refusals_match_paths:
  "(\<forall>p \<in> set (List.map_filter selected_path features).
      path_allowed p features \<longleftrightarrow> (\<nexists>f reason. (f, PathTarget p, reason) \<in> set (refusals features sink)))
   \<and> (\<forall>f p reason. (f, PathTarget p, reason) \<in> set (refusals features sink) \<longrightarrow>
        f \<in> set features \<and> \<not> path_allowed p features)
   \<and> (\<forall>f c reason. (f, CapabilityTarget c, reason) \<in> set (refusals features sink) \<longrightarrow>
        f \<in> set features \<and> (\<exists>caps. sink = Some caps \<and> condition_holds c caps))
   \<and> path_allowed Row features"
proof (intro conjI ballI allI impI)
  fix p assume p: "p \<in> set (List.map_filter selected_path features)"
  then obtain g where g: "selected_path g = Some p" by (auto simp: set_map_filter_iff)
  have applies: "target_applies features sink (PathTarget p)" using p by (simp add: target_applies_def)
  have "verdict_of f (PathTarget p) = Supported \<longleftrightarrow> (\<nexists>reason. verdict_of f (PathTarget p) = Refuse reason)" for f
    using selected_refuses [OF g, of f] by (cases "verdict_of f (PathTarget p)") auto
  then show "path_allowed p features \<longleftrightarrow> (\<nexists>f reason. (f, PathTarget p, reason) \<in> set (refusals features sink))"
    using applies by (auto simp: path_allowed_iff refusals_iff)
next
  have "\<lparr> cr_feature = f, cr_target = PathTarget Row, cr_verdict = v \<rparr> \<notin> set RULES" for f v
    by (auto simp: RULES_def NATIVE_RULES_def COLUMNAR_RULES_def path_rule_def cap_rule_def)
  then show "path_allowed Row features" by (auto simp: path_allowed_iff) (metis verdict_of_iff)
qed (force simp: refusals_iff target_applies_def path_allowed_iff split: option.splits)+

theorem refusals_match_paths_witness:
  "(DlqAll, PathTarget Watermark, EO_WITH_DLQ) \<in> set (refusals [DlqAll, ExactlyOnceFeature] None)
   \<and> \<not> path_allowed Watermark [DlqAll, ExactlyOnceFeature] \<and> path_allowed Row [DlqAll]"
proof -
  have "(DlqAll, PathTarget Watermark, EO_WITH_DLQ) \<in> set (refusals [DlqAll, ExactlyOnceFeature] None)"
    by (simp add: refusals_iff target_applies_def List.map_filter_simps verdict_of_iff RULES_def path_rule_def)
  then show ?thesis
    using refusals_match_paths [of "[DlqAll, ExactlyOnceFeature]" None] refusals_match_paths [of "[DlqAll]" None] by blast
qed

end
