(* ===== verification/Pipeline_Stream.thy ===== *)
theory Pipeline_Stream
  imports Governance Idempotency State_Store Compat
begin

section \<open>The streaming loop\<close>

text \<open>
  \<open>run_stream_with\<close> of \<open>pipeline.rs\<close>: the gates at the start of a run, the loop over the pages with its
  three write paths (dead letters, exactly-once, default), the checkpoint of a page, the unwinding of an
  error and the final flush. Metrics, spans, timers and log lines are left out. Counts are natural
  numbers; the sequence of the exactly-once protocol is a 64-bit word.
\<close>

record run_options =
  ro_specs :: governance_specs
  ro_has_store :: bool
  ro_state_key :: "string option"
  ro_dlq :: "dlq_config option"
  ro_has_cancel :: bool
  ro_source_drains :: bool
  ro_delivery :: delivery_mode
  ro_replay :: "replay_guarantee option"
  ro_start_seq :: u64
  ro_adaptive :: "adaptive_config option"
  ro_resilience :: "resilience_policy option"
  ro_json_print :: "value \<Rightarrow> string"

record engine =
  en_log :: log
  en_gov :: governance_state
  en_records_written :: nat
  en_last_bookmark :: "value option"
  en_dlq_stats :: dlq_stats
  en_controller :: "aimd_controller option"
  en_breaker :: "circuit_breaker option"
  en_next_seq :: u64
  en_row_accounts :: "row_accounts option"
  en_outcomes :: batch_outcome_counters
  en_cancelled :: bool

record pipeline_result =
  pr_records_written :: nat
  pr_bookmark :: "value option"
  pr_dlq :: "dlq_stats option"

definition io :: "(log, 'a) op \<Rightarrow> (engine, 'a) op" where
  "io m = (\<lambda>w. case m (en_log w) of (r, l) \<Rightarrow> (r, w \<lparr> en_log := l \<rparr>))"

definition with_gov :: "(gov_world, 'a) op \<Rightarrow> (engine, 'a) op" where
  "with_gov m = (\<lambda>w. case m (en_gov w, en_log w) of (r, (g, l)) \<Rightarrow> (r, w \<lparr> en_gov := g, en_log := l \<rparr>))"

subsection \<open>Retries\<close>

definition retry_policy_of :: "run_options \<Rightarrow> retry_policy option" where
  "retry_policy_of opts = map_option res_retry (ro_resilience opts)"

definition with_retry :: "env \<Rightarrow> run_options \<Rightarrow> (log, 'a) op \<Rightarrow> (log, 'a) op" where
  "with_retry env opts m =
     (case retry_policy_of opts of
        Some p \<Rightarrow> execute_with_policy p (log_retry_env env) m
      | None \<Rightarrow> m)"

definition with_retry_write :: "env \<Rightarrow> run_options \<Rightarrow> (log, 'a) op \<Rightarrow> (log, 'a) op" where
  "with_retry_write env opts m =
     (if retry_policy_of opts \<noteq> None \<and> sk_replay_safe env then with_retry env opts m else m)"

text \<open>
  One attempt of an exactly-once page write. The counter of the attempts is part of the state of the
  retried operation.
\<close>

definition on_snd :: "('s, 'a) op \<Rightarrow> ('c \<times> 's, 'a) op" where
  "on_snd m = (\<lambda>(c, s). case m s of (r, s') \<Rightarrow> (r, (c, s')))"

definition eo_write_once ::
    "env \<Rightarrow> value list \<Rightarrow> string \<Rightarrow> string \<Rightarrow> u64 \<Rightarrow> (nat \<times> log, write_report) op" where
  "eo_write_once env page scope token seq =
     op_bind (gets fst) (\<lambda>attempts.
     op_bind (modify (\<lambda>(n, l). (n + 1, l))) (\<lambda>_.
     op_bind (if 0 < attempts then on_snd (read_token env scope) else ret None) (\<lambda>committed.
       if (case Option.bind committed parse_token of Some c \<Rightarrow> seq \<le> c | None \<Rightarrow> False)
       then ret (WriteReport_accepted (length page))
       else on_snd (gate_idempotent env page scope token))))"

definition counted_retry_env :: "env \<Rightarrow> (nat \<times> log) retry_env" where
  "counted_retry_env env =
     \<lparr> re_sleep = (\<lambda>d (n, l). case re_sleep (log_retry_env env) d l of (b, l') \<Rightarrow> (b, (n, l'))),
       re_clock = (\<lambda>(n, l). case re_clock (log_retry_env env) l of (c, l') \<Rightarrow> (c, (n, l'))) \<rparr>"

definition eo_write :: "env \<Rightarrow> run_options \<Rightarrow> value list \<Rightarrow> string \<Rightarrow> string \<Rightarrow> u64 \<Rightarrow> (log, write_report) op" where
  "eo_write env opts page scope token seq l =
     (case (case retry_policy_of opts of
              Some p \<Rightarrow> execute_with_policy p (counted_retry_env env) (eo_write_once env page scope token seq)
            | None \<Rightarrow> eo_write_once env page scope token seq) (0, l) of
        (r, (_, l')) \<Rightarrow> (r, l'))"

subsection \<open>Bookkeeping\<close>

definition record_batch :: "batch_outcome \<Rightarrow> (engine, unit) op" where
  "record_batch b = modify (\<lambda>w. w \<lparr> en_outcomes := record_outcome b (en_outcomes w) \<rparr>)"

definition fail_batch :: "faucet_error \<Rightarrow> (engine, 'a) op" where
  "fail_batch e = op_seq (record_batch Failed) (throw e)"

definition observe_batch :: "(engine, 'a) op \<Rightarrow> (engine, 'a) op" where
  "observe_batch m =
     op_bind (attempt m) (\<lambda>r.
       op_seq (record_batch (if is_ok r then Committed else Failed)) (lift_result r))"

definition settle_page :: "page_account \<Rightarrow> (engine, unit) op" where
  "settle_page account = (\<lambda>w.
     case settle account (en_row_accounts w) of (r, accounts) \<Rightarrow> (r, w \<lparr> en_row_accounts := accounts \<rparr>))"

definition add_written :: "nat \<Rightarrow> (engine, unit) op" where
  "add_written n = modify (\<lambda>w. w \<lparr> en_records_written := en_records_written w + n \<rparr>)"

definition set_last_bookmark :: "value \<Rightarrow> (engine, unit) op" where
  "set_last_bookmark b = modify (\<lambda>w. w \<lparr> en_last_bookmark := Some b \<rparr>)"

definition persist :: "env \<Rightarrow> run_options \<Rightarrow> value \<Rightarrow> (engine, unit) op" where
  "persist env opts v =
     (case (ro_has_store opts, ro_state_key opts) of
        (True, Some key) \<Rightarrow> io (with_retry env opts (state_put env key v))
      | _ \<Rightarrow> ret ())"

subsection \<open>The adaptive sub-batches\<close>

definition adaptive_of :: "run_options \<Rightarrow> adaptive_config option" where
  "adaptive_of opts = (case ro_adaptive opts of Some c \<Rightarrow> if ac_enabled c then Some c else None | None \<Rightarrow> None)"

text \<open>The controller is made by the first page that has rows.\<close>

definition chunk_size :: "run_options \<Rightarrow> nat \<Rightarrow> nat \<Rightarrow> (engine, nat) op" where
  "chunk_size opts records_len offset =
     (case adaptive_of opts of
        None \<Rightarrow> ret (records_len - offset)
      | Some cfg \<Rightarrow>
          op_bind (gets en_controller) (\<lambda>c.
            let ctrl = (case c of Some ctrl \<Rightarrow> ctrl | None \<Rightarrow> AimdController_new cfg records_len) in
            op_seq (modify (\<lambda>w. w \<lparr> en_controller := Some ctrl \<rparr>))
              (ret (min (max (ai_current ctrl) 1) (records_len - offset)))))"

definition observe_chunk :: "env \<Rightarrow> nat \<Rightarrow> nat \<Rightarrow> (engine, unit) op" where
  "observe_chunk env batch_len errors =
     modify (\<lambda>w. w \<lparr> en_controller := map_option (\<lambda>c. snd (observe
       \<lparr> ob_batch_len = batch_len, ob_errors = errors, ob_latency = ck_elapsed env (en_log w) \<rparr> c)) (en_controller w) \<rparr>)"

subsection \<open>The dead-letter path\<close>

text \<open>What a page's chunks have produced so far.\<close>

record dlq_page =
  pg_envelopes :: "value list"
  pg_success :: nat
  pg_account :: page_account
  pg_outer_err_recovered :: bool
  pg_had_per_row_failure :: bool

definition keeps_type :: "faucet_error \<Rightarrow> bool" where
  "keeps_type e =
     (case e of BudgetExceeded _ _ _ \<Rightarrow> True | PolicyViolation _ _ _ \<Rightarrow> True | RowsUnaccounted _ _ \<Rightarrow> True | _ \<Rightarrow> False)"

text \<open>The outcomes of a chunk and whether they are made up from one error of the whole chunk.\<close>

definition chunk_outcomes ::
    "env \<Rightarrow> run_options \<Rightarrow> dlq_config \<Rightarrow> value list \<Rightarrow> (engine, row_outcome list \<times> bool) op" where
  "chunk_outcomes env opts dlq chunk =
     op_bind (attempt (io (with_retry_write env opts (gate_partial env chunk)))) (\<lambda>r.
       case r of
         Ok outs \<Rightarrow>
           if length outs \<noteq> length chunk
           then fail_batch (outcome_count_mismatch (sk_name env) (length outs) (length chunk))
           else ret (outs, False)
       | Err e \<Rightarrow>
           if keeps_type e then fail_batch e
           else (case dc_on_batch_error dlq of
                   Propagate \<Rightarrow> fail_batch e
                 | OnDlqAll \<Rightarrow> ret (replicate (length chunk) (Err (Sink (error_display e))), True)))"

definition failing_rows :: "run_options \<Rightarrow> row_outcome list \<Rightarrow> nat list" where
  "failing_rows opts outs =
     filter (\<lambda>j. case outs ! j of
               Err e \<Rightarrow> (case retry_policy_of opts of Some p \<Rightarrow> policy_is_retriable p e | None \<Rightarrow> False)
             | Ok _ \<Rightarrow> False) [0..<length outs]"

fun put_outcomes :: "nat list \<Rightarrow> row_outcome list \<Rightarrow> row_outcome list \<Rightarrow> row_outcome list" where
  "put_outcomes (j # js) (r # rs) outs = put_outcomes js rs (outs[j := r])"
| "put_outcomes _ _ outs = outs"

text \<open>The poison retry: \<open>n\<close> attempts are left after the first.\<close>

fun poison_loop ::
    "env \<Rightarrow> run_options \<Rightarrow> nat \<Rightarrow> value list \<Rightarrow> row_outcome list \<Rightarrow> (engine, row_outcome list) op" where
  "poison_loop env opts 0 chunk outs = ret outs"
| "poison_loop env opts (Suc n) chunk outs =
     (let failing = failing_rows opts outs; subset = page_select failing chunk in
      if failing = [] then ret outs
      else op_bind (attempt (io (gate_partial env subset))) (\<lambda>r.
             case r of
               Ok rs \<Rightarrow>
                 if length rs \<noteq> length subset
                 then fail_batch (outcome_count_mismatch (sk_name env) (length rs) (length subset))
                 else poison_loop env opts n chunk (put_outcomes failing rs outs)
             | Err e \<Rightarrow> fail_batch e))"

definition poison_of :: "run_options \<Rightarrow> poison_policy option" where
  "poison_of opts = Option.bind (ro_resilience opts) res_poison"

definition poison_retry ::
    "env \<Rightarrow> run_options \<Rightarrow> value list \<Rightarrow> row_outcome list \<Rightarrow> bool \<Rightarrow> (engine, row_outcome list) op" where
  "poison_retry env opts chunk outs synthesized =
     (case poison_of opts of
        Some pp \<Rightarrow> if synthesized then ret outs
                   else poison_loop env opts (unat (pp_max_row_attempts pp) - 1) chunk outs
      | None \<Rightarrow> ret outs)"

text \<open>The rows of a chunk: counted, dropped, enveloped or fatal. The counts are successes, errors, drops.\<close>

fun row_loop ::
    "env \<Rightarrow> run_options \<Rightarrow> bool \<Rightarrow> nat \<Rightarrow> value list \<Rightarrow> nat \<Rightarrow> row_outcome list \<Rightarrow> value list \<times> nat \<times> nat \<times> nat
     \<Rightarrow> (engine, value list \<times> nat \<times> nat \<times> nat) op" where
  "row_loop env opts synthesized offset chunk j [] acc = ret acc"
| "row_loop env opts synthesized offset chunk j (Inr u # outs) (envs, ok, errs, drops) =
     row_loop env opts synthesized offset chunk (Suc j) outs (envs, ok + 1, errs, drops)"
| "row_loop env opts synthesized offset chunk j (Inl err # outs) (envs, ok, errs, drops) =
     (case (case poison_of opts of Some pp \<Rightarrow> pp_action pp | None \<Rightarrow> PoisonDlq) of
        PoisonFail \<Rightarrow> fail_batch (Sink (''poison-pill row failed permanently: '' @ error_display err))
      | PoisonDrop \<Rightarrow> row_loop env opts synthesized offset chunk (Suc j) outs (envs, ok, errs, drops + 1)
      | PoisonDlq \<Rightarrow>
          op_bind (gets en_log) (\<lambda>l.
            row_loop env opts synthesized offset chunk (Suc j) outs
              (push_failure chunk j (\<lambda>record. envelope_of env (ro_specs opts) l
                 (if synthesized then ReasonDlqAll else ReasonPartial) record err (offset + j)) envs,
               ok, errs + 1, drops)))"

definition dlq_chunk ::
    "env \<Rightarrow> run_options \<Rightarrow> dlq_config \<Rightarrow> nat \<Rightarrow> value list \<Rightarrow> dlq_page \<Rightarrow> (engine, dlq_page) op" where
  "dlq_chunk env opts dlq offset chunk page =
     op_bind (chunk_outcomes env opts dlq chunk) (\<lambda>(outs, synthesized).
     op_bind (poison_retry env opts chunk outs synthesized) (\<lambda>outs.
     op_bind (row_loop env opts synthesized offset chunk 0 outs (pg_envelopes page, pg_success page, 0, 0))
       (\<lambda>(envs, ok, errs, drops).
     op_bind (record_batch (if synthesized then OutcomeDlqAll
                            else if 0 < errs \<or> 0 < drops then OutcomeDlqPartial else Committed)) (\<lambda>_.
     op_bind (observe_chunk env (length chunk) errs) (\<lambda>_.
     ret (page \<lparr> pg_envelopes := envs, pg_success := ok,
            pg_account := (pg_account page) \<lparr> pa_failed := pa_failed (pg_account page) + errs,
                                              pa_dropped := pa_dropped (pg_account page) + drops \<rparr>,
            pg_outer_err_recovered := pg_outer_err_recovered page \<or> synthesized,
            pg_had_per_row_failure := pg_had_per_row_failure page \<or> \<not> synthesized \<and> 0 < errs \<rparr>))))))"

text \<open>A chunk is never empty, since the loop runs while rows are left; the test only shows that it ends.\<close>

function dlq_chunks ::
    "env \<Rightarrow> run_options \<Rightarrow> dlq_config \<Rightarrow> value list \<Rightarrow> nat \<Rightarrow> dlq_page \<Rightarrow> (engine, dlq_page) op" where
  "dlq_chunks env opts dlq governed offset page =
     (if offset < length governed
      then op_bind (chunk_size opts (length governed) offset) (\<lambda>size.
             if size = 0 then ret page
             else op_bind (dlq_chunk env opts dlq offset (page_slice offset (offset + size) governed) page)
                    (\<lambda>page. dlq_chunks env opts dlq governed (offset + size) page))
      else ret page)"
  by pat_completeness auto
termination
  by (relation "measure (\<lambda>(env, opts, dlq, governed, offset, page). length governed - offset)") auto

declare dlq_chunks.simps [simp del]

text \<open>The circuit breaker of a page: a page with rows of which none succeeded is a failure.\<close>

definition breaker_step :: "run_options \<Rightarrow> nat \<Rightarrow> nat \<Rightarrow> (engine, faucet_error option) op" where
  "breaker_step opts records_len page_success =
     op_bind (gets en_breaker) (\<lambda>breaker.
       case (breaker, Option.bind (ro_resilience opts) res_circuit_breaker) of
         (Some b, Some cfg) \<Rightarrow>
           if 0 < records_len \<and> page_success = 0
           then (case record_failure b of (opened, b') \<Rightarrow>
                   op_seq (modify (\<lambda>w. w \<lparr> en_breaker := Some b' \<rparr>))
                     (ret (if opened then Some (CircuitOpen (br_consecutive b') (cb_cooldown cfg)) else None)))
           else if 0 < page_success
           then op_seq (modify (\<lambda>w. w \<lparr> en_breaker := Some (record_success b) \<rparr>)) (ret None)
           else ret None
       | _ \<Rightarrow> ret None)"

definition total_budget_error :: "dlq_config \<Rightarrow> nat \<Rightarrow> faucet_error option" where
  "total_budget_error dlq new_total =
     (case dc_max_failures_total dlq of
        Some limit \<Rightarrow>
          if limit < new_total
          then Some (Sink (''DLQ total budget exceeded: '' @ show_nat new_total @ '' > '' @ show_nat limit))
          else None
      | None \<Rightarrow> None)"

definition budget_error :: "dlq_config \<Rightarrow> nat \<Rightarrow> nat \<Rightarrow> faucet_error option" where
  "budget_error dlq page_failures records_dlq =
     (case dc_max_failures_per_page dlq of
        Some limit \<Rightarrow>
          if limit < page_failures
          then Some (Sink (''DLQ per-page budget exceeded: '' @ show_nat page_failures @ '' > '' @ show_nat limit))
          else total_budget_error dlq (records_dlq + page_failures)
      | None \<Rightarrow> total_budget_error dlq (records_dlq + page_failures))"

definition write_envelopes :: "env \<Rightarrow> run_options \<Rightarrow> value list \<Rightarrow> (engine, unit) op" where
  "write_envelopes env opts envelopes =
     (if envelopes = [] then ret ()
      else op_bind
        (op_map_err (dlq_write_error ''DLQ sink write failed'')
           (io (if retry_policy_of opts \<noteq> None \<and> dq_replay_safe env
                then with_retry env opts (gate_dlq env envelopes) else gate_dlq env envelopes)))
        (\<lambda>_. modify (\<lambda>w. w \<lparr> en_dlq_stats := (en_dlq_stats w)
               \<lparr> ds_records_dlq := ds_records_dlq (en_dlq_stats w) + length envelopes,
                  ds_pages_with_failures := ds_pages_with_failures (en_dlq_stats w) + 1 \<rparr> \<rparr>)))"

definition dlq_checkpoint :: "env \<Rightarrow> run_options \<Rightarrow> value option \<Rightarrow> (engine, unit) op" where
  "dlq_checkpoint env opts bookmark =
     (case bookmark of
        None \<Rightarrow> ret ()
      | Some b \<Rightarrow>
          op_seq (if sk_is_overwrite env then ret () else io (with_retry env opts (sink_flush env)))
          (op_seq (op_map_err dlq_flush_error (io (with_retry env opts (dlq_flush env))))
          (op_seq (if sk_is_overwrite env then ret () else persist env opts b)
                  (set_last_bookmark b))))"

text \<open>The whole page: what it returns is the abort deferred until the page is durable.\<close>

definition dlq_page_path ::
    "env \<Rightarrow> run_options \<Rightarrow> dlq_config \<Rightarrow> value list \<Rightarrow> value list \<Rightarrow> page_account \<Rightarrow> value option
     \<Rightarrow> (engine, faucet_error option) op" where
  "dlq_page_path env opts dlq governed gov_envelopes account bookmark =
     op_bind (if adaptive_of opts \<noteq> None \<and> 0 < length governed then io (gate_admit env governed) else ret ()) (\<lambda>_.
     op_bind (dlq_chunks env opts dlq governed 0
        \<lparr> pg_envelopes = [], pg_success = 0, pg_account = account, pg_outer_err_recovered = False,
          pg_had_per_row_failure = False \<rparr>) (\<lambda>page.
     let envelopes = prepend gov_envelopes (pg_envelopes page) in
     op_bind (breaker_step opts (length governed) (pg_success page)) (\<lambda>circuit.
     op_bind (gets (ds_records_dlq \<circ> en_dlq_stats)) (\<lambda>records_dlq.
     op_bind (write_envelopes env opts envelopes) (\<lambda>_.
     op_bind (add_written (pg_success page)) (\<lambda>_.
     op_bind (settle_page ((pg_account page) \<lparr> pa_accepted := pa_accepted (pg_account page) + pg_success page \<rparr>)) (\<lambda>_.
     op_bind (dlq_checkpoint env opts bookmark) (\<lambda>_.
     ret (case budget_error dlq (length envelopes) records_dlq of Some e \<Rightarrow> Some e | None \<Rightarrow> circuit)))))))))"

definition raise_deferred :: "faucet_error option \<Rightarrow> ('s, unit) op" where
  "raise_deferred d = (case d of None \<Rightarrow> ret () | Some e \<Rightarrow> throw e)"

text \<open>The label of a page in the dead-letter metrics.\<close>

definition reason_count :: "value list \<Rightarrow> dlq_reason \<Rightarrow> nat" where
  "reason_count envelopes r =
     length (filter (\<lambda>v. Option.bind (value_get ''reason'' v) as_str = Some (reason_as_str r)) envelopes)"

definition dominant_governance_reason :: "value list \<Rightarrow> dlq_reason" where
  "dominant_governance_reason envelopes =
     (let q = reason_count envelopes ReasonQuality; c = reason_count envelopes ReasonContract;
          d = reason_count envelopes ReasonSchemaDrift
      in if c \<le> q \<and> d \<le> q then ReasonQuality else if d \<le> c then ReasonContract else ReasonSchemaDrift)"

definition page_reason :: "dlq_page \<Rightarrow> value list \<Rightarrow> dlq_reason" where
  "page_reason page gov_envelopes =
     (if pg_had_per_row_failure page then ReasonPartial
      else if pg_outer_err_recovered page then ReasonDlqAll
      else if length gov_envelopes < length (prepend gov_envelopes (pg_envelopes page)) then ReasonPartial
      else dominant_governance_reason gov_envelopes)"

subsection \<open>The exactly-once path\<close>

definition eo_checkpoint :: "env \<Rightarrow> run_options \<Rightarrow> value \<Rightarrow> u64 \<Rightarrow> (engine, unit) op" where
  "eo_checkpoint env opts b seq =
     op_seq (io (with_retry env opts (sink_flush env)))
     (op_seq (persist env opts (wrap_state (Some b) seq))
             (set_last_bookmark b))"

definition eo_page_path ::
    "env \<Rightarrow> run_options \<Rightarrow> u64 \<Rightarrow> value list \<Rightarrow> page_account \<Rightarrow> value option \<Rightarrow> (engine, unit) op" where
  "eo_page_path env opts committed_seq governed account bookmark =
     (let scope = (case ro_state_key opts of Some k \<Rightarrow> k | None \<Rightarrow> []) in
      case bookmark of
        Some b \<Rightarrow>
          op_bind (modify (\<lambda>w. w \<lparr> en_next_seq := en_next_seq w + 1 \<rparr>)) (\<lambda>_.
          op_bind (gets en_next_seq) (\<lambda>seq.
          op_bind
            (if seq \<le> committed_seq
             then ret (account \<lparr> pa_accepted := pa_accepted account + length governed \<rparr>)
             else op_bind (observe_batch (io (eo_write env opts governed scope
                      (format_token_with_bookmark (ro_json_print opts) seq (Some b)) seq))) (\<lambda>report.
                  op_bind (add_written (wr_accepted report)) (\<lambda>_.
                  ret (add_report report account))))
            (\<lambda>account.
          op_bind (settle_page account) (\<lambda>_.
          eo_checkpoint env opts b seq))))
      | None \<Rightarrow>
          if governed = [] then ret ()
          else op_bind (observe_batch (io (with_retry_write env opts (gate_reported env governed)))) (\<lambda>report.
               op_bind (add_written (wr_accepted report)) (\<lambda>_.
               settle_page (add_report report account))))"

subsection \<open>The default path\<close>

function write_chunks ::
    "env \<Rightarrow> run_options \<Rightarrow> value list \<Rightarrow> nat \<Rightarrow> page_account \<Rightarrow> (engine, page_account) op" where
  "write_chunks env opts governed offset account =
     (if offset < length governed
      then op_bind (chunk_size opts (length governed) offset) (\<lambda>size.
             if size = 0 then ret account
             else op_bind (observe_batch (io (with_retry_write env opts
                     (gate_reported env (page_slice offset (offset + size) governed))))) (\<lambda>report.
                  op_bind (add_written (wr_accepted report)) (\<lambda>_.
                  op_bind (if adaptive_of opts = None then ret () else observe_chunk env size 0) (\<lambda>_.
                  write_chunks env opts governed (offset + size) (add_report report account)))))
      else ret account)"
  by pat_completeness auto
termination
  by (relation "measure (\<lambda>(env, opts, governed, offset, account). length governed - offset)") auto

declare write_chunks.simps [simp del]

definition default_checkpoint :: "env \<Rightarrow> run_options \<Rightarrow> value option \<Rightarrow> (engine, unit) op" where
  "default_checkpoint env opts bookmark =
     (case bookmark of
        None \<Rightarrow> ret ()
      | Some b \<Rightarrow>
          op_seq (if sk_is_overwrite env then ret () else io (with_retry env opts (sink_flush env)))
          (op_seq (if sk_is_overwrite env then ret () else persist env opts b)
                  (set_last_bookmark b)))"

text \<open>Without an adaptive configuration the single sub-batch is the whole page.\<close>

definition default_page_path ::
    "env \<Rightarrow> run_options \<Rightarrow> value list \<Rightarrow> page_account \<Rightarrow> value option \<Rightarrow> (engine, unit) op" where
  "default_page_path env opts governed account bookmark =
     op_bind (if governed = [] then ret account
              else op_bind (if adaptive_of opts = None then ret () else io (gate_admit env governed)) (\<lambda>_.
                   write_chunks env opts governed 0 account)) (\<lambda>account.
     op_bind (settle_page account) (\<lambda>_.
     default_checkpoint env opts bookmark))"

subsection \<open>A page\<close>

definition process_page ::
    "env \<Rightarrow> run_options \<Rightarrow> bool \<Rightarrow> u64 \<Rightarrow> stream_page \<Rightarrow> (engine, unit) op" where
  "process_page env opts exactly_once committed_seq page =
     (let specs = (ro_specs opts) \<lparr> gs_has_dlq := ro_dlq opts \<noteq> None \<rparr> in
      op_bind (with_gov (apply_governance env specs (sp_records page))) (\<lambda>gov.
        let account = (PageAccount_new (length (sp_records page))) \<lparr> pa_quarantined := length (go_envelopes gov) \<rparr> in
        case go_deferred_abort gov of
          Some e \<Rightarrow>
            op_bind (if ro_dlq opts = None then ret ()
                     else op_bind (io (abort_with_envelopes env (go_envelopes gov))) (\<lambda>count.
                          modify (\<lambda>w. w \<lparr> en_dlq_stats := count (en_dlq_stats w) \<rparr>)))
              (\<lambda>_. throw e)
        | None \<Rightarrow>
            (case ro_dlq opts of
               Some dlq \<Rightarrow>
                 op_bind (dlq_page_path env opts dlq (go_records gov) (go_envelopes gov) account (sp_bookmark page))
                   raise_deferred
             | None \<Rightarrow>
                 if exactly_once then eo_page_path env opts committed_seq (go_records gov) account (sp_bookmark page)
                 else default_page_path env opts (go_records gov) account (sp_bookmark page))))"

text \<open>One round of the loop: it goes on, or stops.\<close>

datatype loop_step = Again | Stop

definition poll_step :: "env \<Rightarrow> run_options \<Rightarrow> bool \<Rightarrow> u64 \<Rightarrow> (engine, loop_step) op" where
  "poll_step env opts exactly_once committed_seq =
     op_bind (modify (\<lambda>w. w \<lparr> en_log := PollPage # en_log w \<rparr>)) (\<lambda>_.
     op_bind (gets en_log) (\<lambda>l.
       if ro_has_cancel opts \<and> \<not> ro_source_drains opts \<and> pg_cancel_wins env l
       then op_seq (modify (\<lambda>w. w \<lparr> en_cancelled := True \<rparr>)) (ret Stop)
       else (case pg_next env l of
               None \<Rightarrow>
                 op_seq (modify (\<lambda>w. w \<lparr> en_cancelled := en_cancelled w
                           \<or> ro_source_drains opts \<and> ro_has_cancel opts \<and> pg_is_cancelled env l \<rparr>)) (ret Stop)
             | Some (Err e) \<Rightarrow> throw e
             | Some (Ok page) \<Rightarrow>
                 if sp_records page = [] \<and> sp_bookmark page = None then ret Again
                 else op_seq (process_page env opts exactly_once committed_seq page) (ret Again))))"

text \<open>The loop; a stream that never ends makes a run that never returns.\<close>

partial_function (option) drive :: "('s, loop_step) op \<Rightarrow> 's \<Rightarrow> (unit fres \<times> 's) option" where
  "drive step w =
     (case step w of (r, w') \<Rightarrow>
        (case r of
           Inl e \<Rightarrow> Some (Err e, w')
         | Inr s \<Rightarrow> (case s of Again \<Rightarrow> drive step w' | Stop \<Rightarrow> Some (Ok (), w'))))"

subsection \<open>The run\<close>

definition check_dlq_gates :: "run_options \<Rightarrow> unit fres" where
  "check_dlq_gates opts =
     (let specs = ro_specs opts; no_dlq = (ro_dlq opts = None) in
      if (case gs_quality specs of Some q \<Rightarrow> quality_requires_dlq q | None \<Rightarrow> False) \<and> no_dlq
      then Err (Config (''quality: on_failure '' @ quoted ''quarantine'' @ ''/'' @ quoted ''quarantine_batch'' @ '' requires a DLQ sink''))
      else if (case gs_contract specs of Some c \<Rightarrow> contract_requires_dlq c | None \<Rightarrow> False) \<and> no_dlq
      then Err (Config (''contract: on_breach '' @ quoted ''quarantine'' @ '' requires a DLQ sink''))
      else if (case gs_schema_drift specs of Some p \<Rightarrow> requires_dlq p | None \<Rightarrow> False) \<and> no_dlq
      then Err (Config (''schema: on_drift '' @ quoted ''quarantine'' @ '' (or on_incompatible '' @ quoted ''quarantine''
             @ '') requires a DLQ sink''))
      else (case ro_state_key opts of Some key \<Rightarrow> validate_state_key key | None \<Rightarrow> Ok ()))"

definition not_replayable :: "env \<Rightarrow> faucet_error" where
  "not_replayable env = Config (''delivery: exactly_once '' @ map char_of [226::nat, 128, 148]
     @ '' the source does not replay deterministically from a bookmark, so the atomic-watermark mechanism cannot be used; configure `write_mode: upsert` with a `key` on sink ''
     @ quoted (sk_name env) @ '' for keyed-upsert effectively-once instead'')"

definition no_mechanism :: "env \<Rightarrow> faucet_error" where
  "no_mechanism env = Config (''delivery: exactly_once requires an idempotent (atomic-watermark) sink or a sink configured to dedup by key (`write_mode: upsert` + `key`), but ''
     @ quoted (sk_name env) @ '' provides neither'')"

definition select_mechanism :: "env \<Rightarrow> run_options \<Rightarrow> effectively_once_mechanism option fres" where
  "select_mechanism env opts =
     (if ro_delivery opts = AtLeastOnce then Ok None
      else
        let replay_ok = (case ro_replay opts of None \<Rightarrow> True | Some r \<Rightarrow> r = Deterministic) in
        if sk_supports_idempotent_writes env \<and> replay_ok
        then (if \<not> ro_has_store opts \<or> ro_state_key opts = None
              then Err (Config ''delivery: exactly_once (atomic watermark) requires a state store'')
              else if ro_dlq opts \<noteq> None then Err (Config EO_WITH_DLQ)
              else if sk_is_overwrite env then Err (Config EO_WITH_OVERWRITE)
              else Ok (Some AtomicWatermark))
        else if sk_dedups_by_key env then Ok (Some KeyedUpsert)
        else if sk_supports_idempotent_writes env then Err (not_replayable env)
        else Err (no_mechanism env))"

definition read_committed :: "env \<Rightarrow> run_options \<Rightarrow> bool \<Rightarrow> (engine, u64) op" where
  "read_committed env opts exactly_once =
     (if exactly_once
      then op_bind (io (read_token env (case ro_state_key opts of Some k \<Rightarrow> k | None \<Rightarrow> []))) (\<lambda>t.
             ret (case Option.bind t parse_token of Some c \<Rightarrow> c | None \<Rightarrow> 0))
      else ret 0)"

definition start_run :: "env \<Rightarrow> run_options \<Rightarrow> (engine, bool \<times> u64) op" where
  "start_run env opts =
     op_bind (lift_result (check_dlq_gates opts)) (\<lambda>_.
     op_bind (lift_result (select_mechanism env opts)) (\<lambda>mechanism.
     let exactly_once = (mechanism = Some AtomicWatermark) in
     op_bind (read_committed env opts exactly_once) (\<lambda>committed_seq.
     op_bind (lift_result (case adaptive_of opts of Some cfg \<Rightarrow> adaptive_validate cfg | None \<Rightarrow> Ok ())) (\<lambda>_.
     ret (exactly_once, committed_seq)))))"

text \<open>The flushes of an error unwind are best effort: their errors are swallowed.\<close>

definition unwind :: "env \<Rightarrow> run_options \<Rightarrow> faucet_error \<Rightarrow> (engine, 'a) op" where
  "unwind env opts e =
     op_seq (if ro_dlq opts = None then ret (Ok ()) else attempt (io (dlq_flush env)))
     (op_seq (if sk_is_overwrite env then ret (Ok ()) else attempt (io (sink_flush env)))
             (throw e))"

definition finish_run :: "env \<Rightarrow> run_options \<Rightarrow> (engine, pipeline_result) op" where
  "finish_run env opts =
     op_seq (if ro_dlq opts = None then ret () else op_map_err dlq_flush_error (io (dlq_flush env)))
     (op_bind (gets en_cancelled) (\<lambda>cancelled.
      op_seq (if cancelled \<and> sk_is_overwrite env then ret () else io (sink_flush env))
      (gets (\<lambda>w. \<lparr> pr_records_written = en_records_written w, pr_bookmark = en_last_bookmark w,
                   pr_dlq = (if ro_dlq opts = None then None else Some (en_dlq_stats w)) \<rparr>))))"

definition initial_engine :: "run_options \<Rightarrow> row_accounts option \<Rightarrow> log \<Rightarrow> engine" where
  "initial_engine opts accounts l =
     \<lparr> en_log = l, en_gov = GovernanceState_default, en_records_written = 0, en_last_bookmark = None,
       en_dlq_stats = \<lparr> ds_records_dlq = 0, ds_pages_with_failures = 0 \<rparr>, en_controller = None,
       en_breaker = map_option (\<lambda>cb. CircuitBreaker_new (cb_consecutive_failures cb))
         (Option.bind (ro_resilience opts) res_circuit_breaker),
       en_next_seq = ro_start_seq opts, en_row_accounts = accounts, en_outcomes = BatchOutcomeCounters_new,
       en_cancelled = False \<rparr>"

definition run_stream_with ::
    "env \<Rightarrow> run_options \<Rightarrow> row_accounts option \<Rightarrow> log \<Rightarrow> (pipeline_result fres \<times> engine) option" where
  "run_stream_with env opts accounts l =
     (case start_run env opts (initial_engine opts accounts l) of
        (Err e, w) \<Rightarrow> Some (Err e, w)
      | (Ok (exactly_once, committed_seq), w) \<Rightarrow>
          (case drive (poll_step env opts exactly_once committed_seq) w of
             None \<Rightarrow> None
           | Some (Err e, w') \<Rightarrow> Some (unwind env opts e w')
           | Some (Ok _, w') \<Rightarrow> Some (finish_run env opts w')))"

end
