(* ===== verification/Pipeline_Laws.thy ===== *)
theory Pipeline_Laws
  imports Pipeline_Stream
begin

section \<open>What a run may do\<close>

text \<open>
  The laws of the streaming loop: in which order rows, dead letters and bookmarks become durable, what a
  page may add to the log, how often rows are submitted, and that every row is accounted for. They hold
  for every environment: sinks and stores that fail at any call are included.
\<close>

subsection \<open>Frames\<close>

text \<open>
  A relation between the state before and after an operation that is reflexive and transitive is kept by
  every composition of operations that keep it. The interface serves the footprints in the log and the
  fields an operation leaves alone.
\<close>

definition moves :: "('s \<Rightarrow> 's \<Rightarrow> bool) \<Rightarrow> ('s, 'a) op \<Rightarrow> bool" where
  "moves R m \<longleftrightarrow> (\<forall>s. R s (snd (m s)))"

locale op_frame =
  fixes R :: "'s \<Rightarrow> 's \<Rightarrow> bool"
  assumes refl: "R s s"
    and trans: "R s t \<Longrightarrow> R t u \<Longrightarrow> R s u"
begin

lemma ret: "moves R (ret x)"
  by (simp add: moves_def ret_def refl)

lemma throw: "moves R (throw e)"
  by (simp add: moves_def throw_def refl)

lemma gets: "moves R (gets f)"
  by (simp add: moves_def gets_def refl)

lemma lift: "moves R (lift_result r)"
  by (simp add: moves_def lift_result_def refl)

lemma bind: "moves R m \<Longrightarrow> (\<And>x. moves R (f x)) \<Longrightarrow> moves R (op_bind m f)"
  unfolding moves_def op_bind_def by (auto split: prod.splits sum.splits intro: trans) (metis snd_conv trans)+

lemma seq: "moves R m \<Longrightarrow> moves R m' \<Longrightarrow> moves R (op_seq m m')"
  unfolding op_seq_def by (rule bind)

lemma map_err: "moves R m \<Longrightarrow> moves R (op_map_err f m)"
  by (auto simp: moves_def op_map_err_def split: prod.splits) (metis snd_conv)

lemma attempt: "moves R m \<Longrightarrow> moves R (attempt m)"
  by (auto simp: moves_def attempt_def split: prod.splits) (metis snd_conv)

lemma modify: "(\<And>s. R s (f s)) \<Longrightarrow> moves R (modify f)"
  by (simp add: moves_def modify_def)

lemma retry:
  assumes "moves R m" "\<And>s d. R s (snd (re_sleep env d s))" "\<And>s. R s (snd (re_clock env s))"
  shows "moves R (execute_with_policy p env m)"
proof -
  have t: "triple (R s0) (execute_with_policy p env m) (\<lambda>_. R s0) (R s0)" for s0
  proof (rule execute_with_policy_triple)
    show "triple (R s0) m (\<lambda>_. R s0) (R s0)"
      using assms(1) by (intro tripleI) (metis moves_def snd_conv trans)+
    show "R s0 s'" if "R s0 s" "re_sleep env d s = (b, s')" for s d b s'
      using that assms(2) [of s d] trans by (metis snd_conv)
    show "R s0 s'" if "R s0 s" "re_clock env s = (c, s')" for s c s'
      using that assms(3) [of s] trans by (metis snd_conv)
  qed
  show ?thesis unfolding moves_def
  proof
    fix s
    obtain r s' where run: "execute_with_policy p env m s = (r, s')" by (cases "execute_with_policy p env m s")
    show "R s (snd (execute_with_policy p env m s))"
      using triple_Ok [OF t refl, of s] triple_Err [OF t refl, of s] run by (cases r) auto
  qed
qed

lemmas rules = ret throw gets lift bind seq map_err attempt

end

text \<open>The log grows by events of a kind, and a part of the state stays as it is.\<close>

definition grows :: "('s \<Rightarrow> log) \<Rightarrow> (event \<Rightarrow> bool) \<Rightarrow> ('s \<Rightarrow> 'b) \<Rightarrow> 's \<Rightarrow> 's \<Rightarrow> bool" where
  "grows lg S keep s s' \<longleftrightarrow> (\<exists>evs. lg s' = evs @ lg s \<and> list_all S evs) \<and> keep s' = keep s"

interpretation grows: op_frame "grows lg S keep" for lg S keep
proof
  fix s t u
  show "grows lg S keep s s" by (simp add: grows_def)
  assume "grows lg S keep s t" "grows lg S keep t u"
  then obtain evs evs' where "lg t = evs @ lg s" "list_all S evs" "lg u = evs' @ lg t" "list_all S evs'"
    "keep u = keep s" by (auto simp: grows_def)
  then show "grows lg S keep s u" by (auto simp: grows_def intro!: exI [of _ "evs' @ evs"])
qed

definition pure_log :: "log \<Rightarrow> unit" where
  "pure_log l = ()"

abbreviation adds :: "(event \<Rightarrow> bool) \<Rightarrow> (log, 'a) op \<Rightarrow> bool" where
  "adds S m \<equiv> moves (grows (\<lambda>l. l) S pure_log) m"

abbreviation adds_keeping :: "(event \<Rightarrow> bool) \<Rightarrow> (engine \<Rightarrow> 'b) \<Rightarrow> (engine, 'a) op \<Rightarrow> bool" where
  "adds_keeping S keep m \<equiv> moves (grows en_log S keep) m"

lemma adds_perform: "S ev \<Longrightarrow> adds S (perform ev f)"
  by (auto simp: moves_def grows_def perform_def pure_log_def)

lemma adds_mono: "adds S m \<Longrightarrow> (\<And>ev. S ev \<Longrightarrow> T ev) \<Longrightarrow> adds T m"
  unfolding moves_def grows_def by (meson list_all_iff)

lemma adds_keeping_mono: "adds_keeping S keep m \<Longrightarrow> (\<And>ev. S ev \<Longrightarrow> T ev) \<Longrightarrow> adds_keeping T keep m"
  unfolding moves_def grows_def by (meson list_all_iff)

lemma adds_io:
  assumes "adds S m" "\<And>w l. keep (w \<lparr> en_log := l \<rparr>) = keep w"
  shows "adds_keeping S keep (io m)"
  using assms by (auto simp: moves_def grows_def io_def split: prod.splits) (metis snd_conv)

lemma adds_with_retry:
  assumes "adds S m" "\<And>d. S (Sleep d)" "S Clock"
  shows "adds S (with_retry env opts m)"
  unfolding with_retry_def
  by (cases "retry_policy_of opts")
     (auto intro!: grows.retry assms simp: log_retry_env_def grows_def pure_log_def assms)

lemma adds_with_retry_write:
  assumes "adds S m" "\<And>d. S (Sleep d)" "S Clock"
  shows "adds S (with_retry_write env opts m)"
  using adds_with_retry [OF assms] assms(1) by (simp add: with_retry_write_def)

subsection \<open>Footprints\<close>

text \<open>The kinds of events.\<close>

fun is_wait :: "event \<Rightarrow> bool" where
  "is_wait (Sleep d) = True"
| "is_wait Clock = True"
| "is_wait _ = False"

fun is_sink_write :: "event \<Rightarrow> bool" where
  "is_sink_write (SinkWrite rs) = True"
| "is_sink_write (SinkPartial rs) = True"
| "is_sink_write (SinkIdempotent rs scope token) = True"
| "is_sink_write (SinkColumnar rs n) = True"
| "is_sink_write (SinkNative n first) = True"
| "is_sink_write _ = False"

fun is_dlq_write :: "event \<Rightarrow> bool" where
  "is_dlq_write (DlqWrite rs) = True"
| "is_dlq_write _ = False"

fun is_put :: "event \<Rightarrow> bool" where
  "is_put (StatePut k v) = True"
| "is_put _ = False"

text \<open>The calls of the streaming loop; the others belong to the fast paths and to the run around the loop.\<close>

fun stream_event :: "event \<Rightarrow> bool" where
  "stream_event (SinkColumnar rs n) = False"
| "stream_event (SinkNative n first) = False"
| "stream_event BeginOverwrite = False"
| "stream_event CommitOverwrite = False"
| "stream_event AbortOverwrite = False"
| "stream_event CompleteRun = False"
| "stream_event (SinkCleanup scope keys) = False"
| "stream_event (StateGet k) = False"
| "stream_event (StateCas k v) = False"
| "stream_event (StateDelete k) = False"
| "stream_event (StartBookmark v) = False"
| "stream_event _ = True"

lemmas gate_defs = gate_reported_def gate_partial_def gate_admit_def gate_idempotent_def sink_flush_def dlq_flush_def
  state_put_def read_token_def

lemma adds_gate_dlq: "S (DlqWrite envelopes) \<Longrightarrow> adds S (gate_dlq env envelopes)"
  unfolding gate_dlq_def by (intro grows.rules adds_perform) (auto intro!: grows.rules)

lemma adds_eo_write_once:
  assumes "S (SinkToken scope)" "S (SinkIdempotent page scope token)"
  shows "moves (grows snd S (\<lambda>_. ())) (eo_write_once env page scope token seq)"
  unfolding eo_write_once_def gate_defs
  by (intro grows.rules grows.modify)
     (auto intro!: grows.rules simp: moves_def grows_def on_snd_def perform_def ret_def assms)

lemma adds_eo_write:
  assumes "S (SinkToken scope)" "S (SinkIdempotent page scope token)" "\<And>d. S (Sleep d)" "S Clock"
  shows "adds S (eo_write env opts page scope token seq)"
proof -
  let ?m = "case retry_policy_of opts of
      Some p \<Rightarrow> execute_with_policy p (counted_retry_env env) (eo_write_once env page scope token seq)
    | None \<Rightarrow> eo_write_once env page scope token seq"
  have "moves (grows snd S (\<lambda>_. ())) ?m"
    by (cases "retry_policy_of opts")
       (auto intro!: grows.retry adds_eo_write_once assms
         simp: counted_retry_env_def log_retry_env_def grows_def assms)
  then show ?thesis
    by (auto simp: moves_def grows_def eo_write_def pure_log_def split: prod.splits) (metis snd_conv)
qed

text \<open>Governance only asks for the schema and evolves it.\<close>

fun is_schema_call :: "event \<Rightarrow> bool" where
  "is_schema_call SinkSchema = True"
| "is_schema_call (SinkEvolve e) = True"
| "is_schema_call _ = False"

lemma schema_stream: "is_schema_call ev \<Longrightarrow> stream_event ev"
  by (cases ev) auto

lemma gov_on_log: "adds S m \<Longrightarrow> moves (grows snd S (\<lambda>_. ())) (on_log m)"
  by (auto simp: moves_def grows_def on_log_def split: prod.splits) (metis snd_conv)

lemma gov_on_gov: "moves (grows snd S (\<lambda>_. ())) (on_gov f)"
  unfolding on_gov_def by (rule grows.modify) (auto simp: grows_def)

lemma governance_footprint: "moves (grows snd is_schema_call (\<lambda>_. ())) (apply_governance env specs records)"
proof -
  have refresh: "moves (grows snd is_schema_call (\<lambda>_. ())) (refresh_schema env)"
    unfolding refresh_schema_def by (intro grows.rules gov_on_log gov_on_gov adds_perform) simp
  have quarantine: "moves (grows snd is_schema_call (\<lambda>_. ())) (drift_quarantine env specs diff rs pos)" for diff rs pos
    unfolding drift_quarantine_def by (intro grows.rules) (auto intro!: grows.rules split: prod.splits)
  have policy: "moves (grows snd is_schema_call (\<lambda>_. ())) (apply_drift_policy env specs policy diff dest rs pos)"
    for policy diff dest rs pos
    unfolding apply_drift_policy_def Let_def
    by (auto intro!: grows.rules gov_on_log gov_on_gov adds_perform refresh quarantine
        split: on_drift.splits on_incompatible.splits)
  have drift: "moves (grows snd is_schema_call (\<lambda>_. ())) (drift_pass_step env specs rs pos)" for rs pos
    unfolding drift_pass_step_def Let_def
    by (auto intro!: grows.rules gov_on_gov refresh policy split: option.splits)
  have contract: "moves (grows snd is_schema_call (\<lambda>_. ())) (contract_pass_step env specs rs pos)" for rs pos
    unfolding contract_pass_step_def by (auto intro!: grows.rules gov_on_gov split: option.splits)
  show ?thesis
    unfolding apply_governance_def
    by (auto intro!: grows.rules contract drift split: option.splits prod.splits)
qed

lemma with_gov_footprint:
  assumes "\<And>w g l. keep (w \<lparr> en_gov := g, en_log := l \<rparr>) = keep w"
  shows "adds_keeping is_schema_call keep (with_gov (apply_governance env specs records))"
proof (unfold moves_def, rule allI)
  fix w :: engine
  obtain r g l where run: "apply_governance env specs records (en_gov w, en_log w) = (r, (g, l))"
    by (metis prod.collapse)
  with governance_footprint [of env specs records] obtain evs where "l = evs @ en_log w" "list_all is_schema_call evs"
    by (auto simp: moves_def grows_def) (metis snd_conv)
  with run assms show "grows en_log is_schema_call keep w (snd (with_gov (apply_governance env specs records) w))"
    by (auto simp: grows_def with_gov_def)
qed

subsection \<open>The write paths\<close>

text \<open>Nothing but the checkpoint puts state, nothing but the dead-letter write writes dead letters.\<close>

definition page_event :: "event \<Rightarrow> bool" where
  "page_event ev \<longleftrightarrow> stream_event ev \<and> \<not> is_put ev \<and> \<not> is_dlq_write ev"

lemma page_event_simps [simp]:
  "page_event (SinkWrite rs)" "page_event (SinkPartial rs)" "page_event (SinkIdempotent rs s t)" "page_event (SinkToken s)"
  "page_event (SinkAdmit rs)" "page_event SinkFlush" "page_event DlqFlush" "page_event (Sleep d)" "page_event Clock"
  "page_event PollPage"
  by (simp_all add: page_event_def)

abbreviation page_op :: "(engine, 'a) op \<Rightarrow> bool" where
  "page_op m \<equiv> adds_keeping page_event en_row_accounts m"

lemma page_op_io: "adds page_event m \<Longrightarrow> page_op (io m)"
  by (erule adds_io) simp

lemma page_op_modify: "(\<And>w. en_log (f w) = en_log w \<and> en_row_accounts (f w) = en_row_accounts w) \<Longrightarrow> page_op (modify f)"
  by (rule grows.modify) (simp add: grows_def)

lemmas page_op_intros = grows.rules page_op_io page_op_modify adds_with_retry adds_with_retry_write adds_perform

lemma page_op_batch:
  "page_op (record_batch b)" "page_op (fail_batch e)" "page_op m \<Longrightarrow> page_op (observe_batch m)"
  "page_op (add_written n)" "page_op (chunk_size opts n k)" "page_op (observe_chunk env n k)"
  "page_op (breaker_step opts n k)" "page_op (set_last_bookmark v)"
  unfolding record_batch_def fail_batch_def observe_batch_def add_written_def chunk_size_def observe_chunk_def
    breaker_step_def set_last_bookmark_def Let_def
  by (auto intro!: page_op_intros split: option.splits prod.splits)

lemma page_op_chunk_outcomes: "page_op (chunk_outcomes env opts dlq chunk)"
  unfolding chunk_outcomes_def gate_defs
  by (auto intro!: page_op_intros page_op_batch split: sum.splits on_batch_error.splits)

lemma page_op_poison_loop: "page_op (poison_loop env opts n chunk outs)"
  by (induction n arbitrary: outs)
     (auto intro!: page_op_intros page_op_batch simp: Let_def gate_defs split: sum.splits)

lemma page_op_poison_retry: "page_op (poison_retry env opts chunk outs synthesized)"
  by (auto simp: poison_retry_def intro!: grows.rules page_op_poison_loop split: option.splits)

lemma page_op_row_loop: "page_op (row_loop env opts synthesized offset chunk j outs acc)"
proof (induction outs arbitrary: j acc synthesized)
  case (Cons r outs)
  obtain envs ok errs drops where acc: "acc = (envs, ok, errs, drops)" by (cases acc)
  show ?case
    by (cases r) (auto simp: acc intro!: Cons grows.rules page_op_batch split: poison_action.splits)
qed (simp add: grows.ret)

lemma page_op_dlq_chunk: "page_op (dlq_chunk env opts dlq offset chunk page)"
  unfolding dlq_chunk_def
  by (auto intro!: grows.rules page_op_batch page_op_chunk_outcomes page_op_poison_retry page_op_row_loop)

lemma page_op_dlq_chunks: "page_op (dlq_chunks env opts dlq governed offset page)"
proof (induction env opts dlq governed offset page rule: dlq_chunks.induct)
  case (1 env opts dlq governed offset page)
  show ?case
    by (subst dlq_chunks.simps) (auto intro!: grows.rules page_op_batch page_op_dlq_chunk 1)
qed

lemma page_op_write_chunks: "page_op (write_chunks env opts governed offset account)"
proof (induction env opts governed offset account rule: write_chunks.induct)
  case (1 env opts governed offset account)
  show ?case
    by (subst write_chunks.simps) (auto intro!: page_op_intros page_op_batch 1 simp: gate_defs)
qed

lemma page_op_eo_write: "page_op (io (eo_write env opts page scope token seq))"
  by (intro page_op_io adds_eo_write) simp_all

subsection \<open>The order of durability\<close>

text \<open>
  Has everything submitted to a sink been flushed? A successful flush makes what precedes it durable; a
  flush that fails changes nothing. A bookmark may only be stored when both sinks are clean.
\<close>

fun sink_clean :: "env \<Rightarrow> log \<Rightarrow> bool" where
  "sink_clean env [] = True"
| "sink_clean env (ev # l) =
     (if ev = SinkFlush \<and> is_ok (sk_flush env (ev # l)) then True
      else \<not> is_sink_write ev \<and> sink_clean env l)"

fun dlq_clean :: "env \<Rightarrow> log \<Rightarrow> bool" where
  "dlq_clean env [] = True"
| "dlq_clean env (ev # l) =
     (if ev = DlqFlush \<and> is_ok (dq_flush env (ev # l)) then True
      else \<not> is_dlq_write ev \<and> dlq_clean env l)"

fun checkpoints_durable :: "env \<Rightarrow> log \<Rightarrow> bool" where
  "checkpoints_durable env [] = True"
| "checkpoints_durable env (ev # l) =
     ((is_put ev \<longrightarrow> sink_clean env l \<and> dlq_clean env l) \<and> checkpoints_durable env l)"

definition loop_inv :: "env \<Rightarrow> run_options \<Rightarrow> log \<Rightarrow> bool" where
  "loop_inv env opts l \<longleftrightarrow>
     checkpoints_durable env l
     \<and> (ro_dlq opts = None \<longrightarrow> dlq_clean env l)
     \<and> (sk_is_overwrite env \<longrightarrow> list_all (\<lambda>ev. \<not> is_put ev) l)"

lemma loop_inv_page_events:
  assumes "loop_inv env opts l" "list_all (\<lambda>ev. \<not> is_put ev \<and> (ro_dlq opts = None \<longrightarrow> \<not> is_dlq_write ev)) evs"
  shows "loop_inv env opts (evs @ l)"
  using assms by (induction evs) (auto simp: loop_inv_def)

lemma loop_inv_page_op:
  assumes "page_op m" "loop_inv env opts (en_log w)" "m w = (r, w')"
  shows "loop_inv env opts (en_log w')"
proof -
  from assms(1,3) obtain evs where "en_log w' = evs @ en_log w" "list_all page_event evs"
    by (auto simp: moves_def grows_def) (metis snd_conv)
  with loop_inv_page_events [OF assms(2), of evs] show ?thesis
    by (auto simp: page_event_def list_all_iff)
qed

lemma triple_page_op:
  assumes "page_op m"
  shows "triple (\<lambda>w. loop_inv env opts (en_log w)) m (\<lambda>_ w. loop_inv env opts (en_log w)) (\<lambda>w. loop_inv env opts (en_log w))"
  using loop_inv_page_op [OF assms] by (intro tripleI) blast+

text \<open>The operations of a checkpoint.\<close>

lemma triple_io:
  "triple P m Q E \<Longrightarrow> triple (\<lambda>w. P (en_log w)) (io m) (\<lambda>x w. Q x (en_log w)) (\<lambda>w. E (en_log w))"
  unfolding triple_def io_def by (auto split: prod.splits sum.splits)

lemma triple_with_retry:
  assumes "triple P m Q P" "\<And>l d. P l \<Longrightarrow> P (Sleep d # l)" "\<And>l. P l \<Longrightarrow> P (Clock # l)"
  shows "triple P (with_retry env opts m) Q P"
  unfolding with_retry_def
  by (cases "retry_policy_of opts")
     (auto intro!: execute_with_policy_triple assms simp: log_retry_env_def)

lemma flush_triple:
  "triple (loop_inv env opts) (with_retry env opts (sink_flush env))
     (\<lambda>_ l. loop_inv env opts l \<and> sink_clean env l) (loop_inv env opts)"
  by (rule triple_with_retry) (auto simp: sink_flush_def loop_inv_def is_ok_def intro!: triple_perform)

lemma dlq_flush_triple:
  "triple (\<lambda>l. loop_inv env opts l \<and> (b \<longrightarrow> sink_clean env l)) (with_retry env opts (dlq_flush env))
     (\<lambda>_ l. loop_inv env opts l \<and> (b \<longrightarrow> sink_clean env l) \<and> dlq_clean env l)
     (\<lambda>l. loop_inv env opts l \<and> (b \<longrightarrow> sink_clean env l))"
  by (rule triple_with_retry) (auto simp: dlq_flush_def loop_inv_def is_ok_def intro!: triple_perform)

lemma put_triple:
  assumes "\<not> sk_is_overwrite env"
  shows "triple (\<lambda>l. loop_inv env opts l \<and> sink_clean env l \<and> dlq_clean env l)
    (with_retry env opts (state_put env key v)) (\<lambda>_. loop_inv env opts)
    (\<lambda>l. loop_inv env opts l \<and> sink_clean env l \<and> dlq_clean env l)"
  by (rule triple_with_retry) (auto simp: state_put_def loop_inv_def assms intro!: triple_perform)

abbreviation at_log :: "(log \<Rightarrow> bool) \<Rightarrow> engine \<Rightarrow> bool" where
  "at_log P \<equiv> \<lambda>w. P (en_log w)"

lemma persist_triple:
  assumes "\<not> sk_is_overwrite env"
  shows "triple (at_log (\<lambda>l. loop_inv env opts l \<and> sink_clean env l \<and> dlq_clean env l)) (persist env opts v)
    (\<lambda>_. at_log (loop_inv env opts)) (at_log (loop_inv env opts))"
proof -
  have "triple (at_log (\<lambda>l. loop_inv env opts l \<and> sink_clean env l \<and> dlq_clean env l))
      (io (with_retry env opts (state_put env key v))) (\<lambda>_. at_log (loop_inv env opts)) (at_log (loop_inv env opts))" for key
    by (rule triple_weaken [OF triple_io [OF put_triple [OF assms]]]) auto
  then show ?thesis
    by (cases "ro_has_store opts"; cases "ro_state_key opts") (auto simp: persist_def intro!: triple_ret)
qed

lemma io_flush_triple:
  "triple (at_log (loop_inv env opts)) (io (with_retry env opts (sink_flush env)))
     (\<lambda>_. at_log (\<lambda>l. loop_inv env opts l \<and> sink_clean env l)) (at_log (loop_inv env opts))"
  using triple_io [OF flush_triple [of env opts]] .

lemma set_last_triple: "triple (at_log P) (set_last_bookmark b) (\<lambda>_. at_log P) E"
  unfolding set_last_bookmark_def by (rule triple_modify) simp

lemma dlq_checkpoint_triple:
  "triple (at_log (loop_inv env opts)) (dlq_checkpoint env opts bookmark)
     (\<lambda>_. at_log (loop_inv env opts)) (at_log (loop_inv env opts))"
proof (cases bookmark)
  case (Some b)
  let ?ow = "sk_is_overwrite env"
  have 1: "triple (at_log (loop_inv env opts)) (if ?ow then ret () else io (with_retry env opts (sink_flush env)))
      (\<lambda>_. at_log (\<lambda>l. loop_inv env opts l \<and> (\<not> ?ow \<longrightarrow> sink_clean env l))) (at_log (loop_inv env opts))"
    using io_flush_triple [of env opts] by (auto intro: triple_ret)
  have 2: "triple (at_log (\<lambda>l. loop_inv env opts l \<and> (\<not> ?ow \<longrightarrow> sink_clean env l)))
      (op_map_err dlq_flush_error (io (with_retry env opts (dlq_flush env))))
      (\<lambda>_. at_log (\<lambda>l. loop_inv env opts l \<and> (\<not> ?ow \<longrightarrow> sink_clean env l) \<and> dlq_clean env l)) (at_log (loop_inv env opts))"
    by (rule triple_map_err, rule triple_weaken [OF triple_io [OF dlq_flush_triple]]) auto
  have 3: "triple (at_log (\<lambda>l. loop_inv env opts l \<and> (\<not> ?ow \<longrightarrow> sink_clean env l) \<and> dlq_clean env l))
      (if ?ow then ret () else persist env opts b) (\<lambda>_. at_log (loop_inv env opts)) (at_log (loop_inv env opts))"
    using triple_weaken [OF persist_triple [of env opts b]] by (auto intro!: triple_ret)
  show ?thesis
    unfolding dlq_checkpoint_def Some option.case
    by (rule triple_seq [OF 1 triple_seq [OF 2 triple_seq [OF 3 set_last_triple]]])
qed (simp add: dlq_checkpoint_def triple_ret)

lemma default_checkpoint_triple:
  assumes "ro_dlq opts = None"
  shows "triple (at_log (loop_inv env opts)) (default_checkpoint env opts bookmark)
     (\<lambda>_. at_log (loop_inv env opts)) (at_log (loop_inv env opts))"
proof (cases bookmark)
  case (Some b)
  let ?ow = "sk_is_overwrite env"
  have 1: "triple (at_log (loop_inv env opts)) (if ?ow then ret () else io (with_retry env opts (sink_flush env)))
      (\<lambda>_. at_log (\<lambda>l. loop_inv env opts l \<and> (\<not> ?ow \<longrightarrow> sink_clean env l))) (at_log (loop_inv env opts))"
    using io_flush_triple [of env opts] by (auto intro: triple_ret)
  have 2: "triple (at_log (\<lambda>l. loop_inv env opts l \<and> (\<not> ?ow \<longrightarrow> sink_clean env l)))
      (if ?ow then ret () else persist env opts b) (\<lambda>_. at_log (loop_inv env opts)) (at_log (loop_inv env opts))"
  proof (cases ?ow)
    case False
    have "dlq_clean env l" if "loop_inv env opts l" for l using that assms by (simp add: loop_inv_def)
    then show ?thesis using False by (auto intro!: triple_weaken [OF persist_triple [OF False, of opts b]])
  qed (simp add: triple_ret)
  show ?thesis
    unfolding default_checkpoint_def Some option.case
    by (rule triple_seq [OF 1 triple_seq [OF 2 set_last_triple]])
qed (simp add: default_checkpoint_def triple_ret)

lemma eo_checkpoint_triple:
  assumes "ro_dlq opts = None" "\<not> sk_is_overwrite env"
  shows "triple (at_log (loop_inv env opts)) (eo_checkpoint env opts b seq)
     (\<lambda>_. at_log (loop_inv env opts)) (at_log (loop_inv env opts))"
  unfolding eo_checkpoint_def
proof (rule triple_seq [OF io_flush_triple triple_seq [OF _ set_last_triple]])
  show "triple (at_log (\<lambda>l. loop_inv env opts l \<and> sink_clean env l)) (persist env opts (wrap_state (Some b) seq))
      (\<lambda>_. at_log (loop_inv env opts)) (at_log (loop_inv env opts))"
    by (rule triple_weaken [OF persist_triple [OF assms(2)]]) (auto simp: loop_inv_def assms(1))
qed

text \<open>The paths of a page and the loop.\<close>

abbreviation keeps_inv :: "env \<Rightarrow> run_options \<Rightarrow> (engine, 'a) op \<Rightarrow> bool" where
  "keeps_inv env opts m \<equiv> triple (at_log (loop_inv env opts)) m (\<lambda>_. at_log (loop_inv env opts)) (at_log (loop_inv env opts))"

lemma settle_page_inv: "keeps_inv env opts (settle_page account)"
  by (auto simp: triple_def settle_page_def split: prod.splits sum.splits)

lemma loop_inv_dlq_op:
  assumes "ro_dlq opts \<noteq> None" "adds_keeping (\<lambda>ev. \<not> is_put ev) keep m"
  shows "keeps_inv env opts m"
proof -
  have "loop_inv env opts (en_log w')" if inv: "loop_inv env opts (en_log w)" and run: "m w = (r, w')" for w r w'
  proof -
    from assms(2) run obtain evs where "en_log w' = evs @ en_log w" "list_all (\<lambda>ev. \<not> is_put ev) evs"
      by (auto simp: moves_def grows_def) (metis snd_conv)
    with loop_inv_page_events [OF inv, of evs] assms(1) show ?thesis by (auto simp: list_all_iff)
  qed
  then show ?thesis by (intro tripleI) blast+
qed

lemma write_envelopes_adds: "adds_keeping (\<lambda>ev. \<not> is_put ev) en_row_accounts (write_envelopes env opts envelopes)"
  unfolding write_envelopes_def
  by (auto intro!: grows.rules grows.modify adds_io adds_with_retry adds_gate_dlq simp: grows_def)

lemma dlq_page_path_inv:
  assumes "ro_dlq opts \<noteq> None"
  shows "keeps_inv env opts (dlq_page_path env opts dlq governed gov_envelopes account bookmark)"
proof -
  have admit: "keeps_inv env opts (if adaptive_of opts \<noteq> None \<and> 0 < length governed then io (gate_admit env governed) else ret ())"
    by (rule triple_page_op) (auto intro!: page_op_intros simp: gate_defs)
  have stats: "page_op (gets (ds_records_dlq \<circ> en_dlq_stats))" by (rule grows.gets)
  show ?thesis
    unfolding dlq_page_path_def Let_def
    by (intro triple_bind [OF admit] triple_bind [OF triple_page_op [OF page_op_dlq_chunks]]
        triple_bind [OF triple_page_op [OF page_op_batch(7)]] triple_bind [OF triple_page_op [OF stats]]
        triple_bind [OF loop_inv_dlq_op [OF assms write_envelopes_adds]] triple_bind [OF triple_page_op [OF page_op_batch(4)]]
        triple_bind [OF settle_page_inv] triple_bind [OF dlq_checkpoint_triple] triple_ret)
qed

lemma default_page_path_inv:
  assumes "ro_dlq opts = None"
  shows "keeps_inv env opts (default_page_path env opts governed account bookmark)"
proof -
  have chunks: "page_op (if governed = [] then ret account
      else op_bind (if adaptive_of opts = None then ret () else io (gate_admit env governed)) (\<lambda>_.
           write_chunks env opts governed 0 account))"
    by (auto intro!: page_op_intros page_op_write_chunks simp: gate_defs)
  show ?thesis
    unfolding default_page_path_def
    by (intro triple_bind [OF triple_page_op [OF chunks]] triple_bind [OF settle_page_inv] default_checkpoint_triple assms)
qed

lemma eo_page_path_inv:
  assumes "ro_dlq opts = None" "\<not> sk_is_overwrite env"
  shows "keeps_inv env opts (eo_page_path env opts committed_seq governed account bookmark)"
proof -
  have step: "page_op (modify (\<lambda>w. w \<lparr> en_next_seq := en_next_seq w + 1 \<rparr>))" "page_op (gets en_next_seq)"
    by (auto intro!: page_op_intros)
  have commit: "page_op (if seq \<le> committed_seq then ret (account \<lparr> pa_accepted := pa_accepted account + length governed \<rparr>)
      else op_bind (observe_batch (io (eo_write env opts governed scope token seq))) (\<lambda>report.
           op_bind (add_written (wr_accepted report)) (\<lambda>_. ret (add_report report account))))" for seq scope token
    by (auto intro!: page_op_intros page_op_batch page_op_eo_write)
  have plain: "keeps_inv env opts (op_bind (observe_batch (io (with_retry_write env opts (gate_reported env governed)))) (\<lambda>report.
        op_bind (add_written (wr_accepted report)) (\<lambda>_. settle_page (add_report report account))))"
    by (intro triple_bind [OF triple_page_op] settle_page_inv)
       (auto intro!: page_op_intros page_op_batch simp: gate_defs)
  show ?thesis
  proof (cases bookmark)
    case None
    with plain show ?thesis by (simp add: eo_page_path_def triple_ret)
  next
    case (Some b)
    show ?thesis
      unfolding eo_page_path_def Some Let_def option.case
      by (intro triple_bind [OF triple_page_op [OF step(1)]] triple_bind [OF triple_page_op [OF step(2)]]
          triple_bind [OF triple_page_op [OF commit]] triple_bind [OF settle_page_inv] eo_checkpoint_triple assms)
  qed
qed

lemma abort_inv:
  assumes "ro_dlq opts \<noteq> None"
  shows "keeps_inv env opts (op_bind (io (abort_with_envelopes env envelopes)) (\<lambda>count.
    modify (\<lambda>w. w \<lparr> en_dlq_stats := count (en_dlq_stats w) \<rparr>)))"
  by (rule loop_inv_dlq_op [OF assms, where keep = en_row_accounts])
     (auto simp: abort_with_envelopes_def gate_defs grows_def
       intro!: grows.rules grows.modify adds_io adds_gate_dlq adds_perform)

text \<open>The rules of a page and of a poll: what every path keeps, the page keeps.\<close>

lemma process_page_rule:
  assumes gov: "triple P (with_gov (apply_governance env ((ro_specs opts) \<lparr> gs_has_dlq := ro_dlq opts \<noteq> None \<rparr>)
        (sp_records page))) (\<lambda>gov w. P' gov w) E"
    and abort: "\<And>gov. ro_dlq opts \<noteq> None \<Longrightarrow> triple (P' gov) (op_bind (io (abort_with_envelopes env (go_envelopes gov)))
        (\<lambda>count. modify (\<lambda>w. w \<lparr> en_dlq_stats := count (en_dlq_stats w) \<rparr>))) (\<lambda>_. E) E"
    and fail: "\<And>gov w. P' gov w \<Longrightarrow> E w" and raised: "\<And>w. Q w \<Longrightarrow> E w"
    and paths: "\<And>gov. let account = (PageAccount_new (length (sp_records page))) \<lparr> pa_quarantined := length (go_envelopes gov) \<rparr> in
        triple (P' gov) (case ro_dlq opts of
            Some dlq \<Rightarrow> op_bind (dlq_page_path env opts dlq (go_records gov) (go_envelopes gov) account (sp_bookmark page)) raise_deferred
          | None \<Rightarrow> if exactly_once then eo_page_path env opts committed_seq (go_records gov) account (sp_bookmark page)
                    else default_page_path env opts (go_records gov) account (sp_bookmark page)) (\<lambda>_. Q) E"
  shows "triple P (process_page env opts exactly_once committed_seq page) (\<lambda>_. Q) E"
  unfolding process_page_def Let_def
proof (rule triple_bind [OF gov])
  fix gov :: governance_outcome
  let ?stop = "if ro_dlq opts = None then ret () else op_bind (io (abort_with_envelopes env (go_envelopes gov)))
      (\<lambda>count. modify (\<lambda>w. w \<lparr> en_dlq_stats := count (en_dlq_stats w) \<rparr>))"
  have "triple (P' gov) ?stop (\<lambda>_. E) E" using abort [of gov] fail by (auto intro: triple_ret)
  then have stop: "triple (P' gov) (op_bind ?stop (\<lambda>_. throw e)) (\<lambda>_. Q) E" for e
    by (rule triple_bind) (simp add: triple_throw)
  show "triple (P' gov) (case go_deferred_abort gov of
          Some e \<Rightarrow> op_bind ?stop (\<lambda>_. throw e)
        | None \<Rightarrow> (case ro_dlq opts of
              Some dlq \<Rightarrow> op_bind (dlq_page_path env opts dlq (go_records gov) (go_envelopes gov)
                ((PageAccount_new (length (sp_records page))) \<lparr> pa_quarantined := length (go_envelopes gov) \<rparr>) (sp_bookmark page)) raise_deferred
            | None \<Rightarrow> if exactly_once then eo_page_path env opts committed_seq (go_records gov)
                ((PageAccount_new (length (sp_records page))) \<lparr> pa_quarantined := length (go_envelopes gov) \<rparr>) (sp_bookmark page)
                else default_page_path env opts (go_records gov)
                ((PageAccount_new (length (sp_records page))) \<lparr> pa_quarantined := length (go_envelopes gov) \<rparr>) (sp_bookmark page))) (\<lambda>_. Q) E"
    using stop paths [of gov] by (cases "go_deferred_abort gov") (simp_all only: option.case Let_def)
qed

lemma deferred_triple:
  assumes "triple P m (\<lambda>_. Q) E" "\<And>w. Q w \<Longrightarrow> E w"
  shows "triple P (op_bind m raise_deferred) (\<lambda>_. Q) E"
  by (rule triple_bind [OF assms(1)]) (auto simp: raise_deferred_def intro!: triple_ret triple_throw assms(2) split: option.split)

text \<open>What a poll yields: a cancellation that wins the race yields nothing.\<close>

definition taken :: "env \<Rightarrow> run_options \<Rightarrow> log \<Rightarrow> stream_page fres option" where
  "taken env opts l =
     (if ro_has_cancel opts \<and> \<not> ro_source_drains opts \<and> pg_cancel_wins env l then None else pg_next env l)"

abbreviation polled :: "engine \<Rightarrow> engine" where
  "polled w \<equiv> w \<lparr> en_log := PollPage # en_log w \<rparr>"

lemma poll_rule:
  assumes page: "\<And>w page. P w \<Longrightarrow> taken env opts (PollPage # en_log w) = Some (Ok page) \<Longrightarrow> R page (polled w)"
    and stop: "\<And>w b. P w \<Longrightarrow> taken env opts (PollPage # en_log w) = None \<Longrightarrow> Q ((polled w) \<lparr> en_cancelled := b \<rparr>)"
    and fail: "\<And>w e. P w \<Longrightarrow> taken env opts (PollPage # en_log w) = Some (Err e) \<Longrightarrow> E (polled w)"
    and empty: "\<And>w page. R page w \<Longrightarrow> sp_records page = [] \<Longrightarrow> sp_bookmark page = None \<Longrightarrow> P w"
    and process: "\<And>page. triple (R page) (process_page env opts exactly_once committed_seq page) (\<lambda>_. P) E"
  shows "triple P (poll_step env opts exactly_once committed_seq) (\<lambda>s w. case s of Again \<Rightarrow> P w | Stop \<Rightarrow> Q w) E"
proof (rule tripleI)
  fix w x w' assume P: "P w"
  note run = poll_step_def op_bind_def op_seq_def modify_def gets_def ret_def throw_def taken_def
  have ok: "P w2" if "R page (polled w)" "process_page env opts exactly_once committed_seq page (polled w) = (Ok u, w2)" for page u w2
    using triple_Ok [OF process that(1,2)] .
  assume "poll_step env opts exactly_once committed_seq w = (Ok x, w')"
  then show "case x of Again \<Rightarrow> P w' | Stop \<Rightarrow> Q w'"
    using page [OF P] stop [OF P] empty ok
    by (auto simp: run split: if_splits option.splits sum.splits prod.splits)
next
  fix w e w' assume P: "P w"
  note run = poll_step_def op_bind_def op_seq_def modify_def gets_def ret_def throw_def taken_def
  assume "poll_step env opts exactly_once committed_seq w = (Err e, w')"
  then show "E w'"
    using page [OF P] fail [OF P] triple_Err [OF process]
    by (auto simp: run split: if_splits option.splits sum.splits prod.splits)
qed

lemma process_page_inv:
  assumes "exactly_once \<longrightarrow> ro_dlq opts = None \<and> \<not> sk_is_overwrite env"
  shows "keeps_inv env opts (process_page env opts exactly_once committed_seq page)"
proof (rule process_page_rule [where P' = "\<lambda>_. at_log (loop_inv env opts)"], goal_cases gov abort fail raised paths)
  case gov
  let ?specs = "(ro_specs opts) \<lparr> gs_has_dlq := ro_dlq opts \<noteq> None \<rparr>"
  have "adds_keeping is_schema_call en_row_accounts (with_gov (apply_governance env ?specs (sp_records page)))"
    by (rule with_gov_footprint) simp
  moreover have "is_schema_call ev \<Longrightarrow> page_event ev" for ev by (cases ev) (auto simp: page_event_def)
  ultimately have "page_op (with_gov (apply_governance env ?specs (sp_records page)))"
    unfolding moves_def grows_def by (meson list_all_iff)
  then show ?case by (rule triple_page_op)
next
  case (abort gov)
  then show ?case by (rule abort_inv)
next
  case (paths gov)
  show ?case
    using assms by (auto simp: Let_def intro!: deferred_triple dlq_page_path_inv eo_page_path_inv default_page_path_inv split: option.split)
qed auto

lemma loop_inv_poll: "loop_inv env opts l \<Longrightarrow> loop_inv env opts (PollPage # l)"
  by (simp add: loop_inv_def)

lemma poll_step_inv:
  assumes "exactly_once \<longrightarrow> ro_dlq opts = None \<and> \<not> sk_is_overwrite env"
  shows "keeps_inv env opts (poll_step env opts exactly_once committed_seq)"
proof (rule triple_weaken [OF poll_rule [where P = "at_log (loop_inv env opts)" and Q = "at_log (loop_inv env opts)"
      and R = "\<lambda>_. at_log (loop_inv env opts)" and E = "at_log (loop_inv env opts)"]])
  show "triple (at_log (loop_inv env opts)) (process_page env opts exactly_once committed_seq page) (\<lambda>_. at_log (loop_inv env opts))
      (at_log (loop_inv env opts))" for page
    by (rule process_page_inv [OF assms])
qed (auto simp: loop_inv_poll split: loop_step.splits)

lemma drive_rule:
  fixes step :: "('s, loop_step) op"
  assumes step: "triple I step (\<lambda>s w. case s of Again \<Rightarrow> I w | Stop \<Rightarrow> Q w) E"
    and run: "drive step w = Some (r, w')" and init: "I w"
  shows "case r of Ok _ \<Rightarrow> Q w' | Err _ \<Rightarrow> E w'"
proof -
  let ?P = "\<lambda>s w y. s = step \<longrightarrow> I w \<longrightarrow> (case fst y of Ok _ \<Rightarrow> Q (snd y) | Err _ \<Rightarrow> E (snd y))"
  have "?P step w (r, w')"
  proof (rule drive.raw_induct [where P = ?P, OF _ run])
    fix rec and s :: "('s, loop_step) op" and w y
    assume IH: "\<And>s w y. rec s w = Some y \<Longrightarrow> ?P s w y"
      and body: "(case s w of (Inl e, w') \<Rightarrow> Some (Err e, w') | (Inr Again, w') \<Rightarrow> rec s w' | (Inr Stop, w') \<Rightarrow> Some (Ok (), w')) = Some y"
    show "?P s w y"
    proof (intro impI)
      assume s: "s = step" and I: "I w"
      obtain r1 w1 where r1: "step w = (r1, w1)" by (cases "step w")
      show "case fst y of Ok _ \<Rightarrow> Q (snd y) | Err _ \<Rightarrow> E (snd y)"
      proof (cases r1)
        case (Inl e)
        with r1 body s triple_Err [OF step I] show ?thesis by auto
      next
        case (Inr t)
        then have "case t of Again \<Rightarrow> I w1 | Stop \<Rightarrow> Q w1" using r1 triple_Ok [OF step I] by auto
        with Inr r1 body s IH [of s w1 y] show ?thesis by (cases t) auto
      qed
    qed
  qed
  with init show ?thesis by (cases r) auto
qed

lemma drive_inv:
  assumes "triple I step (\<lambda>_. I) I" "drive step w = Some (r, w')" "I w"
  shows "I w'"
proof -
  have "triple I step (\<lambda>s w. case s of Again \<Rightarrow> I w | Stop \<Rightarrow> I w) I"
    using assms(1) by (rule triple_weaken) (auto split: loop_step.split)
  from drive_rule [OF this assms(2,3)] show ?thesis by (cases r) auto
qed

lemma drive_terminates:
  assumes "\<And>w w'. step w = (Ok Again, w') \<Longrightarrow> (m w' :: nat) < m w"
  shows "\<exists>y. drive step w = Some y"
proof (induction "m w" arbitrary: w rule: less_induct)
  case less
  obtain r w' where step: "step w = (r, w')" by (cases "step w")
  show ?case
  proof (cases "r = Ok Again")
    case True
    with less assms [of w w'] step show ?thesis by (simp add: drive.simps [of _ w])
  next
    case False
    with step show ?thesis by (cases r) (auto simp: drive.simps [of _ w] split: loop_step.split)
  qed
qed

lemma start_run_inv: "keeps_inv env opts (start_run env opts)"
  unfolding start_run_def read_committed_def Let_def
  by (rule triple_page_op) (auto intro!: page_op_intros simp: gate_defs split: option.splits)

lemma start_run_exactly_once:
  assumes "start_run env opts w = (Ok (True, committed_seq), w')"
  shows "ro_dlq opts = None \<and> \<not> sk_is_overwrite env"
  using assms
  by (auto simp: start_run_def select_mechanism_def op_defs Let_def split: sum.splits prod.splits if_splits option.splits)

lemma unwind_inv: "keeps_inv env opts (unwind env opts e)"
  unfolding unwind_def by (rule triple_page_op) (auto intro!: page_op_intros simp: gate_defs)

lemma finish_run_inv: "keeps_inv env opts (finish_run env opts)"
  unfolding finish_run_def by (rule triple_page_op) (auto intro!: page_op_intros simp: gate_defs)

text \<open>A run is its start, its loop, and its end.\<close>

lemma run_cases:
  assumes "run_stream_with env opts accounts l = Some (r, w)"
  obtains (refused) e where "start_run env opts (initial_engine opts accounts l) = (Err e, w)" "r = Err e"
  | (failed) eo seq w1 e w2 where "start_run env opts (initial_engine opts accounts l) = (Ok (eo, seq), w1)"
      "drive (poll_step env opts eo seq) w1 = Some (Err e, w2)" "unwind env opts e w2 = (r, w)"
  | (finished) eo seq w1 w2 where "start_run env opts (initial_engine opts accounts l) = (Ok (eo, seq), w1)"
      "drive (poll_step env opts eo seq) w1 = Some (Ok (), w2)" "finish_run env opts w2 = (r, w)"
  using assms by (auto simp: run_stream_with_def split: prod.splits sum.splits option.splits)

lemma triple_end:
  assumes "triple P m (\<lambda>_. Q) Q" "P s" "m s = (r, s')"
  shows "Q s'"
  using assms triple_Ok [OF assms(1,2)] triple_Err [OF assms(1,2)] by (cases r) auto

lemma run_inv:
  assumes "run_stream_with env opts accounts l = Some (r, w)" "loop_inv env opts l"
  shows "loop_inv env opts (en_log w)"
proof -
  let ?I = "at_log (loop_inv env opts)"
  have init: "?I (initial_engine opts accounts l)" using assms(2) by (simp add: initial_engine_def)
  have loop: "?I w2" if "start_run env opts (initial_engine opts accounts l) = (Ok (eo, seq), w1)"
      "drive (poll_step env opts eo seq) w1 = Some (r2, w2)" for eo seq w1 r2 w2
  proof (rule drive_inv [OF poll_step_inv that(2)])
    show "eo \<longrightarrow> ro_dlq opts = None \<and> \<not> sk_is_overwrite env"
      using that(1) start_run_exactly_once by (cases eo) auto
    show "?I w1" by (rule triple_end [OF start_run_inv init that(1)])
  qed
  from assms(1) show ?thesis
  proof (cases rule: run_cases)
    case (refused e)
    from triple_end [OF start_run_inv init refused(1)] show ?thesis .
  next
    case (failed eo seq w1 e w2)
    from triple_end [OF unwind_inv loop [OF failed(1,2)] failed(3)] show ?thesis .
  next
    case (finished eo seq w1 w2)
    from triple_end [OF finish_run_inv loop [OF finished(1,2)] finished(3)] show ?thesis .
  qed
qed

subsection \<open>A concrete run\<close>

definition sample_options :: run_options where
  "sample_options =
     \<lparr> ro_specs = sample_specs, ro_has_store = True, ro_state_key = Some ''k'', ro_dlq = None, ro_has_cancel = False,
       ro_source_drains = False, ro_delivery = AtLeastOnce, ro_replay = None, ro_start_seq = 0, ro_adaptive = None,
       ro_resilience = None, ro_json_print = (\<lambda>v. []) \<rparr>"

text \<open>One page with a row and a bookmark, then the end of the stream.\<close>

definition one_page_env :: env where
  "one_page_env = quiet_env \<lparr> pg_next := (\<lambda>l. if l = [PollPage]
     then Some (Ok \<lparr> sp_records = [Null], sp_bookmark = Some (Bool True) \<rparr>) else None) \<rparr>"

lemma drive_two:
  assumes "step w = (Ok Again, w1)" "step w1 = (Ok Stop, w2)"
  shows "drive step w = Some (Ok (), w2)"
  by (simp add: drive.simps [of step w] drive.simps [of step w1] assms)

definition sample_w0 :: engine where
  "sample_w0 = snd (start_run one_page_env sample_options (initial_engine sample_options (Some RowAccounts_new) []))"

definition sample_w1 :: engine where
  "sample_w1 = snd (poll_step one_page_env sample_options False 0 sample_w0)"

definition sample_w2 :: engine where
  "sample_w2 = snd (poll_step one_page_env sample_options False 0 sample_w1)"

definition sample_end :: engine where
  "sample_end = snd (finish_run one_page_env sample_options sample_w2)"

lemma sample_steps:
  "fst (start_run one_page_env sample_options (initial_engine sample_options (Some RowAccounts_new) [])) = Ok (False, 0)"
  "fst (poll_step one_page_env sample_options False 0 sample_w0) = Ok Again"
  "fst (poll_step one_page_env sample_options False 0 sample_w1) = Ok Stop"
  "is_ok (fst (finish_run one_page_env sample_options sample_w2))"
  "en_log sample_end = [SinkFlush, PollPage, StatePut ''k'' (Bool True), SinkFlush, SinkWrite [Null], PollPage]"
  by code_simp+

lemma sample_run:
  "\<exists>res. run_stream_with one_page_env sample_options (Some RowAccounts_new) [] = Some (Ok res, sample_end)"
proof -
  have "drive (poll_step one_page_env sample_options False 0) sample_w0 = Some (Ok (), sample_w2)"
    using sample_steps(2,3) by (intro drive_two [of _ _ sample_w1]) (simp_all add: sample_w1_def sample_w2_def prod_eq_iff)
  moreover have "start_run one_page_env sample_options (initial_engine sample_options (Some RowAccounts_new) []) = (Ok (False, 0), sample_w0)"
    using sample_steps(1) by (simp add: sample_w0_def prod_eq_iff)
  moreover obtain res where "finish_run one_page_env sample_options sample_w2 = (Ok res, sample_end)"
    using sample_steps(4) by (metis is_ok_iff prod.collapse sample_end_def)
  ultimately show ?thesis by (simp add: run_stream_with_def)
qed

section \<open>Properties\<close>

text \<open>C1. A bookmark is stored only when everything submitted before it is durable: at every \<open>put\<close> of a run
  both the sink and the dead-letter sink have been flushed successfully since the last write to them,
  on every path and whatever calls fail or are retried; and an overwriting run, whose rows become visible
  only after the run, stores no bookmark at all.\<close>

theorem checkpoints_after_flush:
  assumes "run_stream_with env opts accounts [] = Some (r, w)"
  shows "checkpoints_durable env (en_log w) \<and> (sk_is_overwrite env \<longrightarrow> list_all (\<lambda>ev. \<not> is_put ev) (en_log w))"
  using run_inv [OF assms, unfolded loop_inv_def] by simp

theorem checkpoints_after_flush_witness:
  "\<exists>r w. run_stream_with one_page_env sample_options (Some RowAccounts_new) [] = Some (r, w)
     \<and> StatePut ''k'' (Bool True) \<in> set (en_log w) \<and> checkpoints_durable one_page_env (en_log w)"
proof -
  obtain res where run: "run_stream_with one_page_env sample_options (Some RowAccounts_new) [] = Some (Ok res, sample_end)"
    using sample_run by blast
  with checkpoints_after_flush [OF run] sample_steps(5) show ?thesis by (metis list.set_intros)
qed

end
