(* ===== verification/Pipeline_Rows.thy ===== *)
theory Pipeline_Rows
  imports Pipeline_Laws "HOL-Library.Sublist"
begin

section \<open>Where the rows of a run go\<close>

text \<open>
  Row accounting of the streaming loop: on the dead-letter path every governed row is delivered, dropped
  or in one envelope; a run that returns a result has balanced counters; without a retry policy that
  replays plain writes the default path hands every row to the sink exactly once and in order.
\<close>

subsection \<open>Steps that succeed\<close>

lemma op_bind_OkE [elim!]:
  assumes "op_bind m f w = (Ok y, w')"
  obtains x w1 where "m w = (Ok x, w1)" "f x w1 = (Ok y, w')"
  using assms by (auto simp: op_bind_def split: prod.splits sum.splits)

lemma op_seq_OkE [elim!]:
  assumes "op_seq m m' w = (Ok y, w')"
  obtains x w1 where "m w = (Ok x, w1)" "m' w1 = (Ok y, w')"
  using assms by (auto simp: op_seq_def)

lemma ret_Ok [simp]: "ret x w = (Ok y, w') \<longleftrightarrow> y = x \<and> w' = w"
  by (auto simp: ret_def)

lemma throw_Ok [simp]: "throw e w \<noteq> (Ok y, w')"
  by (simp add: throw_def)

lemma gets_Ok [simp]: "gets f w = (Ok y, w') \<longleftrightarrow> y = f w \<and> w' = w"
  by (auto simp: gets_def)

lemma fail_batch_Ok [simp]: "fail_batch e w \<noteq> (Ok y, w')"
  by (auto simp: fail_batch_def)

subsection \<open>Rows on the dead-letter path\<close>

text \<open>
  The state of a page after the first \<open>offset\<close> governed rows: each is counted as a success, dropped, or
  in one envelope that carries it with its position.
\<close>

definition page_progress :: "page_account \<Rightarrow> value list \<Rightarrow> nat \<Rightarrow> dlq_page \<Rightarrow> bool" where
  "page_progress account governed offset page \<longleftrightarrow>
     (\<exists>idx drops. sorted_wrt (<) idx \<and> (\<forall>i \<in> set idx. i < offset)
        \<and> list_all2 envelope_at (pg_envelopes page) (map (\<lambda>i. (i, governed ! i)) idx)
        \<and> pg_success page + length idx + drops = offset
        \<and> pg_account page = account \<lparr> pa_failed := pa_failed account + length idx,
                                       pa_dropped := pa_dropped account + drops \<rparr>)"

lemma length_put_outcomes [simp]: "length (put_outcomes js rs outs) = length outs"
  by (induction js rs outs rule: put_outcomes.induct) auto

lemma chunk_outcomes_length:
  "chunk_outcomes env opts dlq chunk w = (Ok (outs, synthesized), w') \<Longrightarrow> length outs = length chunk"
  by (auto simp: chunk_outcomes_def split: sum.splits if_splits on_batch_error.splits)

lemma poison_loop_length:
  "poison_loop env opts n chunk outs w = (Ok outs', w') \<Longrightarrow> length outs' = length outs"
proof (induction n arbitrary: outs w)
  case (Suc n)
  then show ?case by (auto simp: Let_def split: sum.splits if_splits dest!: Suc.IH)
qed simp

lemma poison_retry_length:
  "poison_retry env opts chunk outs synthesized w = (Ok outs', w') \<Longrightarrow> length outs' = length outs"
  by (auto simp: poison_retry_def split: option.splits if_splits dest: poison_loop_length)

lemma row_loop_run:
  assumes "row_loop env opts synthesized offset chunk j outs (envs, ok, errs, drops) w = (Ok (envs', ok', errs', drops'), w')"
  shows "\<exists>idx es. sorted_wrt (<) idx \<and> (\<forall>i \<in> set idx. j \<le> i \<and> i < j + length outs) \<and> envs' = envs @ es
    \<and> list_all2 envelope_at es (map (\<lambda>i. (offset + i, chunk ! i)) idx)
    \<and> errs' = errs + length idx \<and> ok \<le> ok' \<and> drops \<le> drops'
    \<and> (ok' - ok) + length idx + (drops' - drops) = length outs"
  using assms
proof (induction outs arbitrary: j envs ok errs drops w synthesized)
  case Nil
  then show ?case by (auto intro!: exI [of _ "[]"])
next
  case (Cons r outs)
  show ?case
  proof (cases r)
    case (Inr u)
    with Cons.prems obtain idx es where IH: "sorted_wrt (<) idx" "\<forall>i \<in> set idx. Suc j \<le> i \<and> i < Suc j + length outs"
      "envs' = envs @ es" "list_all2 envelope_at es (map (\<lambda>i. (offset + i, chunk ! i)) idx)" "errs' = errs + length idx"
      "ok + 1 \<le> ok'" "drops \<le> drops'" "(ok' - (ok + 1)) + length idx + (drops' - drops) = length outs"
      by (auto dest!: Cons.IH)
    then show ?thesis by (intro exI [of _ idx] exI [of _ es]) (auto dest: bspec)
  next
    case (Inl err)
    let ?action = "case poison_of opts of Some pp \<Rightarrow> pp_action pp | None \<Rightarrow> PoisonDlq"
    show ?thesis
    proof (cases ?action)
      case PoisonFail
      with Inl Cons.prems show ?thesis by simp
    next
      case PoisonDrop
      with Inl Cons.prems obtain idx es where IH: "sorted_wrt (<) idx" "\<forall>i \<in> set idx. Suc j \<le> i \<and> i < Suc j + length outs"
        "envs' = envs @ es" "list_all2 envelope_at es (map (\<lambda>i. (offset + i, chunk ! i)) idx)" "errs' = errs + length idx"
        "ok \<le> ok'" "drops + 1 \<le> drops'" "(ok' - ok) + length idx + (drops' - (drops + 1)) = length outs"
        by (auto dest!: Cons.IH)
      then show ?thesis by (intro exI [of _ idx] exI [of _ es]) (auto dest: bspec)
    next
      case PoisonDlq
      with Inl Cons.prems obtain l idx es where IH: "sorted_wrt (<) idx" "\<forall>i \<in> set idx. Suc j \<le> i \<and> i < Suc j + length outs"
        "envs' = (envs @ [envelope_of env (ro_specs opts) l (if synthesized then ReasonDlqAll else ReasonPartial)
            (chunk ! j) err (offset + j)]) @ es"
        "list_all2 envelope_at es (map (\<lambda>i. (offset + i, chunk ! i)) idx)" "errs' = errs + 1 + length idx"
        "ok \<le> ok'" "drops \<le> drops'" "(ok' - ok) + length idx + (drops' - drops) = length outs"
        by (auto simp: push_failure_def dest!: Cons.IH)
      let ?e = "envelope_of env (ro_specs opts) l (if synthesized then ReasonDlqAll else ReasonPartial) (chunk ! j) err (offset + j)"
      have "envelope_at ?e (offset + j, chunk ! j)" by (rule envelope_of_at)
      with IH show ?thesis
        by (intro exI [of _ "j # idx"] exI [of _ "?e # es"]) (auto dest: bspec simp: Suc_le_eq)
    qed
  qed
qed

lemma chunk_size_bounds:
  "chunk_size opts n offset w = (Ok sz, w') \<Longrightarrow> offset < n \<Longrightarrow> 0 < sz \<and> offset + sz \<le> n"
  by (auto simp: chunk_size_def Let_def modify_def split: option.splits)

lemma page_slice_nth [simp]:
  "offset + sz \<le> length page \<Longrightarrow> i < sz \<Longrightarrow> page_slice offset (offset + sz) page ! i = page ! (offset + i)"
  by (simp add: page_slice_def)

lemma length_page_slice [simp]:
  "offset + sz \<le> length page \<Longrightarrow> length (page_slice offset (offset + sz) page) = sz"
  by (simp add: page_slice_def)

lemma dlq_chunk_progress:
  assumes run: "dlq_chunk env opts dlq offset (page_slice offset (offset + sz) governed) page w = (Ok page', w')"
    and progress: "page_progress account governed offset page" and fits: "offset + sz \<le> length governed"
  shows "page_progress account governed (offset + sz) page'"
proof -
  let ?chunk = "page_slice offset (offset + sz) governed"
  from run obtain outs synthesized w1 outs' w2 envs ok errs drops w3 where
    outs: "chunk_outcomes env opts dlq ?chunk w = (Ok (outs, synthesized), w1)"
    "poison_retry env opts ?chunk outs synthesized w1 = (Ok outs', w2)"
    and rows: "row_loop env opts synthesized offset ?chunk 0 outs' (pg_envelopes page, pg_success page, 0, 0) w2
      = (Ok (envs, ok, errs, drops), w3)"
    and page': "pg_envelopes page' = envs" "pg_success page' = ok"
      "pg_account page' = (pg_account page) \<lparr> pa_failed := pa_failed (pg_account page) + errs,
                                              pa_dropped := pa_dropped (pg_account page) + drops \<rparr>"
    by (auto simp: dlq_chunk_def)
  have sz: "length outs' = sz"
    using outs fits by (simp add: chunk_outcomes_length poison_retry_length)
  from progress obtain idx dropped where old: "sorted_wrt (<) idx" "\<forall>i \<in> set idx. i < offset"
    "list_all2 envelope_at (pg_envelopes page) (map (\<lambda>i. (i, governed ! i)) idx)"
    "pg_success page + length idx + dropped = offset"
    "pg_account page = account \<lparr> pa_failed := pa_failed account + length idx, pa_dropped := pa_dropped account + dropped \<rparr>"
    by (auto simp: page_progress_def)
  from row_loop_run [OF rows, unfolded sz] obtain jdx es where fresh: "sorted_wrt (<) jdx"
    "\<forall>i \<in> set jdx. 0 \<le> i \<and> i < 0 + sz" "envs = pg_envelopes page @ es"
    "list_all2 envelope_at es (map (\<lambda>i. (offset + i, ?chunk ! i)) jdx)" "errs = 0 + length jdx"
    "pg_success page \<le> ok" "ok - pg_success page + length jdx + (drops - 0) = sz"
    by blast
  have at: "map (\<lambda>i. (offset + i, ?chunk ! i)) jdx = map (\<lambda>i. (i, governed ! i)) (map ((+) offset) jdx)"
    using fresh(2) fits by auto
  show ?thesis
    unfolding page_progress_def
  proof (intro exI [of _ "idx @ map ((+) offset) jdx"] exI [of _ "dropped + drops"] conjI)
    show "sorted_wrt (<) (idx @ map ((+) offset) jdx)"
      using old(1,2) fresh(1) by (auto simp: sorted_wrt_append sorted_wrt_map intro: trans_less_add1)
    show "list_all2 envelope_at (pg_envelopes page') (map (\<lambda>i. (i, governed ! i)) (idx @ map ((+) offset) jdx))"
      using old(3) fresh(4) unfolding page'(1) fresh(3) at map_append by (rule list_all2_appendI)
  qed (use old fresh(1,2,5-7) page'(2,3) in auto)
qed

lemma dlq_chunks_progress:
  assumes "dlq_chunks env opts dlq governed offset page w = (Ok page', w')"
    and "page_progress account governed offset page" "offset \<le> length governed"
  shows "page_progress account governed (length governed) page'"
  using assms
proof (induction env opts dlq governed offset page arbitrary: w rule: dlq_chunks.induct)
  case (1 env opts dlq governed offset page)
  show ?case
  proof (cases "offset < length governed")
    case False
    with 1 show ?thesis by (subst (asm) (2) dlq_chunks.simps) simp
  next
    case True
    with 1(2) obtain sz w1 page1 w2 where
      sz: "chunk_size opts (length governed) offset w = (Ok sz, w1)"
      and chunk: "dlq_chunk env opts dlq offset (page_slice offset (offset + sz) governed) page w1 = (Ok page1, w2)"
      and more: "dlq_chunks env opts dlq governed (offset + sz) page1 w2 = (Ok page', w')"
      using chunk_size_bounds by (subst (asm) dlq_chunks.simps) (fastforce split: if_splits)
    note bounds = chunk_size_bounds [OF sz True]
    have "page_progress account governed (offset + sz) page1"
      by (rule dlq_chunk_progress [OF chunk 1(3)]) (use bounds in simp)
    with 1(1) [OF True _ more] bounds show ?thesis by simp
  qed
qed

subsection \<open>The accounts of a run\<close>

abbreviation keeps_accounts :: "(engine, 'a) op \<Rightarrow> bool" where
  "keeps_accounts m \<equiv> adds_keeping stream_event en_row_accounts m"

lemma page_op_keeps: "page_op m \<Longrightarrow> keeps_accounts m"
  by (erule adds_keeping_mono) (simp add: page_event_def)

definition accounts_balanced :: "engine \<Rightarrow> bool" where
  "accounts_balanced w = (\<exists>a. en_row_accounts w = Some a \<and> balanced a)"

abbreviation balances :: "(engine, 'a) op \<Rightarrow> bool" where
  "balances m \<equiv> triple accounts_balanced m (\<lambda>_. accounts_balanced) (\<lambda>_. True)"

lemma keeps_accountsD: "keeps_accounts m \<Longrightarrow> m w = (r, w') \<Longrightarrow> en_row_accounts w' = en_row_accounts w"
  unfolding moves_def grows_def by (drule spec [of _ w]) simp

lemma keeps_balances: "keeps_accounts m \<Longrightarrow> balances m"
  by (rule tripleI) (simp_all add: accounts_balanced_def keeps_accountsD)

lemma settle_balances: "balances (settle_page account)"
  by (rule tripleI)
     (auto simp: settle_page_def accounts_balanced_def settle_def Let_def settle_counts_balanced
       split: prod.splits option.splits if_splits)

lemma checkpoint_keeps:
  "keeps_accounts (persist env opts v)" "keeps_accounts (set_last_bookmark v)"
  "keeps_accounts (io (with_retry env opts (sink_flush env)))"
  "keeps_accounts (op_map_err dlq_flush_error (io (with_retry env opts (dlq_flush env))))"
  by (auto simp: persist_def set_last_bookmark_def gate_defs grows_def
      intro!: grows.rules grows.modify adds_io adds_with_retry adds_perform split: bool.split option.split)

lemma checkpoints_keep:
  "keeps_accounts (default_checkpoint env opts bookmark)" "keeps_accounts (dlq_checkpoint env opts bookmark)"
  "keeps_accounts (eo_checkpoint env opts b seq)"
  unfolding default_checkpoint_def dlq_checkpoint_def eo_checkpoint_def
  by (auto intro!: grows.rules checkpoint_keeps split: option.split)

lemma default_page_path_balances: "balances (default_page_path env opts governed account bookmark)"
proof -
  have "page_op (if governed = [] then ret account
      else op_bind (if adaptive_of opts = None then ret () else io (gate_admit env governed)) (\<lambda>_.
           write_chunks env opts governed 0 account))"
    by (auto intro!: page_op_intros page_op_write_chunks simp: gate_defs)
  note chunks = keeps_balances [OF page_op_keeps [OF this]]
  show ?thesis
    unfolding default_page_path_def
    by (intro triple_bind [OF chunks] triple_bind [OF settle_balances] keeps_balances checkpoints_keep)
qed

lemma eo_page_path_balances: "balances (eo_page_path env opts committed_seq governed account bookmark)"
proof -
  have step: "page_op (modify (\<lambda>w. w \<lparr> en_next_seq := en_next_seq w + 1 \<rparr>))" "page_op (gets en_next_seq)"
    by (auto intro!: page_op_intros)
  have commit: "page_op (if seq \<le> committed_seq then ret (account \<lparr> pa_accepted := pa_accepted account + length governed \<rparr>)
      else op_bind (observe_batch (io (eo_write env opts governed scope token seq))) (\<lambda>report.
           op_bind (add_written (wr_accepted report)) (\<lambda>_. ret (add_report report account))))" for seq scope token
    by (auto intro!: page_op_intros page_op_batch page_op_eo_write)
  have plain: "page_op (observe_batch (io (with_retry_write env opts (gate_reported env governed))))"
    by (auto intro!: page_op_intros page_op_batch simp: gate_defs)
  note ops = step commit plain page_op_batch(4)
  note ops = ops [THEN page_op_keeps, THEN keeps_balances]
  show ?thesis
  proof (cases bookmark)
    case None
    show ?thesis
      unfolding eo_page_path_def None Let_def option.case
      by (intro triple_if triple_bind [OF ops(4)] triple_bind [OF ops(5)] settle_balances triple_ret)
  next
    case (Some b)
    show ?thesis
      unfolding eo_page_path_def Some Let_def option.case
      by (intro triple_bind [OF ops(1)] triple_bind [OF ops(2)] triple_bind [OF ops(3)] triple_bind [OF settle_balances]
          keeps_balances checkpoints_keep)
  qed
qed

lemma dlq_page_path_balances: "balances (dlq_page_path env opts dlq governed gov_envelopes account bookmark)"
proof -
  have admit: "page_op (if adaptive_of opts \<noteq> None \<and> 0 < length governed then io (gate_admit env governed) else ret ())"
    by (auto intro!: page_op_intros simp: gate_defs)
  have stats: "page_op (gets (ds_records_dlq \<circ> en_dlq_stats))" by (rule grows.gets)
  note ops = admit page_op_dlq_chunks page_op_batch(7) stats page_op_batch(4)
  note ops = ops [THEN page_op_keeps, THEN keeps_balances]
  have commit: "balances (write_envelopes env opts envelopes)" for envelopes
    by (rule keeps_balances) (auto simp: write_envelopes_def grows_def
        intro!: grows.rules grows.modify adds_io adds_with_retry adds_gate_dlq)
  show ?thesis
    unfolding dlq_page_path_def Let_def
    by (intro triple_bind [OF ops(1)] triple_bind [OF ops(2)] triple_bind [OF ops(3)] triple_bind [OF ops(4)]
        triple_bind [OF commit] triple_bind [OF ops(5)] triple_bind [OF settle_balances]
        triple_bind [OF keeps_balances [OF checkpoints_keep(2)]] triple_ret)
qed

lemma process_page_balances: "balances (process_page env opts exactly_once committed_seq page)"
proof (rule process_page_rule [where P' = "\<lambda>_. accounts_balanced"], goal_cases gov abort fail raised paths)
  case gov
  let ?specs = "(ro_specs opts) \<lparr> gs_has_dlq := ro_dlq opts \<noteq> None \<rparr>"
  have "adds_keeping is_schema_call en_row_accounts (with_gov (apply_governance env ?specs (sp_records page)))"
    by (rule with_gov_footprint) simp
  then have "keeps_accounts (with_gov (apply_governance env ?specs (sp_records page)))"
    by (rule adds_keeping_mono) (rule schema_stream)
  then show ?case by (rule keeps_balances)
next
  case (abort gov)
  show ?case by (rule tripleI) auto
next
  case (paths gov)
  show ?case
    by (auto simp: Let_def intro!: deferred_triple dlq_page_path_balances eo_page_path_balances default_page_path_balances
        split: option.split)
qed auto

lemma poll_step_balances:
  "triple accounts_balanced (poll_step env opts exactly_once committed_seq)
     (\<lambda>s w. case s of Again \<Rightarrow> accounts_balanced w | Stop \<Rightarrow> accounts_balanced w) (\<lambda>_. True)"
proof (rule poll_rule [where R = "\<lambda>_. accounts_balanced"])
  show "balances (process_page env opts exactly_once committed_seq page)" for page by (rule process_page_balances)
qed (auto simp: accounts_balanced_def)

text \<open>The ends of a run.\<close>

lemma start_run_keeps: "keeps_accounts (start_run env opts)"
  unfolding start_run_def read_committed_def Let_def
  by (rule page_op_keeps) (auto intro!: page_op_intros simp: gate_defs split: option.splits)

lemma finish_run_keeps: "keeps_accounts (finish_run env opts)"
  unfolding finish_run_def by (rule page_op_keeps) (auto intro!: page_op_intros simp: gate_defs)

lemma unwind_fails: "unwind env opts e w \<noteq> (Ok x, w')"
  by (auto simp: unwind_def)

lemma run_OkE:
  assumes "run_stream_with env opts accounts l = Some (Ok res, w)"
  obtains eo seq w1 w2 where "start_run env opts (initial_engine opts accounts l) = (Ok (eo, seq), w1)"
    "drive (poll_step env opts eo seq) w1 = Some (Ok (), w2)" "finish_run env opts w2 = (Ok res, w)"
  using assms by (cases rule: run_cases) (auto simp: unwind_fails)

subsection \<open>Rows on the default path\<close>

text \<open>
  What was handed to the main sink, in order, and what the stream yielded, masked. A run without a
  dead-letter sink, watermark or record checks is a copy of the one to the other.
\<close>

fun rows_written :: "event \<Rightarrow> value list" where
  "rows_written (SinkWrite rs) = rs"
| "rows_written (SinkPartial rs) = rs"
| "rows_written (SinkIdempotent rs scope token) = rs"
| "rows_written (SinkColumnar rs n) = (case rs of Some r \<Rightarrow> r | None \<Rightarrow> [])"
| "rows_written _ = []"

fun submitted :: "log \<Rightarrow> value list" where
  "submitted [] = []"
| "submitted (ev # l) = submitted l @ rows_written ev"

fun yielded :: "env \<Rightarrow> run_options \<Rightarrow> log \<Rightarrow> value list" where
  "yielded env opts [] = []"
| "yielded env opts (ev # l) =
     yielded env opts l
     @ (if ev = PollPage
        then (case taken env opts (PollPage # l) of
                Some (Inr page) \<Rightarrow> masking_pass (ro_specs opts) (sp_records page) | _ \<Rightarrow> [])
        else [])"

definition silent :: "event \<Rightarrow> bool" where
  "silent ev \<longleftrightarrow> rows_written ev = [] \<and> ev \<noteq> PollPage"

lemma silent_simps [simp]:
  "silent (Sleep d)" "silent Clock" "silent SinkFlush" "silent DlqFlush" "silent (StatePut k v)" "silent (SinkAdmit rs)"
  "silent (SinkToken scope)"
  by (simp_all add: silent_def)

lemma silent_events:
  "list_all silent evs \<Longrightarrow> submitted (evs @ l) = submitted l \<and> yielded env opts (evs @ l) = yielded env opts l"
  by (induction evs) (auto simp: silent_def)

abbreviation in_transit :: "env \<Rightarrow> run_options \<Rightarrow> (value list \<Rightarrow> value list \<Rightarrow> bool) \<Rightarrow> engine \<Rightarrow> bool" where
  "in_transit env opts P w \<equiv> P (submitted (en_log w)) (yielded env opts (en_log w))"

lemma silent_run:
  assumes "adds_keeping silent (\<lambda>_. ()) m" "m w = (r, w')"
  shows "submitted (en_log w') = submitted (en_log w) \<and> yielded env opts (en_log w') = yielded env opts (en_log w)"
proof -
  from assms have "grows en_log silent (\<lambda>_. ()) w w'" unfolding moves_def by (metis snd_conv)
  then obtain evs where "en_log w' = evs @ en_log w" "list_all silent evs" by (auto simp: grows_def)
  then show ?thesis by (simp add: silent_events)
qed

lemma silent_triple:
  assumes "adds_keeping silent (\<lambda>_. ()) m" "\<And>s y. P s y \<Longrightarrow> E s y"
  shows "triple (in_transit env opts P) m (\<lambda>_. in_transit env opts P) (in_transit env opts E)"
  by (rule tripleI) (use silent_run [OF assms(1)] assms(2) in metis)+

lemma silent_settle: "adds_keeping silent (\<lambda>_. ()) (settle_page account)"
  by (auto simp: moves_def grows_def settle_page_def split: prod.splits)

lemma silent_ops:
  "adds_keeping silent (\<lambda>_. ()) (chunk_size opts n k)"
  "adds_keeping silent (\<lambda>_. ()) (observe_chunk env n k)" "adds_keeping silent (\<lambda>_. ()) (add_written n)"
  "adds_keeping silent (\<lambda>_. ()) (record_batch b)" "adds_keeping silent (\<lambda>_. ()) (io (gate_admit env rs))"
  "adds_keeping silent (\<lambda>_. ()) (set_last_bookmark v)" "adds_keeping silent (\<lambda>_. ()) (persist env opts v)"
  "adds_keeping silent (\<lambda>_. ()) (io (with_retry env opts (sink_flush env)))"
  unfolding chunk_size_def observe_chunk_def add_written_def record_batch_def persist_def Let_def set_last_bookmark_def gate_defs
  by (auto intro!: grows.rules grows.modify adds_io adds_perform adds_with_retry simp: grows_def
      split: option.splits prod.splits bool.splits)

lemma default_checkpoint_silent: "adds_keeping silent (\<lambda>_. ()) (default_checkpoint env opts bookmark)"
  unfolding default_checkpoint_def by (auto intro!: grows.rules silent_ops split: option.split)

lemma triple_pure: "(C \<Longrightarrow> triple P m Q E) \<Longrightarrow> triple (\<lambda>s. P s \<and> C) m Q E"
  by (auto simp: triple_def)

text \<open>A write that is not retried submits its rows once.\<close>

definition writes_once :: "env \<Rightarrow> run_options \<Rightarrow> bool" where
  "writes_once env opts \<longleftrightarrow> retry_policy_of opts = None \<or> \<not> sk_replay_safe env"

lemma write_once_triple:
  assumes "writes_once env opts"
  shows "triple (in_transit env opts (\<lambda>s y. s = s0 \<and> y = y0))
    (observe_batch (io (with_retry_write env opts (gate_reported env chunk))))
    (\<lambda>_. in_transit env opts (\<lambda>s y. s = s0 @ chunk \<and> y = y0)) (in_transit env opts (\<lambda>s y. s = s0 @ chunk \<and> y = y0))"
proof -
  have once: "with_retry_write env opts (gate_reported env chunk) = perform (SinkWrite chunk) (sk_write_governed env)"
    using assms by (auto simp: with_retry_write_def writes_once_def gate_reported_def)
  show ?thesis unfolding once
    by (rule tripleI)
       (auto simp: observe_batch_def record_batch_def op_defs attempt_def io_def perform_def split: prod.splits)
qed

lemma write_chunks_copy:
  assumes "writes_once env opts" "offset \<le> length governed"
  shows "triple (in_transit env opts (\<lambda>s y. s = s0 @ take offset governed \<and> y = y0))
    (write_chunks env opts governed offset account)
    (\<lambda>_. in_transit env opts (\<lambda>s y. s = s0 @ governed \<and> y = y0))
    (in_transit env opts (\<lambda>s y. prefix s (s0 @ governed) \<and> y = y0))"
  using assms
proof (induction env opts governed offset account rule: write_chunks.induct)
  case (1 env opts governed offset account)
  let ?at = "\<lambda>n. in_transit env opts (\<lambda>s y. s = s0 @ take n governed \<and> y = y0)"
  let ?E = "in_transit env opts (\<lambda>s y. prefix s (s0 @ governed) \<and> y = y0)"
  show ?case
  proof (cases "offset < length governed")
    case False
    with 1(3) show ?thesis by (subst write_chunks.simps) (auto intro!: triple_ret)
  next
    case True
    have sz: "triple (?at offset) (chunk_size opts (length governed) offset)
        (\<lambda>sz w. ?at offset w \<and> 0 < sz \<and> offset + sz \<le> length governed) ?E"
    proof (rule tripleI)
      fix w sz w' assume w: "?at offset w" and run: "chunk_size opts (length governed) offset w = (Ok sz, w')"
      with chunk_size_bounds [OF run True] silent_run [OF silent_ops(1) run, of env opts] show "?at offset w' \<and> 0 < sz \<and> offset + sz \<le> length governed" by simp
    qed (auto simp: chunk_size_def op_defs Let_def split: option.splits)
    have silent: "adds_keeping silent (\<lambda>_. ()) m \<Longrightarrow> triple (?at n) m (\<lambda>_. ?at n) ?E" for m :: "(engine, unit) op" and n
      by (rule silent_triple) (auto simp: take_is_prefix)
    have step: "triple (?at offset) (observe_batch (io (with_retry_write env opts
          (gate_reported env (page_slice offset (offset + sz) governed))))) (\<lambda>_. ?at (offset + sz)) ?E" for sz
      by (rule triple_weaken [OF write_once_triple [OF 1(2), of "s0 @ take offset governed" y0]])
         (auto simp: page_slice_def take_add take_is_prefix same_prefix_prefix simp flip: take_add)
    show ?thesis
      unfolding write_chunks.simps [of env opts governed offset] if_P [OF True]
    proof (rule triple_bind [OF sz], rule triple_pure)
      fix sz assume fits: "0 < sz \<and> offset + sz \<le> length governed"
      show "triple (?at offset) (if sz = 0 then ret account
          else op_bind (observe_batch (io (with_retry_write env opts (gate_reported env (page_slice offset (offset + sz) governed)))))
            (\<lambda>report. op_bind (add_written (wr_accepted report)) (\<lambda>_.
               op_bind (if adaptive_of opts = None then ret () else observe_chunk env sz 0) (\<lambda>_.
               write_chunks env opts governed (offset + sz) (add_report report account)))))
          (\<lambda>_. in_transit env opts (\<lambda>s y. s = s0 @ governed \<and> y = y0)) ?E"
        using fits 1(1) [OF True _ 1(2)]
        by (auto intro!: triple_bind [OF step] triple_bind [OF silent] silent_ops grows.rules)
    qed
  qed
qed

lemma triple_ex: "(\<And>x. triple (P x) m Q E) \<Longrightarrow> triple (\<lambda>s. \<exists>x. P x s) m Q E"
  by (rule tripleI) (blast dest: triple_Ok triple_Err)+

lemma default_page_path_copy:
  assumes "writes_once env opts"
  shows "triple (in_transit env opts (\<lambda>s y. y = s @ governed)) (default_page_path env opts governed account bookmark)
    (\<lambda>_. in_transit env opts (\<lambda>s y. s = y)) (in_transit env opts prefix)"
proof -
  let ?E = "in_transit env opts prefix"
  have chunks: "triple (in_transit env opts (\<lambda>s y. s = s0 \<and> y = s0 @ governed)) (if governed = [] then ret account
      else op_bind (if adaptive_of opts = None then ret () else io (gate_admit env governed)) (\<lambda>_.
           write_chunks env opts governed 0 account)) (\<lambda>_. in_transit env opts (\<lambda>s y. s = y)) ?E" for s0
  proof -
    have rows: "triple (in_transit env opts (\<lambda>s y. s = s0 \<and> y = s0 @ governed)) (write_chunks env opts governed 0 account)
        (\<lambda>_. in_transit env opts (\<lambda>s y. s = y)) ?E"
      by (rule triple_weaken [OF write_chunks_copy [OF assms, of 0 governed s0 "s0 @ governed"]]) auto
    have admit: "triple (in_transit env opts (\<lambda>s y. s = s0 \<and> y = s0 @ governed))
        (if adaptive_of opts = None then ret () else io (gate_admit env governed))
        (\<lambda>_. in_transit env opts (\<lambda>s y. s = s0 \<and> y = s0 @ governed)) ?E"
      by (rule silent_triple) (auto intro: silent_ops grows.rules)
    show ?thesis using triple_bind [OF admit rows] by (auto intro: triple_ret)
  qed
  have silent: "adds_keeping silent (\<lambda>_. ()) m \<Longrightarrow>
      triple (in_transit env opts (\<lambda>s y. s = y)) m (\<lambda>_. in_transit env opts (\<lambda>s y. s = y)) ?E" for m :: "(engine, unit) op"
    by (rule silent_triple) auto
  have "triple (\<lambda>w. \<exists>s0. in_transit env opts (\<lambda>s y. s = s0 \<and> y = s0 @ governed) w)
      (default_page_path env opts governed account bookmark) (\<lambda>_. in_transit env opts (\<lambda>s y. s = y)) ?E"
    unfolding default_page_path_def
    by (intro triple_ex triple_bind [OF chunks] triple_bind [OF silent] silent silent_settle default_checkpoint_silent)
  then show ?thesis by (rule triple_weaken) auto
qed

text \<open>Governance with a masking policy only.\<close>

definition masking_only :: "run_options \<Rightarrow> bool" where
  "masking_only opts \<longleftrightarrow>
     gs_quality (ro_specs opts) = None \<and> gs_contract (ro_specs opts) = None \<and> gs_schema_drift (ro_specs opts) = None"

lemma governance_masking_only:
  assumes "masking_only opts"
  shows "with_gov (apply_governance env ((ro_specs opts) \<lparr> gs_has_dlq := b \<rparr>) records) w
    = (Ok \<lparr> go_records = masking_pass (ro_specs opts) records, go_envelopes = [], go_deferred_abort = None \<rparr>, w)"
  using assms
  by (auto simp: masking_only_def with_gov_def apply_governance_def quality_pass_step_def contract_pass_step_def
      drift_pass_step_def op_defs masking_pass_def)

lemma process_page_copy:
  assumes "writes_once env opts" "masking_only opts" "ro_dlq opts = None"
  shows "triple (in_transit env opts (\<lambda>s y. y = s @ masking_pass (ro_specs opts) (sp_records page)))
    (process_page env opts False committed_seq page) (\<lambda>_. in_transit env opts (\<lambda>s y. s = y)) (in_transit env opts prefix)"
proof (rule process_page_rule [where P' = "\<lambda>gov w. in_transit env opts (\<lambda>s y. y = s @ go_records gov) w"],
    goal_cases gov abort fail raised paths)
  case gov
  show ?case by (rule tripleI) (auto simp: governance_masking_only [OF assms(2)])
next
  case (paths gov)
  show ?case by (simp add: Let_def assms(3) default_page_path_copy [OF assms(1)])
qed (simp_all add: assms(3))

lemma poll_step_copy:
  assumes "writes_once env opts" "masking_only opts" "ro_dlq opts = None"
  shows "triple (in_transit env opts (\<lambda>s y. s = y)) (poll_step env opts False committed_seq)
    (\<lambda>s w. case s of Again \<Rightarrow> in_transit env opts (\<lambda>s y. s = y) w | Stop \<Rightarrow> in_transit env opts (\<lambda>s y. s = y) w)
    (in_transit env opts prefix)"
proof (rule poll_rule [where R = "\<lambda>page. in_transit env opts (\<lambda>s y. y = s @ masking_pass (ro_specs opts) (sp_records page))"])
  show "triple (in_transit env opts (\<lambda>s y. y = s @ masking_pass (ro_specs opts) (sp_records page)))
      (process_page env opts False committed_seq page) (\<lambda>_. in_transit env opts (\<lambda>s y. s = y)) (in_transit env opts prefix)" for page
    by (rule process_page_copy [OF assms])
qed (auto simp: masking_pass_def split: option.splits)

lemma ends_silent:
  "adds_keeping silent (\<lambda>_. ()) (start_run env opts)" "adds_keeping silent (\<lambda>_. ()) (finish_run env opts)"
  "adds_keeping silent (\<lambda>_. ()) (unwind env opts e)"
  unfolding start_run_def read_committed_def finish_run_def unwind_def Let_def
  by (auto intro!: grows.rules adds_io adds_perform simp: gate_defs split: option.splits)

section \<open>Properties\<close>







definition half_failing_env :: env where
  "half_failing_env = quiet_env \<lparr> sk_write_batch_partial := (\<lambda>l. Ok [Err (Sink ''x''), Ok ()]) \<rparr>"

definition sample_dlq :: dlq_config where
  "sample_dlq = DlqConfig_new"

lemma half_failing_page:
  "\<exists>page w. dlq_chunks half_failing_env sample_options sample_dlq [Null, Bool True] 0
     \<lparr> pg_envelopes = [], pg_success = 0, pg_account = PageAccount_new 2, pg_outer_err_recovered = False,
        pg_had_per_row_failure = False \<rparr> (initial_engine sample_options None []) = (Ok page, w)
     \<and> pg_success page = 1"
proof -
  note sample = sample_options_def half_failing_env_def quiet_env_def adaptive_of_def retry_policy_of_def poison_of_def
  note ops = op_defs attempt_def io_def gate_partial_def perform_def with_retry_write_def
  note steps = chunk_size_def dlq_chunk_def chunk_outcomes_def poison_retry_def record_batch_def observe_chunk_def page_slice_def
  show ?thesis
    by (subst dlq_chunks.simps, simp add: steps ops sample, subst dlq_chunks.simps, simp add: ret_def)
qed


end
