(* ===== verification/Pipeline_Once.thy ===== *)
theory Pipeline_Once
  imports Pipeline_Rows
begin

section \<open>Exactly-once pages\<close>

text \<open>
  The atomic-watermark mechanism: a page with a bookmark is written together with its token, a retried
  write first asks the sink for the committed token, and a run starts behind the watermark. Whether a
  write took effect is not known to the engine, since a call may fail after it committed; here it is a
  predicate on the history, and the sink promises two things about it.
\<close>

text \<open>The writes of a scope that took effect, the newest first.\<close>

fun effects :: "(log \<Rightarrow> bool) \<Rightarrow> string \<Rightarrow> log \<Rightarrow> (value list \<times> string) list" where
  "effects landed scope [] = []"
| "effects landed scope (ev # l) =
     (case ev of
        SinkIdempotent rs scope' token \<Rightarrow>
          if scope' = scope \<and> landed (ev # l) then (rs, token) # effects landed scope l else effects landed scope l
      | _ \<Rightarrow> effects landed scope l)"

definition watermark :: "string option \<Rightarrow> (value list \<times> string) list \<Rightarrow> string option" where
  "watermark t0 es = (case es of [] \<Rightarrow> t0 | (rs, token) # _ \<Rightarrow> Some token)"

text \<open>
  The sink's promises: a write it acknowledges took effect, and the committed token it reports is the
  token of the last write that did, or the one it held before the run.
\<close>

definition watermark_sink :: "env \<Rightarrow> (log \<Rightarrow> bool) \<Rightarrow> string option \<Rightarrow> string \<Rightarrow> bool" where
  "watermark_sink env landed t0 scope \<longleftrightarrow>
     (\<forall>rs token l report. sk_write_idempotent env (SinkIdempotent rs scope token # l) = Ok report
        \<longrightarrow> landed (SinkIdempotent rs scope token # l))
     \<and> (\<forall>l t. sk_last_committed_token env (SinkToken scope # l) = Ok t \<longrightarrow> t = watermark t0 (effects landed scope l))"

text \<open>The pages with a bookmark the stream yielded, masked, in order.\<close>

fun tokened :: "env \<Rightarrow> run_options \<Rightarrow> log \<Rightarrow> (value list \<times> value) list" where
  "tokened env opts [] = []"
| "tokened env opts (ev # l) =
     tokened env opts l
     @ (if ev = PollPage
        then (case taken env opts (PollPage # l) of
                Some (Inr page) \<Rightarrow>
                  (case sp_bookmark page of
                     Some b \<Rightarrow> [(masking_pass (ro_specs opts) (sp_records page), b)]
                   | None \<Rightarrow> [])
              | _ \<Rightarrow> [])
        else [])"

text \<open>The writes due: the pages beyond the committed sequence, each with its token.\<close>

fun due_from :: "(value \<Rightarrow> string) \<Rightarrow> u64 \<Rightarrow> u64 \<Rightarrow> (value list \<times> value) list \<Rightarrow> (value list \<times> string) list" where
  "due_from print committed seq [] = []"
| "due_from print committed seq ((rs, b) # ps) =
     (if committed < seq + 1 then [(rs, format_token_with_bookmark print (seq + 1) (Some b))] else [])
     @ due_from print committed (seq + 1) ps"

lemma due_from_append:
  "due_from print committed seq (ps @ qs) =
     due_from print committed seq ps @ due_from print committed (seq + of_nat (length ps)) qs"
  by (induction print committed seq ps rule: due_from.induct) (auto simp: algebra_simps)

lemma due_from_token:
  assumes "(rs, token) \<in> set (due_from print committed seq ps)"
  shows "\<exists>i < length ps. parse_token token = Some (seq + of_nat (Suc i))"
  using assms
proof (induction print committed seq ps rule: due_from.induct)
  case (2 print committed seq rs' b ps)
  show ?case
  proof (cases "(rs, token) \<in> set (due_from print committed (seq + 1) ps)")
    case True
    with 2(1) obtain i where "i < length ps" "parse_token token = Some (seq + 1 + of_nat (Suc i))" by auto
    then show ?thesis by (intro exI [of _ "Suc i"]) (simp add: algebra_simps)
  next
    case False
    with 2(2) show ?thesis by (intro exI [of _ 0]) (auto simp: parse_token_with_bookmark split: if_splits)
  qed
qed simp

text \<open>Events that neither commit nor poll.\<close>

definition calm :: "event \<Rightarrow> bool" where
  "calm ev \<longleftrightarrow> ev \<noteq> PollPage \<and> (\<forall>rs scope token. ev \<noteq> SinkIdempotent rs scope token)"

lemma calm_simps [simp]:
  "calm (Sleep d)" "calm Clock" "calm SinkFlush" "calm (StatePut k v)" "calm (SinkAdmit rs)" "calm (SinkToken s)" "calm DlqFlush"
  "calm (SinkWrite rs)"
  by (simp_all add: calm_def)

lemma calm_event: "calm ev \<Longrightarrow> effects landed scope (ev # l) = effects landed scope l
    \<and> tokened env opts (ev # l) = tokened env opts l"
  by (cases ev) (auto simp: calm_def)

lemma calm_events:
  "list_all calm evs \<Longrightarrow> effects landed scope (evs @ l) = effects landed scope l \<and> tokened env opts (evs @ l) = tokened env opts l"
  by (induction evs) (simp_all add: calm_event del: effects.simps tokened.simps)

abbreviation calm_op :: "(engine, 'a) op \<Rightarrow> bool" where
  "calm_op m \<equiv> adds_keeping calm en_next_seq m"

subsection \<open>One page\<close>

lemma effects_write:
  "effects landed scope (SinkIdempotent rs scope token # l) =
     (if landed (SinkIdempotent rs scope token # l) then (rs, token) # effects landed scope l else effects landed scope l)"
  by simp

text \<open>
  One attempt. Before the first the write has not taken effect; afterwards it may have, and then the
  attempt finds its token instead of writing again.
\<close>

definition writing :: "(log \<Rightarrow> bool) \<Rightarrow> string \<Rightarrow> (log \<Rightarrow> 'b) \<Rightarrow> value list \<times> string \<Rightarrow> (value list \<times> string) list \<Rightarrow> 'b
    \<Rightarrow> nat \<times> log \<Rightarrow> bool" where
  "writing landed scope f e es ps = (\<lambda>(n, l).
     (effects landed scope l = es \<or> effects landed scope l = e # es \<and> 0 < n) \<and> f l = ps)"

lemma eo_write_once_triple:
  assumes sink: "watermark_sink env landed t0 scope"
    and behind: "\<And>c. Option.bind (watermark t0 es) parse_token = Some c \<Longrightarrow> c < seq"
    and token: "parse_token token = Some seq"
  shows "triple (writing landed scope (tokened env opts) (page, token) es ps) (eo_write_once env page scope token seq)
    (\<lambda>_ (n, l). effects landed scope l = (page, token) # es \<and> tokened env opts l = ps)
    (writing landed scope (tokened env opts) (page, token) es ps)"
proof -
  have wrote: "landed (SinkIdempotent page scope token # l)" if "sk_write_idempotent env (SinkIdempotent page scope token # l) = Ok rep" for l rep
    using sink that by (auto simp: watermark_sink_def)
  have asked: "t = watermark t0 (effects landed scope l)" if "sk_last_committed_token env (SinkToken scope # l) = Ok t" for l t
    using sink that by (auto simp: watermark_sink_def)
  have own: "Option.bind (watermark t0 ((page, token) # es)) parse_token = Some seq" by (simp add: watermark_def token)
  have behind': "\<not> (case Option.bind (watermark t0 es) parse_token of None \<Rightarrow> False | Some c \<Rightarrow> seq \<le> c)"
    using behind by (auto split: option.splits)
  let ?P = "writing landed scope (tokened env opts) (page, token) es ps"
  let ?Q = "\<lambda>_ (n, l). effects landed scope l = (page, token) # es \<and> tokened env opts l = ps"
  have submit: "triple (\<lambda>(n, l). effects landed scope l = es \<and> tokened env opts l = ps \<and> 0 < n)
      (on_snd (gate_idempotent env page scope token)) ?Q ?P"
    by (rule tripleI) (auto simp: on_snd_def gate_idempotent_def perform_def writing_def dest: wrote split: if_splits)
  have ask: "triple (\<lambda>(n, l). ?P (n, l) \<and> 0 < n) (on_snd (read_token env scope))
      (\<lambda>t (n, l). t = watermark t0 (effects landed scope l) \<and> ?P (n, l) \<and> 0 < n) ?P"
    by (rule tripleI) (auto simp: on_snd_def read_token_def perform_def writing_def dest: asked)
  have decide: "triple (\<lambda>(n, l). (t = watermark t0 (effects landed scope l) \<or> t = None \<and> effects landed scope l = es)
        \<and> ?P (n, l) \<and> 0 < n)
      (if (case Option.bind t parse_token of Some c \<Rightarrow> seq \<le> c | None \<Rightarrow> False) then ret (WriteReport_accepted (length page))
       else on_snd (gate_idempotent env page scope token)) ?Q ?P" for t
  proof (cases "case Option.bind t parse_token of Some c \<Rightarrow> seq \<le> c | None \<Rightarrow> False")
    case True
    moreover from True have "t \<noteq> watermark t0 es" using behind' by auto
    moreover from True have "t \<noteq> None" by (cases t) auto
    ultimately show ?thesis by (auto simp: writing_def intro!: triple_ret)
  next
    case False
    then have "t \<noteq> watermark t0 ((page, token) # es)" using own by auto
    then show ?thesis using False by (auto simp: writing_def intro!: triple_weaken [OF submit])
  qed
  show ?thesis
    unfolding eo_write_once_def
  proof (rule triple_bind [where R = "\<lambda>n (m, l). n = m \<and> ?P (m, l)"], goal_cases)
    case 1
    show ?case by (rule triple_gets) auto
  next
    case (2 n)
    show ?case
    proof (rule triple_bind [where R = "\<lambda>_ (m, l). ?P (m, l) \<and> 0 < m \<and> (n = 0 \<longrightarrow> effects landed scope l = es)"], goal_cases)
      case 1
      show ?case by (rule triple_modify) (auto simp: writing_def)
    next
      case (2 u)
      show ?case
        by (rule triple_bind [OF _ decide], rule triple_if)
           (auto intro!: triple_weaken [OF ask] triple_ret)
    qed
  qed
qed

lemma eo_write_triple:
  assumes "watermark_sink env landed t0 scope"
    and "\<And>c. Option.bind (watermark t0 es) parse_token = Some c \<Longrightarrow> c < seq"
    and "parse_token token = Some seq"
  shows "triple (\<lambda>l. effects landed scope l = es \<and> tokened env opts l = ps) (eo_write env opts page scope token seq)
    (\<lambda>_ l. effects landed scope l = (page, token) # es \<and> tokened env opts l = ps)
    (\<lambda>l. effects landed scope l \<in> {es, (page, token) # es} \<and> tokened env opts l = ps)"
proof -
  let ?P = "writing landed scope (tokened env opts) (page, token) es ps"
  let ?Q = "\<lambda>_ (n, l). effects landed scope l = (page, token) # es \<and> tokened env opts l = ps"
  note once = eo_write_once_triple [OF assms, where opts = opts and page = page and ps = ps]
  have run: "triple ?P (case retry_policy_of opts of
              Some p \<Rightarrow> execute_with_policy p (counted_retry_env env) (eo_write_once env page scope token seq)
            | None \<Rightarrow> eo_write_once env page scope token seq) ?Q ?P"
  proof (cases "retry_policy_of opts")
    case (Some p)
    have "triple ?P (execute_with_policy p (counted_retry_env env) (eo_write_once env page scope token seq)) ?Q ?P"
      by (rule execute_with_policy_triple [OF once]) (auto simp: counted_retry_env_def log_retry_env_def writing_def)
    with Some show ?thesis by simp
  qed (simp add: once)
  have start: "?P (0, l)" if "effects landed scope l = es \<and> tokened env opts l = ps" for l
    using that by (simp add: writing_def)
  show ?thesis
  proof (rule tripleI)
    fix l x l' assume "effects landed scope l = es \<and> tokened env opts l = ps" "eo_write env opts page scope token seq l = (Ok x, l')"
    then show "effects landed scope l' = (page, token) # es \<and> tokened env opts l' = ps"
      using triple_Ok [OF run start] by (auto simp: eo_write_def split: prod.splits)
  next
    fix l e l' assume "effects landed scope l = es \<and> tokened env opts l = ps" "eo_write env opts page scope token seq l = (Err e, l')"
    then show "effects landed scope l' \<in> {es, (page, token) # es} \<and> tokened env opts l' = ps"
      using triple_Err [OF run start] by (auto simp: eo_write_def writing_def split: prod.splits)
  qed
qed


subsection \<open>The run\<close>

text \<open>
  The state between two pages: the sequence counts the pages with a bookmark, and, as long as it has not
  wrapped, exactly the writes that are due took effect.
\<close>

definition progressed :: "env \<Rightarrow> run_options \<Rightarrow> (log \<Rightarrow> bool) \<Rightarrow> string \<Rightarrow> u64 \<Rightarrow> engine \<Rightarrow> bool" where
  "progressed env opts landed scope committed w \<longleftrightarrow>
     (let ps = tokened env opts (en_log w) in
      en_next_seq w = ro_start_seq opts + of_nat (length ps)
      \<and> (unat (ro_start_seq opts) + length ps < 2 ^ 64
          \<longrightarrow> rev (effects landed scope (en_log w)) = due_from (ro_json_print opts) committed (ro_start_seq opts) ps))"

definition interrupted :: "env \<Rightarrow> run_options \<Rightarrow> (log \<Rightarrow> bool) \<Rightarrow> string \<Rightarrow> u64 \<Rightarrow> engine \<Rightarrow> bool" where
  "interrupted env opts landed scope committed w \<longleftrightarrow>
     (let ps = tokened env opts (en_log w) in
      unat (ro_start_seq opts) + length ps < 2 ^ 64
      \<longrightarrow> prefix (rev (effects landed scope (en_log w))) (due_from (ro_json_print opts) committed (ro_start_seq opts) ps))"

lemma progressed_interrupted: "progressed env opts landed scope committed w \<Longrightarrow> interrupted env opts landed scope committed w"
  by (simp add: progressed_def interrupted_def Let_def)

lemma calm_run:
  assumes "calm_op m" "m w = (r, w')"
  shows "effects landed scope (en_log w') = effects landed scope (en_log w)"
    "tokened env opts (en_log w') = tokened env opts (en_log w)" "en_next_seq w' = en_next_seq w"
proof -
  from assms have "grows en_log calm en_next_seq w w'" unfolding moves_def by (metis snd_conv)
  then obtain evs where "en_log w' = evs @ en_log w" "list_all calm evs" "en_next_seq w' = en_next_seq w" by (auto simp: grows_def)
  then show "effects landed scope (en_log w') = effects landed scope (en_log w)"
    "tokened env opts (en_log w') = tokened env opts (en_log w)" "en_next_seq w' = en_next_seq w"
    using calm_events [of evs landed scope "en_log w" env opts] by simp_all
qed

lemma calm_triple:
  assumes "calm_op m"
  shows "triple (progressed env opts landed scope committed) m (\<lambda>_. progressed env opts landed scope committed)
    (interrupted env opts landed scope committed)"
  by (rule tripleI) (simp_all add: progressed_def interrupted_def Let_def calm_run [OF assms])

lemma calm_settle: "calm_op (settle_page account)"
  by (auto simp: moves_def grows_def settle_page_def split: prod.splits)

lemma calm_ops:
  "calm_op (add_written n)" "calm_op (record_batch b)" "calm_op (set_last_bookmark v)" "calm_op (persist env opts v)"
  "calm_op (io (with_retry env opts (sink_flush env)))"
  "calm_op (observe_batch (io (with_retry_write env opts (gate_reported env governed))))"
  unfolding add_written_def record_batch_def persist_def set_last_bookmark_def observe_batch_def gate_defs
  by (auto intro!: grows.rules grows.modify adds_io adds_perform adds_with_retry adds_with_retry_write simp: grows_def
      split: option.splits prod.splits bool.splits)

lemma calm_eo_checkpoint: "calm_op (eo_checkpoint env opts b seq)"
  unfolding eo_checkpoint_def by (intro grows.rules calm_ops)

lemma calm_ends: "calm_op (start_run env opts)" "calm_op (finish_run env opts)" "calm_op (unwind env opts e)"
  unfolding start_run_def read_committed_def finish_run_def unwind_def Let_def
  by (auto intro!: grows.rules adds_io adds_perform simp: gate_defs split: option.splits)

lemma observe_io_run:
  assumes "observe_batch (io m) w = (r, w')"
  shows "m (en_log w) = (r, en_log w')" "en_next_seq w' = en_next_seq w"
  using assms
  by (auto simp: observe_batch_def record_batch_def op_defs attempt_def io_def split: prod.splits)

text \<open>The watermark is behind the next sequence while the sequence has not wrapped.\<close>

lemma watermark_behind:
  assumes committed: "committed = (case Option.bind t0 parse_token of Some c \<Rightarrow> c | None \<Rightarrow> 0)"
    and bound: "unat start + Suc (length ps) < 2 ^ 64"
    and fresh: "committed < start + of_nat (Suc (length ps))"
    and hd: "Option.bind (watermark t0 (rev (due_from print committed start ps))) parse_token = Some c"
  shows "c < start + of_nat (Suc (length ps))"
proof (cases "rev (due_from print committed start ps)")
  case Nil
  with hd committed fresh show ?thesis by (simp add: watermark_def)
next
  case (Cons e es)
  then have "e \<in> set (due_from print committed start ps)" by (metis list.set_intros(1) set_rev)
  with due_from_token [of "fst e" "snd e" print committed start ps] obtain i where
    i: "i < length ps" "parse_token (snd e) = Some (start + of_nat (Suc i))" by auto
  with hd Cons have c: "c = start + of_nat (Suc i)" by (cases e) (simp add: watermark_def)
  have nat: "unat (start + of_nat k) = unat start + k" if "k \<le> Suc (length ps)" for k
    using that bound by (simp add: unat_word_ariths unat_of_nat)
  show ?thesis unfolding c word_less_nat_alt using nat [of "Suc i"] nat [of "Suc (length ps)"] i(1) by simp
qed

lemma tokened_eo_write:
  assumes "eo_write env opts page scope token seq l = (r, l')"
  shows "tokened env opts l' = tokened env opts l"
proof -
  have "adds (\<lambda>ev. ev \<noteq> PollPage) (eo_write env opts page scope token seq)" by (rule adds_eo_write) simp_all
  with assms have "grows (\<lambda>l. l) (\<lambda>ev. ev \<noteq> PollPage) pure_log l l'" unfolding moves_def by (metis snd_conv)
  then obtain evs where "l' = evs @ l" "list_all (\<lambda>ev. ev \<noteq> PollPage) evs" by (auto simp: grows_def)
  then show ?thesis by (induction evs arbitrary: l') auto
qed

lemma tokened_observe:
  assumes "observe_batch (io (eo_write env opts page scope token seq)) w = (r, w')"
  shows "tokened env opts (en_log w') = tokened env opts (en_log w) \<and> en_next_seq w' = en_next_seq w"
  using observe_io_run [OF assms] tokened_eo_write by blast

definition reached :: "env \<Rightarrow> run_options \<Rightarrow> (log \<Rightarrow> bool) \<Rightarrow> string \<Rightarrow> (value list \<times> value) list \<Rightarrow> u64
    \<Rightarrow> (value list \<times> string) list \<Rightarrow> engine \<Rightarrow> bool" where
  "reached env opts landed scope ps seq es w \<longleftrightarrow>
     tokened env opts (en_log w) = ps \<and> en_next_seq w = seq
     \<and> (unat (ro_start_seq opts) + length ps < 2 ^ 64 \<longrightarrow> effects landed scope (en_log w) = es)"

lemma eo_commit_triple:
  fixes ps :: "(value list \<times> value) list" and b :: "value"
  assumes sink: "watermark_sink env landed t0 scope"
    and committed: "committed = (case Option.bind t0 parse_token of Some c \<Rightarrow> c | None \<Rightarrow> 0)"
    and start: "start = ro_start_seq opts" and seq: "seq = start + of_nat (Suc (length ps))"
    and pages: "pages = ps @ [(governed, b)]"
    and token: "token = format_token_with_bookmark (ro_json_print opts) seq (Some b)"
  shows "triple (reached env opts landed scope pages seq (rev (due_from (ro_json_print opts) committed start ps)))
    (if seq \<le> committed then ret account'
     else op_bind (observe_batch (io (eo_write env opts governed scope token seq))) (\<lambda>report.
          op_bind (add_written (wr_accepted report)) (\<lambda>_. ret (add_report report account))))
    (\<lambda>_. progressed env opts landed scope committed) (interrupted env opts landed scope committed)"
proof -
  let ?es = "rev (due_from (ro_json_print opts) committed start ps)"
  have count: "seq = ro_start_seq opts + of_nat (length pages)" by (simp add: seq start pages)
  have due: "due_from (ro_json_print opts) committed start pages = rev ?es @ (if committed < seq then [(governed, token)] else [])"
    by (simp add: pages due_from_append token seq algebra_simps)
  show ?thesis
  proof (cases "seq \<le> committed")
    case True
    then show ?thesis
      using due count by (auto simp: reached_def progressed_def Let_def start intro!: triple_ret)
  next
    case False
    have commit: "triple (reached env opts landed scope pages seq ?es) (observe_batch (io (eo_write env opts governed scope token seq)))
        (\<lambda>_. progressed env opts landed scope committed) (interrupted env opts landed scope committed)"
    proof (cases "unat start + length pages < 2 ^ 64")
      case wraps: False
      show ?thesis
        by (rule tripleI) (use wraps count in \<open>auto simp: reached_def progressed_def interrupted_def Let_def start
            dest!: tokened_observe\<close>)
    next
      case fits: True
      have parses: "parse_token token = Some seq" by (simp add: token parse_token_with_bookmark)
      have fresh: "c < seq" if "Option.bind (watermark t0 ?es) parse_token = Some c" for c
        unfolding seq by (rule watermark_behind [OF committed _ _ that]) (use fits False in \<open>simp_all add: pages seq\<close>)
      note run = eo_write_triple [OF sink fresh parses, where opts = opts and ps = pages and page = governed]
      have due': "due_from (ro_json_print opts) committed (ro_start_seq opts) pages = rev ?es @ [(governed, token)]"
        using due False by (simp add: start)
      show ?thesis
      proof (rule tripleI)
        fix w x w' assume w: "reached env opts landed scope pages seq ?es w"
          and call: "observe_batch (io (eo_write env opts governed scope token seq)) w = (Ok x, w')"
        from w fits have "effects landed scope (en_log w) = ?es \<and> tokened env opts (en_log w) = pages"
          by (simp add: reached_def start)
        from triple_Ok [OF run this observe_io_run(1) [OF call]] observe_io_run(2) [OF call] w count due'
        show "progressed env opts landed scope committed w'" by (simp add: progressed_def reached_def)
      next
        fix w e w' assume w: "reached env opts landed scope pages seq ?es w"
          and call: "observe_batch (io (eo_write env opts governed scope token seq)) w = (Err e, w')"
        from w fits have "effects landed scope (en_log w) = ?es \<and> tokened env opts (en_log w) = pages"
          by (simp add: reached_def start)
        from triple_Err [OF run this observe_io_run(1) [OF call]] due'
        show "interrupted env opts landed scope committed w'" by (auto simp: interrupted_def)
      qed
    qed
    show ?thesis
      unfolding if_not_P [OF False]
      by (intro triple_bind [OF commit] calm_triple) (intro grows.rules calm_ops)
  qed
qed

lemma eo_page_path_once:
  assumes sink: "watermark_sink env landed t0 (case ro_state_key opts of Some k \<Rightarrow> k | None \<Rightarrow> [])"
    and committed: "committed = (case Option.bind t0 parse_token of Some c \<Rightarrow> c | None \<Rightarrow> 0)"
    and scope: "scope = (case ro_state_key opts of Some k \<Rightarrow> k | None \<Rightarrow> [])"
  shows "triple (reached env opts landed scope (ps @ [(governed, b)]) (ro_start_seq opts + of_nat (length ps))
      (rev (due_from (ro_json_print opts) committed (ro_start_seq opts) ps)))
    (eo_page_path env opts committed governed account (Some b))
    (\<lambda>_. progressed env opts landed scope committed) (interrupted env opts landed scope committed)"
proof -
  let ?seq = "ro_start_seq opts + of_nat (Suc (length ps))"
  let ?es = "rev (due_from (ro_json_print opts) committed (ro_start_seq opts) ps)"
  let ?at = "\<lambda>seq. reached env opts landed scope (ps @ [(governed, b)]) seq ?es"
  have count: "triple (?at (ro_start_seq opts + of_nat (length ps))) (modify (\<lambda>w. w \<lparr> en_next_seq := en_next_seq w + 1 \<rparr>))
      (\<lambda>_. ?at ?seq) (interrupted env opts landed scope committed)"
    by (rule triple_modify) (auto simp: reached_def algebra_simps)
  have read: "triple (?at ?seq) (gets en_next_seq) (\<lambda>seq w. ?at ?seq w \<and> seq = ?seq) (interrupted env opts landed scope committed)"
    by (rule triple_gets) (simp add: reached_def)
  note commit = eo_commit_triple [OF sink [folded scope] committed refl refl refl refl]
  show ?thesis
    unfolding eo_page_path_def option.case Let_def
    by (intro triple_bind [OF count] triple_bind [OF read] triple_pure, hypsubst, unfold scope [symmetric],
        intro triple_bind [OF commit] triple_bind [OF calm_triple [OF calm_settle]] calm_triple calm_eo_checkpoint)
qed

definition page_pending :: "env \<Rightarrow> run_options \<Rightarrow> (log \<Rightarrow> bool) \<Rightarrow> string \<Rightarrow> u64 \<Rightarrow> stream_page \<Rightarrow> engine \<Rightarrow> bool" where
  "page_pending env opts landed scope committed page w \<longleftrightarrow>
     (case sp_bookmark page of
        None \<Rightarrow> progressed env opts landed scope committed w
      | Some b \<Rightarrow> \<exists>ps. reached env opts landed scope (ps @ [(masking_pass (ro_specs opts) (sp_records page), b)])
          (ro_start_seq opts + of_nat (length ps)) (rev (due_from (ro_json_print opts) committed (ro_start_seq opts) ps)) w)"

lemma page_pending_interrupted:
  "page_pending env opts landed scope committed page w \<Longrightarrow> interrupted env opts landed scope committed w"
  by (auto simp: page_pending_def reached_def interrupted_def progressed_def due_from_append Let_def split: option.splits)

lemma page_pending_polled:
  assumes "progressed env opts landed scope committed w" "taken env opts (PollPage # en_log w) = Some (Ok page)"
  shows "page_pending env opts landed scope committed page (polled w)"
  using assms by (auto simp: page_pending_def progressed_def reached_def Let_def rev_swap split: option.splits)

lemma process_page_once:
  assumes sink: "watermark_sink env landed t0 (case ro_state_key opts of Some k \<Rightarrow> k | None \<Rightarrow> [])"
    and committed: "committed = (case Option.bind t0 parse_token of Some c \<Rightarrow> c | None \<Rightarrow> 0)"
    and scope: "scope = (case ro_state_key opts of Some k \<Rightarrow> k | None \<Rightarrow> [])"
    and opts: "masking_only opts" "ro_dlq opts = None"
  shows "triple (page_pending env opts landed scope committed page) (process_page env opts True committed page)
    (\<lambda>_. progressed env opts landed scope committed) (interrupted env opts landed scope committed)"
proof (rule process_page_rule [where P' = "\<lambda>gov w. page_pending env opts landed scope committed page w
      \<and> go_records gov = masking_pass (ro_specs opts) (sp_records page)"], goal_cases gov abort fail raised paths)
  case gov
  show ?case by (rule tripleI) (auto simp: governance_masking_only [OF opts(1)])
next
  case (paths gov)
  show ?case
  proof (simp only: Let_def opts(2) option.case if_True, rule triple_pure)
    assume rows: "go_records gov = masking_pass (ro_specs opts) (sp_records page)"
    show "triple (page_pending env opts landed scope committed page) (eo_page_path env opts committed (go_records gov)
        ((PageAccount_new (length (sp_records page))) \<lparr> pa_quarantined := length (go_envelopes gov) \<rparr>) (sp_bookmark page))
        (\<lambda>_. progressed env opts landed scope committed) (interrupted env opts landed scope committed)"
    proof (cases "sp_bookmark page")
      case (Some b)
      show ?thesis unfolding page_pending_def Some option.case rows
        by (intro triple_ex eo_page_path_once [OF sink committed scope])
    next
      case None
      show ?thesis unfolding page_pending_def None option.case eo_page_path_def Let_def
        by (intro triple_if calm_triple grows.rules calm_ops calm_settle)
    qed
  qed
qed (auto simp: opts page_pending_interrupted progressed_interrupted)

lemma poll_step_once:
  assumes "watermark_sink env landed t0 (case ro_state_key opts of Some k \<Rightarrow> k | None \<Rightarrow> [])"
    and "committed = (case Option.bind t0 parse_token of Some c \<Rightarrow> c | None \<Rightarrow> 0)"
    and "scope = (case ro_state_key opts of Some k \<Rightarrow> k | None \<Rightarrow> [])"
    and "masking_only opts" "ro_dlq opts = None"
  shows "triple (progressed env opts landed scope committed) (poll_step env opts True committed)
    (\<lambda>s w. case s of Again \<Rightarrow> progressed env opts landed scope committed w | Stop \<Rightarrow> progressed env opts landed scope committed w)
    (interrupted env opts landed scope committed)"
proof (rule poll_rule [where R = "page_pending env opts landed scope committed"])
  show "triple (page_pending env opts landed scope committed page) (process_page env opts True committed page)
      (\<lambda>_. progressed env opts landed scope committed) (interrupted env opts landed scope committed)" for page
    by (rule process_page_once [OF assms])
next
  fix w page assume "progressed env opts landed scope committed w" "taken env opts (PollPage # en_log w) = Some (Ok page)"
  then show "page_pending env opts landed scope committed page (polled w)" by (rule page_pending_polled)
qed (auto simp: page_pending_def progressed_def interrupted_def Let_def)

lemma start_run_committed:
  assumes sink: "watermark_sink env landed t0 (case ro_state_key opts of Some k \<Rightarrow> k | None \<Rightarrow> [])"
    and mechanism: "select_mechanism env opts = Ok (Some AtomicWatermark)"
    and run: "start_run env opts w = (Ok (eo, committed), w')" and w: "en_log w = []"
  shows "eo \<and> committed = (case Option.bind t0 parse_token of Some c \<Rightarrow> c | None \<Rightarrow> 0)"
proof -
  have told: "t = t0" if "sk_last_committed_token env [SinkToken (case ro_state_key opts of Some k \<Rightarrow> k | None \<Rightarrow> [])] = Ok t" for t
    using sink that unfolding watermark_sink_def by (metis effects.simps(1) list.case(1) watermark_def)
  show ?thesis
    using run by (auto simp: start_run_def mechanism read_committed_def io_def read_token_def perform_def lift_result_def w Let_def
        split: prod.splits dest!: told)
qed

subsection \<open>A concrete run\<close>

text \<open>
  One page. The sink commits every write but reports the first as failed, so the engine retries and finds
  the token.
\<close>

definition once_options :: run_options where
  "once_options = sample_options \<lparr> ro_delivery := ExactlyOnce, ro_start_seq := 3,
     ro_resilience := Some \<lparr> res_retry = \<lparr> rp_max_attempts = 3, rp_backoff = NoBackoff, rp_base = 0, rp_max = 0, rp_jitter = False,
         rp_retry_on = default_class_set \<rparr>, res_circuit_breaker = None, res_poison = None \<rparr> \<rparr>"

definition lossy_env :: env where
  "lossy_env = one_page_env \<lparr> sk_supports_idempotent_writes := True,
     sk_write_idempotent := (\<lambda>l. Err (RateLimited 0)),
     sk_last_committed_token := (\<lambda>l. Ok (watermark None (effects (\<lambda>_. True) ''k'' (tl l)))),
     pg_next := (\<lambda>l. if length l = 2 then Some (Ok \<lparr> sp_records = [Bool True], sp_bookmark = Some Null \<rparr>) else None) \<rparr>"

lemma with_retry_first:
  assumes "m l = (Ok x, l')"
  shows "with_retry env opts m l = (Ok x, l')"
  by (cases "retry_policy_of opts")
     (simp_all add: with_retry_def assms execute_with_policy_def run_with_policy_def run_loop.simps rate_limit_wait_def)

lemma lossy_write:
  assumes "parse_token token = Some seq"
  shows "eo_write lossy_env once_options page ''k'' token seq l =
    (Ok (WriteReport_accepted (length page)), SinkToken ''k'' # SinkIdempotent page ''k'' token # l)"
proof -
  note env = lossy_env_def one_page_env_def quiet_env_def once_options_def sample_options_def retry_policy_of_def
  note ops = op_defs on_snd_def read_token_def gate_idempotent_def perform_def
  show ?thesis
    by (simp add: eo_write_def env execute_with_policy_def run_with_policy_def,
        subst run_loop.simps, simp add: eo_write_once_def ops rate_limit_wait_def policy_is_retriable_def retry_wait_def max_attempts_of_def,
        subst run_loop.simps, simp add: eo_write_once_def ops rate_limit_wait_def watermark_def assms)
qed

definition once_w0 :: engine where
  "once_w0 = (initial_engine once_options None []) \<lparr> en_log := [SinkToken ''k''] \<rparr>"

definition once_token :: string where
  "once_token = format_token_with_bookmark (\<lambda>v. []) 4 (Some Null)"

lemma once_start: "start_run lossy_env once_options (initial_engine once_options None []) = (Ok (True, 0), once_w0)"
proof -
  have "check_dlq_gates once_options = Ok ()" by code_simp
  then show ?thesis
    by (simp add: start_run_def op_defs select_mechanism_def read_committed_def io_def read_token_def perform_def once_w0_def
        initial_engine_def once_options_def lossy_env_def sample_options_def one_page_env_def quiet_env_def adaptive_of_def
        watermark_def Let_def)
qed

lemma once_page:
  "\<exists>w1. poll_step lossy_env once_options True 0 once_w0 = (Ok Again, w1) \<and> en_cancelled w1 = False
     \<and> en_log w1 = [StatePut ''k'' (wrap_state (Some Null) 4), SinkFlush, SinkToken ''k'',
         SinkIdempotent [Null] ''k'' once_token, PollPage, SinkToken ''k'']"
proof -
  have only: "masking_only once_options" by (simp add: masking_only_def once_options_def sample_options_def sample_specs_def)
  have commit: "eo_write lossy_env once_options [Null] ''k'' (format_token_with_bookmark (\<lambda>v. []) 4 (Some Null)) 4 l =
      (Ok (WriteReport_accepted 1), SinkToken ''k'' # SinkIdempotent [Null] ''k'' once_token # l)" for l
    using lossy_write [OF parse_token_with_bookmark, where page = "[Null]"] by (simp add: once_token_def)
  have fields: "\<not> ro_has_cancel once_options" "ro_start_seq once_options = 3" "ro_state_key once_options = Some ''k''"
    "ro_has_store once_options" "ro_dlq once_options = None" "ro_json_print once_options = (\<lambda>v. [])"
    "masking_pass (ro_specs once_options) [Bool True] = [Null]"
    "pg_next lossy_env [PollPage, SinkToken ''k''] = Some (Ok \<lparr> sp_records = [Bool True], sp_bookmark = Some Null \<rparr>)"
    by (simp_all add: once_options_def sample_options_def sample_specs_def masking_pass_def lossy_env_def)
  have flush: "with_retry lossy_env once_options (sink_flush lossy_env) l = (Ok (), SinkFlush # l)" for l
    by (rule with_retry_first) (simp add: sink_flush_def perform_def lossy_env_def one_page_env_def quiet_env_def)
  have put: "with_retry lossy_env once_options (state_put lossy_env ''k'' v) l = (Ok (), StatePut ''k'' v # l)" for v l
    by (rule with_retry_first) (simp add: state_put_def perform_def lossy_env_def one_page_env_def quiet_env_def)
  show ?thesis
    by (simp add: poll_step_def process_page_def eo_page_path_def eo_checkpoint_def persist_def observe_batch_def record_batch_def
        add_written_def set_last_bookmark_def settle_page_def settle_def PageAccount_new_def add_report_def page_accounted_def
        WriteReport_accepted_def governance_masking_only [OF only] commit flush put op_defs attempt_def io_def Let_def
        once_w0_def initial_engine_def fields)
qed

lemma once_run:
  "\<exists>res w. run_stream_with lossy_env once_options None [] = Some (Ok res, w)
     \<and> en_log w = [SinkFlush, PollPage, StatePut ''k'' (wrap_state (Some Null) 4), SinkFlush, SinkToken ''k'',
         SinkIdempotent [Null] ''k'' once_token, PollPage, SinkToken ''k'']"
proof -
  obtain w1 where w1: "poll_step lossy_env once_options True 0 once_w0 = (Ok Again, w1)" "en_cancelled w1 = False"
    "en_log w1 = [StatePut ''k'' (wrap_state (Some Null) 4), SinkFlush, SinkToken ''k'',
         SinkIdempotent [Null] ''k'' once_token, PollPage, SinkToken ''k'']"
    using once_page by blast
  have w2: "poll_step lossy_env once_options True 0 w1 = (Ok Stop, polled w1)"
    using w1(2,3) by (simp add: poll_step_def op_defs lossy_env_def once_options_def sample_options_def)
  have loop: "drive (poll_step lossy_env once_options True 0) once_w0 = Some (Ok (), polled w1)"
    by (rule drive_two [OF w1(1) w2])
  show ?thesis
    by (simp add: run_stream_with_def once_start loop)
       (simp add: finish_run_def op_defs w1 io_def sink_flush_def perform_def once_options_def sample_options_def lossy_env_def
         one_page_env_def quiet_env_def)
qed

section \<open>Properties\<close>

text \<open>C2. Effectively-once delivery: against a sink whose acknowledged writes took effect and whose committed
  token is that of its last effective write, the idempotent writes that take effect in a run are exactly
  the pages beyond the sink's watermark, each once, in order and under its own token, although a write may
  commit and still fail, be retried, or be reported late; a run that fails has an initial part of them.
  Pages at or below the watermark are skipped, so a replayed prefix is never written again.\<close>

theorem effectively_once:
  assumes run: "run_stream_with env opts accounts [] = Some (r, w)"
    and mechanism: "select_mechanism env opts = Ok (Some AtomicWatermark)"
    and sink: "watermark_sink env landed t0 scope"
    and scope: "scope = (case ro_state_key opts of Some k \<Rightarrow> k | None \<Rightarrow> [])"
    and governed: "masking_only opts"
    and bound: "unat (ro_start_seq opts) + length (tokened env opts (en_log w)) < 2 ^ 64"
  shows "let committed = (case Option.bind t0 parse_token of Some c \<Rightarrow> c | None \<Rightarrow> 0);
             due = due_from (ro_json_print opts) committed (ro_start_seq opts) (tokened env opts (en_log w));
             wrote = rev (effects landed scope (en_log w))
         in prefix wrote due \<and> (is_ok r \<longrightarrow> wrote = due)"
proof -
  let ?w0 = "initial_engine opts accounts []"
  let ?committed = "case Option.bind t0 parse_token of Some c \<Rightarrow> c | None \<Rightarrow> 0"
  let ?P = "progressed env opts landed scope ?committed" and ?E = "interrupted env opts landed scope ?committed"
  note sink' = sink [unfolded scope]
  have no_dlq: "ro_dlq opts = None"
    using mechanism by (auto simp: select_mechanism_def Let_def split: if_splits)
  have init: "?P ?w0" by (simp add: progressed_def initial_engine_def)
  have loop: "case r2 of Ok _ \<Rightarrow> ?P w2 | Err _ \<Rightarrow> ?E w2"
    if "start_run env opts ?w0 = (Ok (eo, seq), w1)" "drive (poll_step env opts eo seq) w1 = Some (r2, w2)" for eo seq w1 r2 w2
  proof -
    have "eo \<and> seq = ?committed"
      by (rule start_run_committed [OF sink' mechanism that(1)]) (simp add: initial_engine_def)
    moreover have "?P w1" by (rule triple_Ok [OF calm_triple [OF calm_ends(1)] init that(1)])
    ultimately show ?thesis using drive_rule [OF poll_step_once [OF sink' refl scope governed no_dlq]] that(2) by simp
  qed
  have result: "?E w \<and> (is_ok r \<longrightarrow> ?P w)"
    using run
  proof (cases rule: run_cases)
    case (refused e)
    from triple_Err [OF calm_triple [OF calm_ends(1)] init refused(1)] refused(2) show ?thesis by simp
  next
    case (failed eo seq w1 e w2)
    from loop [OF failed(1,2)] calm_run [OF calm_ends(3) failed(3)] failed(3) show ?thesis
      by (cases r) (auto simp: unwind_fails interrupted_def)
  next
    case (finished eo seq w1 w2)
    from loop [OF finished(1,2)] calm_run [OF calm_ends(2) finished(3)] have "?P w" by (simp add: progressed_def)
    then show ?thesis by (simp add: progressed_interrupted)
  qed
  with bound show ?thesis by (auto simp: progressed_def interrupted_def Let_def)
qed

theorem effectively_once_witness:
  "\<exists>res w. run_stream_with lossy_env once_options None [] = Some (Ok res, w)
     \<and> effects (\<lambda>_. True) ''k'' (en_log w) = [([Null], once_token)]"
proof -
  obtain res w where run: "run_stream_with lossy_env once_options None [] = Some (Ok res, w)"
    and log: "en_log w = [SinkFlush, PollPage, StatePut ''k'' (wrap_state (Some Null) 4), SinkFlush, SinkToken ''k'',
         SinkIdempotent [Null] ''k'' once_token, PollPage, SinkToken ''k'']"
    using once_run by blast
  have sink: "watermark_sink lossy_env (\<lambda>_. True) None ''k''" by (simp add: watermark_sink_def lossy_env_def)
  have mechanism: "select_mechanism lossy_env once_options = Ok (Some AtomicWatermark)"
    by (simp add: select_mechanism_def once_options_def sample_options_def lossy_env_def one_page_env_def quiet_env_def)
  have only: "masking_only once_options" by (simp add: masking_only_def once_options_def sample_options_def sample_specs_def)
  have pages: "tokened lossy_env once_options (en_log w) = [([Null], Null)]"
    by (simp add: log taken_def lossy_env_def once_options_def sample_options_def sample_specs_def masking_pass_def)
  have start: "ro_start_seq once_options = 3" "ro_json_print once_options = (\<lambda>v. [])" "ro_state_key once_options = Some ''k''"
    by (simp_all add: once_options_def sample_options_def)
  have "rev (effects (\<lambda>_. True) ''k'' (en_log w)) = [([Null], once_token)]"
    using effectively_once [OF run mechanism sink _ only] unfolding pages by (simp add: start once_token_def Let_def)
  with run show ?thesis by auto
qed

end
