(* ===== verification/Pipeline_Ends.thy ===== *)
theory Pipeline_Ends
  imports Pipeline_Rows
begin

section \<open>How a run ends\<close>

text \<open>
  Termination of the loop when the stream ends, the unwinding of an error, and the aborts a page defers
  until it is durable.
\<close>

subsection \<open>The loop ends with the stream\<close>

abbreviation only_grows :: "(engine, 'a) op \<Rightarrow> bool" where
  "only_grows m \<equiv> adds_keeping stream_event (\<lambda>_. ()) m"

lemma keeps_grows: "keeps_accounts m \<Longrightarrow> only_grows m"
  unfolding moves_def grows_def by blast

lemma settle_grows: "only_grows (settle_page account)"
  by (auto simp: moves_def grows_def settle_page_def split: prod.splits)

lemma gates_page_op:
  "page_op (io (gate_admit env rs))" "page_op (io (with_retry_write env opts (gate_reported env rs)))"
  by (auto intro!: page_op_intros simp: gate_defs)

lemmas path_grows = grows.rules settle_grows checkpoints_keep [THEN keeps_grows]
  page_op_batch [THEN page_op_keeps, THEN keeps_grows] gates_page_op [THEN page_op_keeps, THEN keeps_grows]
  page_op_write_chunks [THEN page_op_keeps, THEN keeps_grows] page_op_dlq_chunks [THEN page_op_keeps, THEN keeps_grows]
  page_op_batch(3) [OF page_op_eo_write, THEN page_op_keeps, THEN keeps_grows]
  page_op_batch(3) [OF gates_page_op(2), THEN page_op_keeps, THEN keeps_grows]

lemma default_path_grows: "only_grows (default_page_path env opts governed account bookmark)"
  unfolding default_page_path_def by (auto intro!: path_grows)

lemma eo_path_grows: "only_grows (eo_page_path env opts committed_seq governed account bookmark)"
  unfolding eo_page_path_def Let_def
  by (cases bookmark) (auto intro!: path_grows grows.modify simp: grows_def)

lemma write_envelopes_grows: "only_grows (write_envelopes env opts envelopes)"
  unfolding write_envelopes_def
  by (auto intro!: grows.rules grows.modify adds_io adds_with_retry adds_gate_dlq simp: grows_def)

lemma dlq_path_grows: "only_grows (dlq_page_path env opts dlq governed gov_envelopes account bookmark)"
  unfolding dlq_page_path_def Let_def by (auto intro!: path_grows write_envelopes_grows)

lemma process_page_grows: "only_grows (process_page env opts exactly_once committed_seq page)"
proof -
  have gov: "only_grows (with_gov (apply_governance env specs records))" for specs records
  proof -
    have "adds_keeping is_schema_call (\<lambda>_. ()) (with_gov (apply_governance env specs records))"
      by (rule with_gov_footprint) simp
    then show ?thesis by (rule adds_keeping_mono) (rule schema_stream)
  qed
  have abort: "only_grows (op_bind (io (abort_with_envelopes env envelopes)) (\<lambda>count.
      modify (\<lambda>w. w \<lparr> en_dlq_stats := count (en_dlq_stats w) \<rparr>)))" for envelopes
    by (auto simp: abort_with_envelopes_def gate_defs grows_def
        intro!: grows.rules grows.modify adds_io adds_gate_dlq adds_perform)
  have raise: "only_grows (raise_deferred d)" for d
    by (auto simp: raise_deferred_def intro: grows.rules split: option.split)
  show ?thesis
    unfolding process_page_def Let_def
    by (auto intro!: grows.rules gov abort raise dlq_path_grows eo_path_grows default_path_grows split: option.split)
qed

fun polls :: "log \<Rightarrow> nat" where
  "polls [] = 0"
| "polls (ev # l) = (if ev = PollPage then 1 else 0) + polls l"

lemma polls_append: "polls (evs @ l) = polls evs + polls l"
  by (induction evs) auto

lemma poll_step_polls:
  assumes "poll_step env opts exactly_once committed_seq w = (Ok Again, w')"
  shows "polls (en_log w) < polls (en_log w')" "\<exists>page. taken env opts (PollPage # en_log w) = Some (Ok page)"
proof -
  have grown: "polls (en_log (polled w)) \<le> polls (en_log w2)"
    if "process_page env opts exactly_once committed_seq page (polled w) = (Ok u, w2)" for page u w2
  proof -
    from that process_page_grows [of env opts exactly_once committed_seq page]
    have "grows en_log stream_event (\<lambda>_. ()) (polled w) w2" unfolding moves_def by (metis snd_conv)
    then obtain evs where "en_log w2 = evs @ en_log (polled w)" by (auto simp: grows_def)
    then show ?thesis by (simp add: polls_append)
  qed
  from assms show "polls (en_log w) < polls (en_log w')"
    by (auto simp: poll_step_def modify_def split: if_splits option.splits sum.splits dest!: grown)
  from assms show "\<exists>page. taken env opts (PollPage # en_log w) = Some (Ok page)"
    by (auto simp: poll_step_def modify_def taken_def split: if_splits option.splits sum.splits)
qed

lemma drive_ends:
  assumes ends: "\<And>l. n \<le> polls l \<Longrightarrow> \<not> (\<exists>page. taken env opts (PollPage # l) = Some (Ok page))"
  shows "\<exists>y. drive (poll_step env opts exactly_once committed_seq) w = Some y"
proof (rule drive_terminates [where m = "\<lambda>w. n - polls (en_log w)"])
  fix w w' assume again: "poll_step env opts exactly_once committed_seq w = (Ok Again, w')"
  from poll_step_polls [OF again] ends [of "en_log w"] show "n - polls (en_log w') < n - polls (en_log w)"
    by (meson diff_less_mono2 linorder_not_le)
qed

lemma poll_step_grows: "only_grows (poll_step env opts exactly_once committed_seq)"
proof -
  have poll: "only_grows (modify polled)" by (rule grows.modify) (auto simp: grows_def intro: exI [of _ "[PollPage]"])
  have flag: "only_grows (modify (\<lambda>w. w \<lparr> en_cancelled := f w \<rparr>))" for f
    by (rule grows.modify) (simp add: grows_def)
  show ?thesis
    unfolding poll_step_def
    by (intro grows.rules poll) (auto intro!: grows.rules flag process_page_grows split: option.split sum.split)
qed

text \<open>What a run adds to the log are calls of the streaming loop.\<close>

lemma run_adds:
  assumes "run_stream_with env opts accounts l = Some (r, w)"
  shows "\<exists>evs. en_log w = evs @ l \<and> list_all stream_event evs"
proof -
  let ?w0 = "initial_engine opts accounts l"
  let ?I = "\<lambda>w. grows en_log stream_event (\<lambda>_. ()) ?w0 w"
  have start: "only_grows (start_run env opts)"
    unfolding start_run_def read_committed_def Let_def
    by (rule keeps_grows, rule page_op_keeps) (auto intro!: page_op_intros simp: gate_defs split: option.splits)
  have ends: "only_grows (unwind env opts e)" "only_grows (finish_run env opts)" for e
    unfolding unwind_def finish_run_def
    by (rule keeps_grows, rule page_op_keeps, auto intro!: page_op_intros simp: gate_defs)+
  have loop: "?I w2" if "start_run env opts ?w0 = (Ok (eo, seq), w1)" "drive (poll_step env opts eo seq) w1 = Some (r2, w2)"
    for eo seq w1 r2 w2
  proof (rule drive_inv [OF _ that(2)])
    show "triple ?I (poll_step env opts eo seq) (\<lambda>_. ?I) ?I"
      using poll_step_grows by (intro tripleI) (metis grows.trans moves_def snd_conv)+
    show "?I w1" using start that(1) unfolding moves_def by (metis snd_conv)
  qed
  from assms have "?I w"
  proof (cases rule: run_cases)
    case (refused e)
    with start show ?thesis unfolding moves_def by (metis snd_conv)
  next
    case (failed eo seq w1 e w2)
    with ends(1) [of e] loop [OF failed(1,2)] show ?thesis unfolding moves_def by (metis grows.trans snd_conv)
  next
    case (finished eo seq w1 w2)
    with ends(2) loop [OF finished(1,2)] show ?thesis unfolding moves_def by (metis grows.trans snd_conv)
  qed
  then show ?thesis by (simp add: grows_def initial_engine_def)
qed

subsection \<open>The end of a dead-letter page\<close>

text \<open>The page is durable: both sinks are clean and the bookmark was the last thing stored.\<close>

definition page_durable :: "env \<Rightarrow> string \<Rightarrow> value \<Rightarrow> log \<Rightarrow> bool" where
  "page_durable env key b l \<longleftrightarrow>
     (\<exists>l0. l = StatePut key b # l0 \<and> ss_put env l = Ok () \<and> sink_clean env l0 \<and> dlq_clean env l0)"

lemma dlq_checkpoint_durable:
  assumes "\<not> sk_is_overwrite env" "ro_has_store opts" "ro_state_key opts = Some key"
  shows "triple (\<lambda>_. True) (dlq_checkpoint env opts (Some b))
    (\<lambda>_ w. page_durable env key b (en_log w) \<and> en_last_bookmark w = Some b) (\<lambda>_. True)"
proof -
  have flush: "triple (\<lambda>_. True) (io (with_retry env opts (sink_flush env))) (\<lambda>_. at_log (sink_clean env)) (\<lambda>_. True)"
    by (rule triple_weaken [OF triple_io [OF triple_with_retry [where P = "\<lambda>_. True" and Q = "\<lambda>_. sink_clean env"]]])
       (auto simp: sink_flush_def is_ok_def intro!: triple_perform)
  have dlq: "triple (at_log (sink_clean env)) (op_map_err dlq_flush_error (io (with_retry env opts (dlq_flush env))))
      (\<lambda>_. at_log (\<lambda>l. sink_clean env l \<and> dlq_clean env l)) (\<lambda>_. True)"
    by (rule triple_map_err, rule triple_weaken [OF triple_io [OF triple_with_retry
          [where P = "sink_clean env" and Q = "\<lambda>_ l. sink_clean env l \<and> dlq_clean env l"]]])
       (auto simp: dlq_flush_def is_ok_def intro!: triple_perform)
  have store: "persist env opts b = io (with_retry env opts (state_put env key b))" by (simp add: persist_def assms(2,3))
  have put: "triple (at_log (\<lambda>l. sink_clean env l \<and> dlq_clean env l)) (persist env opts b)
      (\<lambda>_. at_log (page_durable env key b)) (\<lambda>_. True)"
    unfolding store
    by (rule triple_weaken [OF triple_io [OF triple_with_retry
          [where P = "\<lambda>l. sink_clean env l \<and> dlq_clean env l" and Q = "\<lambda>_. page_durable env key b"]]])
       (auto simp: state_put_def page_durable_def intro!: triple_perform)
  have last: "triple (at_log (page_durable env key b)) (set_last_bookmark b)
      (\<lambda>_ w. page_durable env key b (en_log w) \<and> en_last_bookmark w = Some b) (\<lambda>_. True)"
    unfolding set_last_bookmark_def by (rule triple_modify) simp
  show ?thesis
    unfolding dlq_checkpoint_def option.case if_not_P [OF assms(1)]
    by (rule triple_seq [OF flush triple_seq [OF dlq triple_seq [OF put last]]])
qed

lemma dlq_page_path_steps:
  assumes "dlq_page_path env opts dlq governed gov_envelopes account bookmark w = (Ok d, w')"
  shows "\<exists>page w0 w1 circuit w2 w3 w4. dlq_chunks env opts dlq governed 0 \<lparr> pg_envelopes = [], pg_success = 0,
        pg_account = account, pg_outer_err_recovered = False, pg_had_per_row_failure = False \<rparr> w0 = (Ok page, w1)
    \<and> breaker_step opts (length governed) (pg_success page) w1 = (Ok circuit, w2)
    \<and> write_envelopes env opts (gov_envelopes @ pg_envelopes page) w2 = (Ok (), w3)
    \<and> dlq_checkpoint env opts bookmark w4 = (Ok (), w')
    \<and> d = (case budget_error dlq (length (gov_envelopes @ pg_envelopes page)) (ds_records_dlq (en_dlq_stats w2)) of
            Some e \<Rightarrow> Some e | None \<Rightarrow> circuit)"
  using assms unfolding dlq_page_path_def Let_def prepend_def
  by (elim op_bind_OkE) (simp add: comp_def, blast)

section \<open>Properties\<close>

text \<open>C7. The loop ends when the stream does: if the stream yields no page once it has been polled \<open>n\<close> times, the
  run returns a result or an error, whatever the sinks and the store answer; the retries, the poison
  loop and the sub-batches of a page always end.\<close>

theorem run_returns:
  assumes "\<And>l. n \<le> polls l \<Longrightarrow> \<not> (\<exists>page. taken env opts (PollPage # l) = Some (Ok page))"
  shows "\<exists>r w. run_stream_with env opts accounts l0 = Some (r, w)"
proof -
  obtain r w where start: "start_run env opts (initial_engine opts accounts l0) = (r, w)"
    by (cases "start_run env opts (initial_engine opts accounts l0)")
  show ?thesis
  proof (cases r)
    case (Inl e)
    with start show ?thesis by (simp add: run_stream_with_def)
  next
    case (Inr p)
    obtain eo seq where p: "p = (eo, seq)" by (cases p)
    obtain r' w' where "drive (poll_step env opts eo seq) w = Some (r', w')"
      using drive_ends [OF assms] by (metis surj_pair)
    with start Inr p show ?thesis by (cases r') (auto simp: run_stream_with_def intro: prod.exhaust)
  qed
qed

theorem run_returns_witness: "\<exists>r w. run_stream_with one_page_env sample_options None [] = Some (r, w)"
proof (rule run_returns [of 1])
  fix l assume "1 \<le> polls l"
  then show "\<not> (\<exists>page. taken one_page_env sample_options (PollPage # l) = Some (Ok page))"
    by (cases l) (auto simp: taken_def one_page_env_def sample_options_def)
qed

text \<open>C8. Every error of the loop ends the run the same way: the dead-letter sink is flushed first, then the
  main sink unless the run overwrites (whose destination must stay as it was), once each and whatever the
  flushes answer, and the run returns the original error.\<close>

theorem error_unwinds:
  assumes "start_run env opts (initial_engine opts accounts l) = (Ok (exactly_once, committed_seq), w1)"
    and "drive (poll_step env opts exactly_once committed_seq) w1 = Some (Err e, w2)"
  shows "run_stream_with env opts accounts l = Some (Err e, w2 \<lparr> en_log :=
    (if sk_is_overwrite env then [] else [SinkFlush]) @ (if ro_dlq opts = None then [] else [DlqFlush]) @ en_log w2 \<rparr>)"
  using assms
  by (simp add: run_stream_with_def unwind_def op_defs attempt_def io_def sink_flush_def dlq_flush_def perform_def)

definition broken_source :: env where
  "broken_source = quiet_env \<lparr> pg_next := (\<lambda>l. Some (Err (Source ''gone''))) \<rparr>"

theorem error_unwinds_witness:
  "\<exists>w. run_stream_with broken_source sample_options None [] = Some (Err (Source ''gone''), w) \<and> en_log w = [SinkFlush, PollPage]"
proof -
  let ?w1 = "initial_engine sample_options None []"
  have "check_dlq_gates sample_options = Ok ()" by code_simp
  then have start: "start_run broken_source sample_options ?w1 = (Ok (False, 0), ?w1)"
    by (simp add: start_run_def op_defs select_mechanism_def read_committed_def sample_options_def adaptive_of_def Let_def)
  have step: "poll_step broken_source sample_options False 0 ?w1 = (Err (Source ''gone''), polled ?w1)"
    by (simp add: poll_step_def op_defs broken_source_def sample_options_def)
  have "drive (poll_step broken_source sample_options False 0) ?w1 = Some (Err (Source ''gone''), polled ?w1)"
    by (simp add: drive.simps step)
  from error_unwinds [OF start this] show ?thesis
    by (simp add: broken_source_def quiet_env_def sample_options_def initial_engine_def)
qed


definition strict_dlq :: dlq_config where
  "strict_dlq = DlqConfig_new \<lparr> dc_max_failures_per_page := Some 0 \<rparr>"


end
