(* ===== verification/Pipeline_Fast.thy ===== *)
theory Pipeline_Fast
  imports Pipeline_Ends
begin

section \<open>The fast paths\<close>

text \<open>
  \<open>run_stream_columnar\<close> and \<open>run_stream_native\<close> of \<open>pipeline.rs\<close>. A columnar batch is an Arrow record batch: the
  environment says how many rows it has, which records it converts to and how many rows the re-encoded
  records make. A native batch is bytes with an optional row count.
\<close>

subsection \<open>The columnar loop\<close>

definition fast_put :: "env \<Rightarrow> run_options \<Rightarrow> value \<Rightarrow> (engine, unit) op" where
  "fast_put env opts v =
     (case (ro_has_store opts, ro_state_key opts) of
        (True, Some key) \<Rightarrow> io (state_put env key v)
      | _ \<Rightarrow> ret ())"

definition fast_checkpoint :: "env \<Rightarrow> run_options \<Rightarrow> value \<Rightarrow> (engine, unit) op" where
  "fast_checkpoint env opts b =
     op_seq (io (sink_flush env)) (op_seq (fast_put env opts b) (set_last_bookmark b))"

definition no_dlq_sink :: faucet_error where
  "no_dlq_sink = Config ''governance quarantined records but no DLQ sink is configured''"

text \<open>The envelopes of a page: what it returns is the abort of an exceeded budget.\<close>

definition columnar_quarantine :: "env \<Rightarrow> run_options \<Rightarrow> value list \<Rightarrow> (engine, faucet_error option) op" where
  "columnar_quarantine env opts envelopes =
     (if envelopes = [] then ret None
      else (case ro_dlq opts of
              None \<Rightarrow> throw no_dlq_sink
            | Some dlq \<Rightarrow>
                op_bind (gets (ds_records_dlq \<circ> en_dlq_stats)) (\<lambda>records_dlq.
                op_bind (op_map_err (dlq_write_error ''DLQ write failed'') (io (gate_dlq env envelopes))) (\<lambda>_.
                op_bind (modify (\<lambda>w. w \<lparr> en_dlq_stats := (en_dlq_stats w)
                   \<lparr> ds_records_dlq := ds_records_dlq (en_dlq_stats w) + length envelopes,
                      ds_pages_with_failures := ds_pages_with_failures (en_dlq_stats w) + 1 \<rparr> \<rparr>)) (\<lambda>_.
                ret (budget_error dlq (length envelopes) records_dlq))))))"

text \<open>The governed batch: the governed records (none for a batch passed through), its rows, its account, the abort.\<close>

definition columnar_govern ::
    "env \<Rightarrow> run_options \<Rightarrow> columnar_page \<Rightarrow> (engine, value list option \<times> nat \<times> page_account \<times> faucet_error option) op" where
  "columnar_govern env opts page =
     (let specs = (ro_specs opts) \<lparr> gs_has_dlq := ro_dlq opts \<noteq> None \<rparr>; rows = cp_num_rows page in
      if \<not> clearance specs \<and> 0 < rows
      then op_bind (lift_result (cp_values page)) (\<lambda>records.
           op_bind (with_gov (apply_governance env specs records)) (\<lambda>gov.
             case go_deferred_abort gov of
               Some e \<Rightarrow>
                 op_bind (if ro_dlq opts = None then ret ()
                          else op_bind (io (abort_with_envelopes env (go_envelopes gov))) (\<lambda>count.
                               modify (\<lambda>w. w \<lparr> en_dlq_stats := count (en_dlq_stats w) \<rparr>)))
                   (\<lambda>_. throw e)
             | None \<Rightarrow>
                 op_bind (columnar_quarantine env opts (go_envelopes gov)) (\<lambda>deferred.
                 op_bind (gets en_log) (\<lambda>l.
                 op_bind (lift_result (cb_encode env l (go_records gov))) (\<lambda>n.
                 ret (Some (go_records gov), n,
                   (PageAccount_new rows) \<lparr> pa_quarantined := length (go_envelopes gov) \<rparr>, deferred))))))
      else op_bind (lift_result (batch_passthrough (clearance specs) rows)) (\<lambda>_.
           ret (None, rows, PageAccount_new rows, None)))"

definition columnar_write ::
    "env \<Rightarrow> value list option \<Rightarrow> nat \<Rightarrow> page_account \<Rightarrow> (engine, page_account) op" where
  "columnar_write env governed rows account =
     (if 0 < rows
      then op_bind (observe_batch (io (gate_columnar env governed rows))) (\<lambda>n.
           op_seq (add_written n) (ret (account \<lparr> pa_accepted := pa_accepted account + n \<rparr>)))
      else ret account)"

definition columnar_page_path :: "env \<Rightarrow> run_options \<Rightarrow> columnar_page \<Rightarrow> (engine, unit) op" where
  "columnar_page_path env opts page =
     op_bind (columnar_govern env opts page) (\<lambda>(governed, rows, account, deferred).
     op_bind (columnar_write env governed rows account) (\<lambda>account.
     op_bind (settle_page account) (\<lambda>_.
     op_bind (case cp_bookmark page of Some b \<Rightarrow> fast_checkpoint env opts b | None \<Rightarrow> ret ()) (\<lambda>_.
     raise_deferred deferred))))"

definition columnar_step :: "env \<Rightarrow> run_options \<Rightarrow> (engine, loop_step) op" where
  "columnar_step env opts =
     op_bind (modify polled) (\<lambda>_.
     op_bind (gets en_log) (\<lambda>l.
       if ro_has_cancel opts \<and> pg_cancel_wins env l then ret Stop
       else (case cb_next env l of
               None \<Rightarrow> ret Stop
             | Some (Err e) \<Rightarrow> throw e
             | Some (Ok page) \<Rightarrow> op_seq (columnar_page_path env opts page) (ret Again))))"

definition columnar_finish :: "env \<Rightarrow> run_options \<Rightarrow> (engine, pipeline_result) op" where
  "columnar_finish env opts =
     op_seq (io (sink_flush env))
       (gets (\<lambda>w. \<lparr> pr_records_written = en_records_written w, pr_bookmark = en_last_bookmark w,
                    pr_dlq = (if ro_dlq opts = None then None else Some (en_dlq_stats w)) \<rparr>))"

definition run_stream_columnar ::
    "env \<Rightarrow> run_options \<Rightarrow> row_accounts option \<Rightarrow> log \<Rightarrow> (pipeline_result fres \<times> engine) option" where
  "run_stream_columnar env opts accounts l =
     (case drive (columnar_step env opts) (initial_engine opts accounts l) of
        None \<Rightarrow> None
      | Some (Err e, w) \<Rightarrow> Some (Err e, w)
      | Some (Ok _, w) \<Rightarrow> Some (columnar_finish env opts w))"

subsection \<open>The native loop\<close>

text \<open>The loop also knows whether a batch was loaded and which bookmark waits for the terminal flush.\<close>

record native_loop =
  nl_engine :: engine
  nl_first_batch :: bool
  nl_pending :: "value option"

definition on_engine :: "(engine, 'a) op \<Rightarrow> (native_loop, 'a) op" where
  "on_engine m = (\<lambda>s. case m (nl_engine s) of (r, w) \<Rightarrow> (r, s \<lparr> nl_engine := w \<rparr>))"

definition native_load :: "env \<Rightarrow> native_batch \<Rightarrow> (native_loop, unit) op" where
  "native_load env batch =
     op_bind (gets nl_first_batch) (\<lambda>first_batch.
     op_bind (on_engine (observe_batch (io (gate_native env (nb_records batch) first_batch)))) (\<lambda>n.
     op_bind (modify (\<lambda>s. s \<lparr> nl_first_batch := False \<rparr>)) (\<lambda>_.
     op_bind (on_engine (settle_page
        ((PageAccount_new (case nb_records batch of Some k \<Rightarrow> k | None \<Rightarrow> n)) \<lparr> pa_accepted := n \<rparr>))) (\<lambda>_.
     on_engine (add_written n)))))"

definition native_checkpoint :: "env \<Rightarrow> run_options \<Rightarrow> bool \<Rightarrow> value option \<Rightarrow> (native_loop, unit) op" where
  "native_checkpoint env opts overwrite bookmark =
     (case bookmark of
        None \<Rightarrow> ret ()
      | Some b \<Rightarrow>
          if overwrite then modify (\<lambda>s. s \<lparr> nl_pending := Some b \<rparr>)
          else on_engine (fast_checkpoint env opts b))"

definition native_step :: "env \<Rightarrow> run_options \<Rightarrow> bool \<Rightarrow> (native_loop, loop_step) op" where
  "native_step env opts overwrite =
     op_bind (on_engine (modify polled)) (\<lambda>_.
     op_bind (gets (en_log \<circ> nl_engine)) (\<lambda>l.
       if ro_has_cancel opts \<and> pg_cancel_wins env l
       then op_seq (on_engine (modify (\<lambda>w. w \<lparr> en_cancelled := True \<rparr>))) (ret Stop)
       else (case nb_next env l of
               None \<Rightarrow> ret Stop
             | Some (Err e) \<Rightarrow> throw e
             | Some (Ok batch) \<Rightarrow>
                 op_seq (native_load env batch)
                 (op_seq (native_checkpoint env opts overwrite (nb_bookmark batch)) (ret Again)))))"

definition native_finish :: "env \<Rightarrow> run_options \<Rightarrow> bool \<Rightarrow> (native_loop, pipeline_result) op" where
  "native_finish env opts overwrite =
     op_bind (gets (en_cancelled \<circ> nl_engine)) (\<lambda>cancelled.
       if cancelled \<and> overwrite
       then gets (\<lambda>s. \<lparr> pr_records_written = en_records_written (nl_engine s), pr_bookmark = None, pr_dlq = None \<rparr>)
       else op_seq (on_engine (io (sink_flush env)))
            (op_bind (gets nl_pending) (\<lambda>pending.
             op_seq (case pending of
                       Some b \<Rightarrow> on_engine (op_seq (fast_put env opts b) (set_last_bookmark b))
                     | None \<Rightarrow> ret ())
             (gets (\<lambda>s. \<lparr> pr_records_written = en_records_written (nl_engine s),
                          pr_bookmark = en_last_bookmark (nl_engine s), pr_dlq = None \<rparr>)))))"

definition run_stream_native ::
    "env \<Rightarrow> run_options \<Rightarrow> bool \<Rightarrow> row_accounts option \<Rightarrow> log \<Rightarrow> (pipeline_result fres \<times> engine) option" where
  "run_stream_native env opts overwrite accounts l =
     (case drive (native_step env opts overwrite)
             \<lparr> nl_engine = initial_engine opts accounts l, nl_first_batch = True, nl_pending = None \<rparr> of
        None \<Rightarrow> None
      | Some (Err e, s) \<Rightarrow> Some (Err e, nl_engine s)
      | Some (Ok _, s) \<Rightarrow> Some (case native_finish env opts overwrite s of (r, s') \<Rightarrow> (r, nl_engine s')))"

section \<open>Lemmas\<close>

subsection \<open>What a fast page adds to the log\<close>

lemma triple_adds:
  assumes "adds_keeping S keep m" "\<And>l ev. I l \<Longrightarrow> S ev \<Longrightarrow> I (ev # l)"
  shows "triple (at_log I) m (\<lambda>_. at_log I) (at_log I)"
proof -
  have closed: "I (evs @ l)" if "I l" "list_all S evs" for evs l using that assms(2) by (induction evs) auto
  have "I (en_log w')" if inv: "I (en_log w)" and run: "m w = (r, w')" for w r w'
  proof -
    from assms(1) run obtain evs where "en_log w' = evs @ en_log w" "list_all S evs"
      by (auto simp: moves_def grows_def) (metis snd_conv)
    with closed [OF inv] show ?thesis by simp
  qed
  then show ?thesis by (intro tripleI) blast+
qed

lemma triple_adds_weak:
  assumes "adds_keeping S keep m" "\<And>l ev. I l \<Longrightarrow> S ev \<Longrightarrow> I (ev # l)" "\<And>w. at_log I w \<Longrightarrow> E w"
  shows "triple (at_log I) m (\<lambda>_. at_log I) E"
proof -
  have "triple (at_log I) m (\<lambda>_. at_log I) (at_log I)" using assms(1,2) by (rule triple_adds)
  then show ?thesis by (rule triple_weaken) (auto intro: assms(3))
qed

definition fast_event :: "run_options \<Rightarrow> event \<Rightarrow> bool" where
  "fast_event opts ev \<longleftrightarrow> \<not> is_put ev \<and> ev \<noteq> SinkFlush \<and> ev \<noteq> DlqFlush \<and> (ro_dlq opts = None \<longrightarrow> \<not> is_dlq_write ev)"

lemma fast_event_simps [simp]:
  "fast_event opts PollPage" "fast_event opts (SinkColumnar g n)" "fast_event opts (SinkNative k b)"
  "fast_event opts (DlqWrite rs) \<longleftrightarrow> ro_dlq opts \<noteq> None"
  by (auto simp: fast_event_def)

lemma fast_gov: "adds_keeping (fast_event opts) (\<lambda>_. ()) (with_gov (apply_governance env specs records))"
proof -
  have "is_schema_call ev \<Longrightarrow> fast_event opts ev" for ev by (cases ev) (auto simp: fast_event_def)
  moreover have "adds_keeping is_schema_call (\<lambda>_. ()) (with_gov (apply_governance env specs records))"
    by (rule with_gov_footprint) simp
  ultimately show ?thesis unfolding moves_def grows_def by (meson list_all_iff)
qed

lemma fast_quarantine: "adds_keeping (fast_event opts) (\<lambda>_. ()) (columnar_quarantine env opts envelopes)"
  unfolding columnar_quarantine_def
  by (auto intro!: grows.rules grows.modify adds_io adds_gate_dlq simp: grows_def split: option.split)

lemma fast_settle: "adds_keeping S (\<lambda>_. ()) (settle_page account)"
  by (auto simp: moves_def grows_def settle_page_def split: prod.splits)

lemma fast_batch:
  "adds_keeping S (\<lambda>_. ()) (record_batch b)" "adds_keeping S (\<lambda>_. ()) (add_written n)"
  "adds_keeping S (\<lambda>_. ()) (set_last_bookmark v)"
  "adds_keeping S (\<lambda>_. ()) m \<Longrightarrow> adds_keeping S (\<lambda>_. ()) (observe_batch m)"
  unfolding record_batch_def add_written_def set_last_bookmark_def observe_batch_def
  by (auto intro!: grows.rules grows.modify simp: grows_def)

lemma fast_write: "adds_keeping (fast_event opts) (\<lambda>_. ()) (columnar_write env governed rows account)"
  unfolding columnar_write_def gate_columnar_def
  by (auto intro!: grows.rules fast_batch adds_io adds_perform)

text \<open>What a page keeps: everything but the checkpoint and the abort only adds events of a fast page.\<close>

lemma columnar_govern_rule:
  assumes closed: "\<And>l ev. I l \<Longrightarrow> fast_event opts ev \<Longrightarrow> I (ev # l)" and E: "\<And>w. at_log I w \<Longrightarrow> E w"
    and abort: "\<And>envelopes. ro_dlq opts \<noteq> None \<Longrightarrow> triple (at_log I) (op_bind (io (abort_with_envelopes env envelopes))
        (\<lambda>count. modify (\<lambda>w. w \<lparr> en_dlq_stats := count (en_dlq_stats w) \<rparr>))) (\<lambda>_. E) E"
  shows "triple (at_log I) (columnar_govern env opts page) (\<lambda>_. at_log I) E"
proof -
  have gov: "triple (at_log I) (with_gov (apply_governance env specs records)) (\<lambda>_. at_log I) E" for specs records
    by (rule triple_adds_weak [where S = "fast_event opts"], rule fast_gov, erule (1) closed, erule E)
  have stop: "triple (at_log I) (if ro_dlq opts = None then ret () else op_bind (io (abort_with_envelopes env envelopes))
      (\<lambda>count. modify (\<lambda>w. w \<lparr> en_dlq_stats := count (en_dlq_stats w) \<rparr>))) (\<lambda>_. E) E" for envelopes
    using abort by (auto intro: triple_ret E)
  have quarantine: "triple (at_log I) (columnar_quarantine env opts envelopes) (\<lambda>_. at_log I) E" for envelopes
    by (rule triple_adds_weak [where S = "fast_event opts"], rule fast_quarantine, erule (1) closed, erule E)
  let ?stop = "\<lambda>envelopes e. op_bind (if ro_dlq opts = None then ret () else op_bind (io (abort_with_envelopes env envelopes))
      (\<lambda>count. modify (\<lambda>w. w \<lparr> en_dlq_stats := count (en_dlq_stats w) \<rparr>))) (\<lambda>_. throw e)"
  have aborted: "triple (at_log I) (?stop envelopes e) (\<lambda>_. at_log I) E" for envelopes e
    by (rule triple_bind [OF stop]) (simp add: triple_throw)
  have governed: "triple (at_log I) (case go_deferred_abort gov of
        Some e \<Rightarrow> ?stop (go_envelopes gov) e
      | None \<Rightarrow> op_bind (columnar_quarantine env opts (go_envelopes gov)) (\<lambda>deferred.
                 op_bind (gets en_log) (\<lambda>l. op_bind (lift_result (cb_encode env l (go_records gov))) (\<lambda>n.
                 ret (Some (go_records gov), n,
                   (PageAccount_new (cp_num_rows page)) \<lparr> pa_quarantined := length (go_envelopes gov) \<rparr>, deferred))))) (\<lambda>_. at_log I) E" for gov
  proof (cases "go_deferred_abort gov")
    case None
    then show ?thesis unfolding None option.case
      by (intro triple_bind [OF quarantine] triple_bind [OF triple_gets [where Q = "\<lambda>_. at_log I"]]
          triple_bind [OF triple_lift [where Q = "\<lambda>_. at_log I"]] triple_ret) (auto intro: E)
  next
    case (Some e)
    show ?thesis unfolding Some option.case by (rule aborted)
  qed
  show ?thesis
    unfolding columnar_govern_def Let_def
    by (intro triple_if triple_bind [OF triple_lift [where Q = "\<lambda>_. at_log I"]] triple_bind [OF gov] governed triple_ret)
       (auto intro: E)
qed

lemma columnar_page_rule:
  assumes closed: "\<And>l ev. I l \<Longrightarrow> fast_event opts ev \<Longrightarrow> I (ev # l)" and E: "\<And>w. at_log I w \<Longrightarrow> E w"
    and abort: "\<And>envelopes. ro_dlq opts \<noteq> None \<Longrightarrow> triple (at_log I) (op_bind (io (abort_with_envelopes env envelopes))
        (\<lambda>count. modify (\<lambda>w. w \<lparr> en_dlq_stats := count (en_dlq_stats w) \<rparr>))) (\<lambda>_. E) E"
    and checkpoint: "\<And>b. triple (at_log I) (fast_checkpoint env opts b) (\<lambda>_. at_log I) E"
  shows "triple (at_log I) (columnar_page_path env opts page) (\<lambda>_. at_log I) E"
proof -
  have write_: "triple (at_log I) (columnar_write env governed rows account) (\<lambda>_. at_log I) E" for governed rows account
    by (rule triple_adds_weak [where S = "fast_event opts"], rule fast_write, erule (1) closed, erule E)
  have settle: "triple (at_log I) (settle_page account) (\<lambda>_. at_log I) E" for account
    by (rule triple_adds_weak [where S = "fast_event opts"], rule fast_settle, erule (1) closed, erule E)
  have deferred: "triple (at_log I) (raise_deferred d) (\<lambda>_. at_log I) E" for d
    by (auto simp: raise_deferred_def intro!: triple_ret triple_throw E split: option.split)
  show ?thesis
    unfolding columnar_page_path_def
    by (rule triple_bind [OF columnar_govern_rule [OF closed E abort]])
       (auto intro!: triple_bind [OF write_] triple_bind [OF settle] triple_bind [OF checkpoint] deferred
         triple_bind [OF triple_ret [where Q = "\<lambda>_. at_log I"]] split: option.split)
qed

lemma columnar_step_rule:
  assumes closed: "\<And>l ev. I l \<Longrightarrow> fast_event opts ev \<Longrightarrow> I (ev # l)" and E: "\<And>w. at_log I w \<Longrightarrow> E w"
    and "\<And>page. triple (at_log I) (columnar_page_path env opts page) (\<lambda>_. at_log I) E"
  shows "triple (at_log I) (columnar_step env opts) (\<lambda>s w. case s of Again \<Rightarrow> at_log I w | Stop \<Rightarrow> at_log I w) E"
proof -
  have poll: "triple (at_log I) (modify polled) (\<lambda>_. at_log I) E" by (rule triple_modify) (simp add: closed)
  show ?thesis
    unfolding columnar_step_def
    by (rule triple_bind [OF poll], rule triple_bind [OF triple_gets [where Q = "\<lambda>_. at_log I"]])
       (auto intro!: triple_ret triple_throw E triple_seq [OF assms(3)] split: option.split sum.split)
qed

subsection \<open>Checkpoints\<close>

text \<open>A bookmark is stored only when the main sink was flushed since its last write.\<close>

fun puts_flushed :: "env \<Rightarrow> log \<Rightarrow> bool" where
  "puts_flushed env [] = True"
| "puts_flushed env (ev # l) = ((is_put ev \<longrightarrow> sink_clean env l) \<and> puts_flushed env l)"

definition flush_inv :: "env \<Rightarrow> bool \<Rightarrow> log \<Rightarrow> bool" where
  "flush_inv env no_dlq l \<longleftrightarrow> puts_flushed env l \<and> (no_dlq \<longrightarrow> checkpoints_durable env l \<and> dlq_clean env l)"

lemma flush_inv_event: "flush_inv env b l \<Longrightarrow> \<not> is_put ev \<Longrightarrow> (b \<Longrightarrow> \<not> is_dlq_write ev) \<Longrightarrow> flush_inv env b (ev # l)"
  by (auto simp: flush_inv_def)

lemma flush_inv_nil: "flush_inv env b []"
  by (simp add: flush_inv_def)

lemma fast_flush_triple:
  "triple (at_log (flush_inv env b)) (io (sink_flush env)) (\<lambda>_. at_log (\<lambda>l. flush_inv env b l \<and> sink_clean env l))
     (at_log (flush_inv env b))"
  unfolding sink_flush_def
  by (rule triple_io, rule triple_perform) (auto simp: flush_inv_def is_ok_def)

lemma fast_put_triple:
  "triple (at_log (\<lambda>l. flush_inv env b l \<and> sink_clean env l)) (fast_put env opts v) (\<lambda>_. at_log (flush_inv env b))
     (at_log (flush_inv env b))"
proof -
  have "triple (at_log (\<lambda>l. flush_inv env b l \<and> sink_clean env l)) (io (state_put env key v)) (\<lambda>_. at_log (flush_inv env b))
      (at_log (flush_inv env b))" for key
    unfolding state_put_def by (rule triple_io, rule triple_perform) (auto simp: flush_inv_def)
  then show ?thesis
    by (cases "ro_has_store opts"; cases "ro_state_key opts") (auto simp: fast_put_def intro!: triple_ret)
qed

lemma fast_checkpoint_triple:
  "triple (at_log (flush_inv env b)) (fast_checkpoint env opts v) (\<lambda>_. at_log (flush_inv env b)) (at_log (flush_inv env b))"
  unfolding fast_checkpoint_def by (rule triple_seq [OF fast_flush_triple triple_seq [OF fast_put_triple set_last_triple]])

lemma columnar_run_inv:
  assumes "run_stream_columnar env opts accounts l = Some (r, w)" "flush_inv env (ro_dlq opts = None) l"
  shows "flush_inv env (ro_dlq opts = None) (en_log w)"
proof -
  let ?I = "flush_inv env (ro_dlq opts = None)"
  have closed: "?I (ev # l)" if "?I l" "fast_event opts ev" for l ev
    using that by (auto simp: fast_event_def intro: flush_inv_event)
  have abort: "triple (at_log ?I) (op_bind (io (abort_with_envelopes env envelopes))
      (\<lambda>count. modify (\<lambda>w. w \<lparr> en_dlq_stats := count (en_dlq_stats w) \<rparr>))) (\<lambda>_. at_log ?I) (at_log ?I)"
    if "ro_dlq opts \<noteq> None" for envelopes
  proof (rule triple_adds [where S = "\<lambda>ev. \<not> is_put ev" and keep = "\<lambda>_. ()"])
    show "adds_keeping (\<lambda>ev. \<not> is_put ev) (\<lambda>_. ()) (op_bind (io (abort_with_envelopes env envelopes))
      (\<lambda>count. modify (\<lambda>w. w \<lparr> en_dlq_stats := count (en_dlq_stats w) \<rparr>)))"
      by (auto simp: abort_with_envelopes_def gate_defs grows_def
          intro!: grows.rules grows.modify adds_io adds_gate_dlq adds_perform)
  qed (use that in \<open>auto intro: flush_inv_event\<close>)
  have step: "triple (at_log ?I) (columnar_step env opts) (\<lambda>s w. case s of Again \<Rightarrow> at_log ?I w | Stop \<Rightarrow> at_log ?I w) (at_log ?I)"
    by (rule columnar_step_rule [OF closed _ columnar_page_rule [OF closed _ abort fast_checkpoint_triple]])
  have init: "at_log ?I (initial_engine opts accounts l)" using assms(2) by (simp add: initial_engine_def)
  have finish: "triple (at_log ?I) (columnar_finish env opts) (\<lambda>_. at_log ?I) (at_log ?I)"
    unfolding columnar_finish_def
    by (rule triple_seq [OF triple_weaken [OF fast_flush_triple] triple_gets]) auto
  from assms(1) obtain r1 w1 where loop: "drive (columnar_step env opts) (initial_engine opts accounts l) = Some (r1, w1)"
    and final: "case r1 of Err e \<Rightarrow> w = w1 | Ok _ \<Rightarrow> columnar_finish env opts w1 = (r, w)"
    by (auto simp: run_stream_columnar_def split: option.splits prod.splits sum.splits)
  from drive_rule [OF step loop init] have "at_log ?I w1" by (cases r1) auto
  with final triple_end [OF finish] show ?thesis by (cases r1) auto
qed

lemma columnar_never_flushes_dlq:
  assumes "run_stream_columnar env opts accounts l = Some (Ok res, w)" "DlqFlush \<notin> set l"
  shows "DlqFlush \<notin> set (en_log w)"
proof -
  let ?I = "\<lambda>l. DlqFlush \<notin> set l"
  have closed: "?I (ev # l)" if "?I l" "fast_event opts ev" for l ev
    using that by (auto simp: fast_event_def)
  have other: "adds_keeping (\<lambda>ev. ev \<noteq> DlqFlush) (\<lambda>_. ()) (fast_checkpoint env opts v)"
      "adds_keeping (\<lambda>ev. ev \<noteq> DlqFlush) (\<lambda>_. ()) (columnar_finish env opts)" for v
    unfolding fast_checkpoint_def columnar_finish_def fast_put_def gate_defs
    by (auto intro!: grows.rules fast_batch adds_io adds_perform split: option.split bool.split)
  have checkpoint: "triple (at_log ?I) (fast_checkpoint env opts v) (\<lambda>_. at_log ?I) (\<lambda>_. True)" for v
    using other(1) by (rule triple_adds_weak) auto
  have finish: "triple (at_log ?I) (columnar_finish env opts) (\<lambda>_. at_log ?I) (\<lambda>_. True)"
    using other(2) by (rule triple_adds_weak) auto
  have any: "triple P m (\<lambda>_ _. True) (\<lambda>_. True)" for P and m :: "(engine, unit) op"
    by (intro tripleI) simp_all
  have step: "triple (at_log ?I) (columnar_step env opts) (\<lambda>s w. case s of Again \<Rightarrow> at_log ?I w | Stop \<Rightarrow> at_log ?I w) (\<lambda>_. True)"
    by (rule columnar_step_rule [OF closed _ columnar_page_rule [OF closed _ any checkpoint]]) simp_all
  from assms(1) obtain w1 where loop: "drive (columnar_step env opts) (initial_engine opts accounts l) = Some (Ok (), w1)"
    and final: "columnar_finish env opts w1 = (Ok res, w)"
    by (auto simp: run_stream_columnar_def split: option.splits prod.splits sum.splits)
  have init: "at_log ?I (initial_engine opts accounts l)" using assms(2) by (simp add: initial_engine_def)
  from drive_rule [OF step loop init] have "at_log ?I w1" by simp
  then show ?thesis using final by (rule triple_Ok [OF finish])
qed

subsection \<open>The native loop\<close>

abbreviation nl_log :: "native_loop \<Rightarrow> log" where
  "nl_log s \<equiv> en_log (nl_engine s)"

abbreviation at_nl :: "(log \<Rightarrow> bool) \<Rightarrow> native_loop \<Rightarrow> bool" where
  "at_nl I \<equiv> \<lambda>s. I (nl_log s)"

lemma triple_on_engine:
  "triple P m Q E \<Longrightarrow> triple (\<lambda>s. P (nl_engine s)) (on_engine m) (\<lambda>x s. Q x (nl_engine s)) (\<lambda>s. E (nl_engine s))"
  unfolding triple_def on_engine_def by (auto split: prod.splits sum.splits)

lemma native_load_rule:
  assumes "\<And>l k b. I l \<Longrightarrow> I (SinkNative k b # l)"
  shows "triple (at_nl I) (native_load env batch) (\<lambda>_. at_nl I) (at_nl I)"
proof -
  have load: "triple (at_log I) (observe_batch (io (gate_native env k first))) (\<lambda>_. at_log I) (at_log I)" for k first
    by (rule triple_adds [where S = "\<lambda>ev. ev = SinkNative k first" and keep = "\<lambda>_. ()"])
       (auto simp: gate_native_def intro!: fast_batch adds_io adds_perform assms)
  have settle: "triple (at_log I) (settle_page account) (\<lambda>_. at_log I) (at_log I)" for account
    using fast_settle by (rule triple_adds [where S = "\<lambda>_. False"]) simp
  have add: "triple (at_log I) (add_written n) (\<lambda>_. at_log I) (at_log I)" for n
    using fast_batch(2) by (rule triple_adds [where S = "\<lambda>_. False"]) simp
  show ?thesis
    unfolding native_load_def
    by (intro triple_bind [OF triple_gets [where Q = "\<lambda>_. at_nl I"]] triple_bind [OF triple_on_engine [OF load]]
        triple_bind [OF triple_modify [where Q = "\<lambda>_. at_nl I"]] triple_bind [OF triple_on_engine [OF settle]]
        triple_on_engine [OF add]) simp_all
qed

lemma native_step_rule:
  assumes poll: "\<And>l. I l \<Longrightarrow> I (PollPage # l)" and load: "\<And>l k b. I l \<Longrightarrow> I (SinkNative k b # l)"
    and checkpoint: "\<And>b. triple (at_nl I) (native_checkpoint env opts overwrite b) (\<lambda>_. at_nl I) (at_nl I)"
  shows "triple (at_nl I) (native_step env opts overwrite)
    (\<lambda>step s. case step of Again \<Rightarrow> at_nl I s
        | Stop \<Rightarrow> at_nl I s \<and> (en_cancelled (nl_engine s) \<or> nb_next env (nl_log s) = None)) (at_nl I)"
proof (rule tripleI)
  note run = native_step_def op_bind_def op_seq_def modify_def gets_def ret_def throw_def on_engine_def
  define page where "page batch = op_seq (native_load env batch) (op_seq (native_checkpoint env opts overwrite (nb_bookmark batch)) (ret Again))" for batch
  have page: "triple (at_nl I) (page batch) (\<lambda>step s. step = Again \<and> at_nl I s) (at_nl I)" for batch
    unfolding page_def by (intro triple_seq [OF native_load_rule [where I = I, OF load]] triple_seq [OF checkpoint] triple_ret) simp_all
  fix s assume I: "at_nl I s"
  let ?s = "s \<lparr> nl_engine := polled (nl_engine s) \<rparr>"
  have polled: "at_nl I ?s" using poll [OF I] by simp
  have cases: "native_step env opts overwrite s =
      (if ro_has_cancel opts \<and> pg_cancel_wins env (nl_log ?s)
       then (Ok Stop, ?s \<lparr> nl_engine := (polled (nl_engine s)) \<lparr> en_cancelled := True \<rparr> \<rparr>)
       else case nb_next env (nl_log ?s) of None \<Rightarrow> (Ok Stop, ?s) | Some (Err e) \<Rightarrow> (Err e, ?s) | Some (Ok batch) \<Rightarrow> page batch ?s)"
    by (auto simp: run page_def split: option.split sum.split)
  have page_ok: "case x of Again \<Rightarrow> at_nl I s' | Stop \<Rightarrow> at_nl I s' \<and> (en_cancelled (nl_engine s') \<or> nb_next env (nl_log s') = None)"
    if "page batch ?s = (Ok x, s')" for batch x s' using triple_Ok [OF page polled that] by auto
  { fix x s' assume step: "native_step env opts overwrite s = (Ok x, s')"
    from step [unfolded cases] show "case x of Again \<Rightarrow> at_nl I s' | Stop \<Rightarrow> at_nl I s' \<and> (en_cancelled (nl_engine s') \<or> nb_next env (nl_log s') = None)"
      using polled page_ok by (auto split: if_splits option.splits sum.splits) }
  { fix e s' assume step: "native_step env opts overwrite s = (Err e, s')"
    from step [unfolded cases] show "at_nl I s'"
      using polled triple_Err [OF page polled] by (auto split: if_splits option.splits sum.splits) }
qed

text \<open>What a run that overwrites may have done while nothing is final.\<close>

definition unfinal :: "event \<Rightarrow> bool" where
  "unfinal ev \<longleftrightarrow> \<not> is_put ev \<and> \<not> is_dlq_write ev \<and> ev \<noteq> SinkFlush"

lemma unfinal_simps [simp]: "unfinal PollPage" "unfinal (SinkNative k b)"
  by (simp_all add: unfinal_def)

lemma native_cases:
  assumes "run_stream_native env opts overwrite accounts l = Some (r, w)"
  obtains (failed) e s where "drive (native_step env opts overwrite)
      \<lparr> nl_engine = initial_engine opts accounts l, nl_first_batch = True, nl_pending = None \<rparr> = Some (Err e, s)"
      "r = Err e" "w = nl_engine s"
  | (finished) s s' where "drive (native_step env opts overwrite)
      \<lparr> nl_engine = initial_engine opts accounts l, nl_first_batch = True, nl_pending = None \<rparr> = Some (Ok (), s)"
      "native_finish env opts overwrite s = (r, s')" "w = nl_engine s'"
  using assms by (auto simp: run_stream_native_def split: prod.splits sum.splits option.splits)

lemma native_append_inv:
  assumes "run_stream_native env opts False accounts l = Some (r, w)" "flush_inv env True l"
  shows "flush_inv env True (en_log w)"
proof -
  let ?I = "flush_inv env True"
  have "triple (at_nl ?I) (native_checkpoint env opts False b) (\<lambda>_. at_nl ?I) (at_nl ?I)" for b
    using triple_on_engine [OF fast_checkpoint_triple [of env True opts]]
    by (auto simp: native_checkpoint_def intro!: triple_ret split: option.split)
  then have step: "triple (at_nl ?I) (native_step env opts False) (\<lambda>step s. case step of Again \<Rightarrow> at_nl ?I s
        | Stop \<Rightarrow> at_nl ?I s \<and> (en_cancelled (nl_engine s) \<or> nb_next env (nl_log s) = None)) (at_nl ?I)"
    by (intro native_step_rule) (auto intro: flush_inv_event)
  have put: "triple (at_nl (\<lambda>l. ?I l \<and> sink_clean env l)) (on_engine (op_seq (fast_put env opts b) (set_last_bookmark b)))
      (\<lambda>_. at_nl ?I) (at_nl ?I)" for b
    by (rule triple_on_engine, rule triple_seq [OF fast_put_triple set_last_triple])
  have finish: "triple (at_nl ?I) (native_finish env opts False) (\<lambda>_. at_nl ?I) (at_nl ?I)"
    unfolding native_finish_def
    by (rule triple_bind [OF triple_gets [where Q = "\<lambda>_. at_nl ?I"]])
       (auto intro!: triple_seq [OF triple_on_engine [OF fast_flush_triple]] triple_gets put triple_ret
         triple_bind [OF triple_gets [where Q = "\<lambda>_. at_nl (\<lambda>l. ?I l \<and> sink_clean env l)"]]
         triple_seq [where R = "at_nl ?I"] split: option.split)
  have init: "at_nl ?I \<lparr> nl_engine = initial_engine opts accounts l, nl_first_batch = True, nl_pending = None \<rparr>"
    using assms(2) by (simp add: initial_engine_def)
  from assms(1) show ?thesis
  proof (cases rule: native_cases)
    case (failed e s)
    from drive_rule [OF step failed(1) init] failed(3) show ?thesis by simp
  next
    case (finished s s')
    from drive_rule [OF step finished(1) init] have "at_nl ?I s" by simp
    from triple_end [OF finish this finished(2)] finished(3) show ?thesis by simp
  qed
qed

text \<open>A successful flush is the only way out of the unfinished state.\<close>

definition finalized :: "env \<Rightarrow> pipeline_result fres \<Rightarrow> log \<Rightarrow> bool" where
  "finalized env r l \<longleftrightarrow> (\<exists>puts rest. l = puts @ SinkFlush # rest \<and> list_all is_put puts \<and> length puts \<le> 1
     \<and> list_all unfinal rest \<and> nb_next env rest = None
     \<and> (is_ok r \<or> puts \<noteq> [] \<longrightarrow> is_ok (sk_flush env (SinkFlush # rest))))"

lemma unfinal_durable: "list_all unfinal l \<Longrightarrow> checkpoints_durable env l \<and> dlq_clean env l"
  by (induction l) (auto simp: unfinal_def)

lemma finalized_durable:
  assumes "finalized env r l"
  shows "checkpoints_durable env l"
proof -
  from assms obtain puts rest where l: "l = puts @ SinkFlush # rest" "list_all is_put puts" "length puts \<le> 1"
    and rest: "list_all unfinal rest" and ok: "puts \<noteq> [] \<Longrightarrow> is_ok (sk_flush env (SinkFlush # rest))"
    by (auto simp: finalized_def)
  from unfinal_durable [OF rest, of env] have "checkpoints_durable env (SinkFlush # rest)" "dlq_clean env (SinkFlush # rest)" by simp_all
  then show ?thesis using l ok by (cases puts) auto
qed

lemma fast_put_cases:
  obtains "fast_put env opts b w = (Ok (), w)"
  | r key where "fast_put env opts b w = (r, w \<lparr> en_log := StatePut key b # en_log w \<rparr>)"
  by (cases "ro_has_store opts"; cases "ro_state_key opts") (auto simp: fast_put_def ret_def io_def state_put_def perform_def)

lemma native_finish_overwrite:
  assumes "native_finish env opts True s = (r, s')" "list_all unfinal (nl_log s)"
    "en_cancelled (nl_engine s) \<or> nb_next env (nl_log s) = None"
  shows "list_all unfinal (nl_log s') \<and> (\<forall>res. r = Ok res \<longrightarrow> pr_bookmark res = None) \<or> finalized env r (nl_log s')"
proof (cases "en_cancelled (nl_engine s)")
  case True
  with assms(1,2) show ?thesis by (auto simp: native_finish_def op_defs)
next
  case False
  let ?flush = "SinkFlush # nl_log s"
  let ?w = "(nl_engine s) \<lparr> en_log := ?flush \<rparr>"
  from False assms(3) have "nb_next env (nl_log s) = None" by simp
  then have final: "is_ok (sk_flush env ?flush) \<Longrightarrow> list_all is_put puts \<Longrightarrow> length puts \<le> 1 \<Longrightarrow> finalized env r (puts @ ?flush)" for puts
    using assms(2) by (auto simp: finalized_def)
  show ?thesis
  proof (cases "sk_flush env ?flush")
    case (Inl e)
    with False assms(1) have "r = Err e" "nl_log s' = ?flush"
      by (auto simp: native_finish_def op_defs on_engine_def io_def sink_flush_def)
    moreover have "finalized env (Err e) ([] @ ?flush)"
      unfolding finalized_def
      by (intro exI conjI, rule refl) (use \<open>nb_next env (nl_log s) = None\<close> assms(2) in \<open>simp_all add: is_ok_def\<close>)
    ultimately show ?thesis by simp
  next
    case (Inr u)
    then have ok: "is_ok (sk_flush env ?flush)" by (simp add: is_ok_def)
    have "nl_log s' = ?flush \<or> (\<exists>key b. nl_log s' = StatePut key b # ?flush)"
    proof (cases "nl_pending s")
      case None
      with False Inr assms(1) show ?thesis by (auto simp: native_finish_def op_defs on_engine_def io_def sink_flush_def)
    next
      case (Some b)
      show ?thesis
        by (rule fast_put_cases [of env opts b ?w])
           (use False Inr Some assms(1) in \<open>auto simp: native_finish_def op_defs on_engine_def io_def sink_flush_def
             set_last_bookmark_def split: sum.splits prod.splits\<close>)
    qed
    then show ?thesis using final [OF ok, of "[]"] final [OF ok, of "[StatePut _ _]"] by auto
  qed
qed

lemma native_overwrite_ends:
  assumes "run_stream_native env opts True accounts l = Some (r, w)" "list_all unfinal l"
  shows "list_all unfinal (en_log w) \<and> (\<forall>res. r = Ok res \<longrightarrow> pr_bookmark res = None) \<or> finalized env r (en_log w)"
proof -
  let ?I = "list_all unfinal"
  have "triple (at_nl ?I) (native_checkpoint env opts True b) (\<lambda>_. at_nl ?I) (at_nl ?I)" for b
    by (auto simp: native_checkpoint_def intro!: triple_ret triple_modify split: option.split)
  then have step: "triple (at_nl ?I) (native_step env opts True) (\<lambda>step s. case step of Again \<Rightarrow> at_nl ?I s
        | Stop \<Rightarrow> at_nl ?I s \<and> (en_cancelled (nl_engine s) \<or> nb_next env (nl_log s) = None)) (at_nl ?I)"
    by (intro native_step_rule) auto
  have init: "at_nl ?I \<lparr> nl_engine = initial_engine opts accounts l, nl_first_batch = True, nl_pending = None \<rparr>"
    using assms(2) by (simp add: initial_engine_def)
  from assms(1) show ?thesis
  proof (cases rule: native_cases)
    case (failed e s)
    from drive_rule [OF step failed(1) init] failed show ?thesis by simp
  next
    case (finished s s')
    from drive_rule [OF step finished(1) init] native_finish_overwrite [OF finished(2)] finished(3) show ?thesis by simp
  qed
qed

section \<open>Properties\<close>

text \<open>C0. The native path keeps the order of durability and makes an overwrite all or nothing: a bookmark is stored
  only after a flush of everything loaded before it. A run that overwrites has either finalized nothing (it
  failed or was cancelled; no flush, no bookmark, none reported), or it flushed exactly once, after the last
  batch of a stream that ended, and stored at most one bookmark, after that flush succeeded.\<close>

theorem native_load_atomic:
  assumes "run_stream_native env opts overwrite accounts [] = Some (r, w)"
  shows "checkpoints_durable env (en_log w)
    \<and> (overwrite \<longrightarrow> list_all unfinal (en_log w) \<and> (\<forall>res. r = Ok res \<longrightarrow> pr_bookmark res = None)
         \<or> finalized env r (en_log w))"
proof (cases overwrite)
  case True
  with assms have "list_all unfinal (en_log w) \<and> (\<forall>res. r = Ok res \<longrightarrow> pr_bookmark res = None) \<or> finalized env r (en_log w)"
    by (intro native_overwrite_ends [where l = "[]"]) simp_all
  then show ?thesis using unfinal_durable [of "en_log w" env] finalized_durable [of env r "en_log w"] by blast
next
  case False
  with assms native_append_inv [of env opts accounts "[]" r w] show ?thesis by (simp add: flush_inv_nil flush_inv_def)
qed

definition bytes_env :: env where
  "bytes_env = quiet_env \<lparr> nb_next := (\<lambda>l. if length (filter (\<lambda>ev. ev = PollPage) l) = 1
     then Some (Ok \<lparr> nb_records = Some 2, nb_bookmark = Some (Bool True) \<rparr>) else None) \<rparr>"

theorem native_load_atomic_witness:
  "\<exists>r w. run_stream_native bytes_env sample_options True None [] = Some (r, w) \<and> finalized bytes_env r (en_log w)
     \<and> is_ok r \<and> StatePut ''k'' (Bool True) \<in> set (en_log w)"
proof -
  note eval = native_load_def native_checkpoint_def op_defs on_engine_def observe_batch_def
    record_batch_def io_def gate_native_def settle_page_def settle_def PageAccount_new_def page_accounted_def
    add_written_def bytes_env_def quiet_env_def sample_options_def initial_engine_def Let_def native_finish_def
    sink_flush_def fast_put_def state_put_def set_last_bookmark_def is_ok_def
  let ?s0 = "\<lparr> nl_engine = initial_engine sample_options None [], nl_first_batch = True, nl_pending = None \<rparr>"
  obtain s1 where s1: "native_step bytes_env sample_options True ?s0 = (Ok Again, s1)"
      "nl_log s1 = [SinkNative (Some 2) True, PollPage]" "nl_pending s1 = Some (Bool True)" "\<not> en_cancelled (nl_engine s1)"
    by (simp add: native_step_def eval)
  obtain s2 where s2: "native_step bytes_env sample_options True s1 = (Ok Stop, s2)"
      "nl_log s2 = [PollPage, SinkNative (Some 2) True, PollPage]" "nl_pending s2 = Some (Bool True)" "\<not> en_cancelled (nl_engine s2)"
    using s1(2-4) by (simp add: native_step_def eval)
  have loop: "drive (native_step bytes_env sample_options True) ?s0 = Some (Ok (), s2)"
    by (rule drive_two [OF s1(1) s2(1)])
  obtain res s3 where s3: "native_finish bytes_env sample_options True s2 = (Ok res, s3)"
      "nl_log s3 = StatePut ''k'' (Bool True) # SinkFlush # nl_log s2"
    using s2(2-4) by (simp add: eval)
  have run: "run_stream_native bytes_env sample_options True None [] = Some (Ok res, nl_engine s3)"
    by (simp add: run_stream_native_def loop s3)
  have "\<not> list_all unfinal (nl_log s3)" using s3(2) by (simp add: unfinal_def)
  with native_load_atomic [OF run] run s3(2) show ?thesis by (auto simp: is_ok_def)
qed

text \<open>C0. The columnar path stores a bookmark only when the sink was flushed since its last write. Its dead-letter
  sink is another matter: a run that succeeds never flushes it, so only a run without one has both sinks
  durable before every bookmark.\<close>

theorem columnar_checkpoints:
  assumes "run_stream_columnar env opts accounts [] = Some (r, w)"
  shows "puts_flushed env (en_log w)
    \<and> (ro_dlq opts = None \<longrightarrow> checkpoints_durable env (en_log w))
    \<and> (is_ok r \<longrightarrow> DlqFlush \<notin> set (en_log w))"
  using columnar_run_inv [OF assms flush_inv_nil] columnar_never_flushes_dlq [of env opts accounts "[]" _ w] assms
  by (cases r) (auto simp: flush_inv_def is_ok_def)

text \<open>A batch of one record that a quality check quarantines, then the end of the stream.\<close>

definition quarantine_options :: run_options where
  "quarantine_options = sample_options \<lparr> ro_dlq := Some DlqConfig_new, ro_specs := sample_specs \<lparr> gs_masking := None,
     gs_quality := Some \<lparr> cq_record = [\<lparr> rc_kind = NotNull [''id''] True, rc_on_failure = Quarantine,
       rc_name = ''not_null'', rc_field = Some ''id'' \<rparr>], cq_batch = [] \<rparr> \<rparr> \<rparr>"

definition columnar_env :: env where
  "columnar_env = quiet_env \<lparr> cb_next := (\<lambda>l. if length (filter (\<lambda>ev. ev = PollPage) l) = 1
     then Some (Ok \<lparr> cp_num_rows = 1, cp_values = Ok [Null], cp_bookmark = Some (Bool True) \<rparr>) else None) \<rparr>"

theorem columnar_checkpoints_witness:
  "\<exists>r w. run_stream_columnar columnar_env quarantine_options None [] = Some (r, w)
     \<and> is_ok r \<and> StatePut ''k'' (Bool True) \<in> set (en_log w) \<and> (\<exists>envelope. DlqWrite [envelope] \<in> set (en_log w))
     \<and> DlqFlush \<notin> set (en_log w)"
proof -
  note eval = op_defs with_gov_def apply_governance_def quality_pass_step_def apply_quality_def evaluate_record_check_def
    push_quarantined_def masking_pass_def contract_pass_step_def drift_pass_step_def columnar_page_path_def columnar_govern_def clearance_def
    columnar_quarantine_def columnar_write_def gate_dlq_def io_def settle_page_def settle_def PageAccount_new_def page_accounted_def
    fast_checkpoint_def fast_put_def sink_flush_def state_put_def set_last_bookmark_def raise_deferred_def budget_error_def
    total_budget_error_def DlqConfig_new_def WriteReport_accepted_def usize_saturating_add_def usize_max_def
    quarantine_options_def sample_options_def sample_specs_def columnar_env_def quiet_env_def initial_engine_def
    GovernanceState_default_def Let_def columnar_finish_def
  let ?w0 = "initial_engine quarantine_options None []"
  have "\<exists>w envelope. columnar_step columnar_env quarantine_options ?w0 = (Ok Again, w)
      \<and> en_log w = [StatePut ''k'' (Bool True), SinkFlush, DlqWrite [envelope], PollPage]"
    by (simp add: columnar_step_def eval)
  then obtain w1 envelope where w1: "columnar_step columnar_env quarantine_options ?w0 = (Ok Again, w1)"
      "en_log w1 = [StatePut ''k'' (Bool True), SinkFlush, DlqWrite [envelope], PollPage]" by blast
  have w2: "columnar_step columnar_env quarantine_options w1 = (Ok Stop, polled w1)"
    by (simp add: columnar_step_def op_defs w1(2) columnar_env_def quarantine_options_def sample_options_def)
  have loop: "drive (columnar_step columnar_env quarantine_options) ?w0 = Some (Ok (), polled w1)"
    by (rule drive_two [OF w1(1) w2])
  obtain res w3 where w3: "columnar_finish columnar_env quarantine_options (polled w1) = (Ok res, w3)"
      "en_log w3 = SinkFlush # PollPage # en_log w1"
    by (simp add: columnar_finish_def op_defs io_def sink_flush_def columnar_env_def quiet_env_def)
  have run: "run_stream_columnar columnar_env quarantine_options None [] = Some (Ok res, w3)"
    by (simp add: run_stream_columnar_def loop w3)
  with columnar_checkpoints [OF run] w3(2) w1(2) show ?thesis by (auto simp: is_ok_def)
qed

end
