(* ===== verification/Cleanup.thy ===== *)
theory Cleanup
  imports Write_Mode State_Store
begin

section \<open>Scoped cleanup\<close>

text \<open>
  \<open>cleanup.rs\<close>: the policy that deletes the destination rows a run did not write, the set of keys a run wrote, with
  its ceiling, and the store that holds bookmarks back while a complete read is under way. The lock of the
  tracker and the atomic of the signal are left out: a run writes its pages one after the other.
\<close>

definition DEFAULT_COMPLETE_READ_MAX_KEYS :: nat where
  "DEFAULT_COMPLETE_READ_MAX_KEYS = 1000000"

definition DEFAULT_MAX_KEYS :: nat where
  "DEFAULT_MAX_KEYS = 100000"

datatype cleanup_trigger = Always | CompleteRead

datatype read_state = ReadPartial | ReadReading | ReadComplete

record read_completeness =
  rd_state :: nat
  rd_max_keys :: "nat option"

definition ReadCompleteness_new :: read_completeness where
  "ReadCompleteness_new = \<lparr> rd_state = 0, rd_max_keys = None \<rparr>"

definition with_max_keys :: "nat \<Rightarrow> read_completeness \<Rightarrow> read_completeness" where
  "with_max_keys n r = r \<lparr> rd_max_keys := Some (max n 1) \<rparr>"

definition read_reset :: "read_completeness \<Rightarrow> read_completeness" where
  "read_reset r = r \<lparr> rd_state := 0 \<rparr>"

definition read_begin :: "read_completeness \<Rightarrow> read_completeness" where
  "read_begin r = r \<lparr> rd_state := 1 \<rparr>"

definition read_complete :: "read_completeness \<Rightarrow> read_completeness" where
  "read_complete r = r \<lparr> rd_state := 2 \<rparr>"

definition read_state_of :: "read_completeness \<Rightarrow> read_state" where
  "read_state_of r = (if rd_state r = 1 then ReadReading else if rd_state r = 2 then ReadComplete else ReadPartial)"

text \<open>The scope is a \<open>BTreeMap\<close>: an association list ordered by column.\<close>

record cleanup_policy =
  cl_scope :: json_object
  cl_key :: "string list"
  cl_max_keys :: nat
  cl_trigger :: cleanup_trigger

definition CleanupPolicy_new :: "json_object \<Rightarrow> string list \<Rightarrow> nat \<Rightarrow> cleanup_policy fres" where
  "CleanupPolicy_new scope key max_keys =
     (if scope = [] then Err (Config (''cleanup: the completeness claim (`complete_for`) must name at least one column '' @ em_dash @ '' an empty scope would match every row in the destination''))
      else if key = [] then Err (Config ''cleanup: requires a non-empty `key` so a written row can be told apart from a stale one'')
      else if Null \<in> set (map snd scope) then Err (Config (''cleanup: the completeness claim contains a null value '' @ em_dash @ '' an unresolved scope token would delete the wrong rows''))
      else Ok \<lparr> cl_scope = scope, cl_key = key, cl_max_keys = max max_keys 1, cl_trigger = Always \<rparr>)"

definition for_complete_read :: "string list \<Rightarrow> nat \<Rightarrow> cleanup_policy fres" where
  "for_complete_read key max_keys =
     (if key = [] then Err (Config ''cleanup: a complete-read cleanup requires a non-empty `key` so a written row can be told apart from a deleted one'')
      else Ok \<lparr> cl_scope = [], cl_key = key, cl_max_keys = max max_keys 1, cl_trigger = CompleteRead \<rparr>)"

subsection \<open>The keys a run wrote\<close>

record seen_keys =
  sn_keys :: "json_object list"
  sn_seen :: "string set"
  sn_overflowed :: bool

definition SeenKeys_new :: seen_keys where
  "SeenKeys_new = \<lparr> sn_keys = [], sn_seen = {}, sn_overflowed = False \<rparr>"

definition canonical_key_text :: "write_libs \<Rightarrow> json_object \<Rightarrow> string" where
  "canonical_key_text libs t = wl_strings libs (map (canonical_json libs \<circ> snd) t)"

fun key_tuple :: "json_object \<Rightarrow> string list \<Rightarrow> json_object option" where
  "key_tuple obj [] = Some []"
| "key_tuple obj (k # ks) =
     (case map_of obj k of
        Some v \<Rightarrow> if v \<noteq> Null then map_option (\<lambda>t. (k, v) # t) (key_tuple obj ks) else None
      | None \<Rightarrow> None)"

definition row_tuple :: "string list \<Rightarrow> value \<Rightarrow> json_object option" where
  "row_tuple key rec = (case as_object rec of Some obj \<Rightarrow> key_tuple obj key | None \<Rightarrow> None)"

text \<open>The loop over a page returns early once the ceiling is breached.\<close>

fun record_rows :: "write_libs \<Rightarrow> value list \<Rightarrow> string list \<Rightarrow> nat \<Rightarrow> seen_keys \<Rightarrow> seen_keys" where
  "record_rows libs [] key max_keys s = s"
| "record_rows libs (rec # page) key max_keys s =
     (case row_tuple key rec of
        None \<Rightarrow> record_rows libs page key max_keys s
      | Some t \<Rightarrow>
          (let text = canonical_key_text libs t in
           if text \<in> sn_seen s then record_rows libs page key max_keys s
           else if max_keys \<le> length (sn_keys s) then \<lparr> sn_keys = [], sn_seen = {}, sn_overflowed = True \<rparr>
           else record_rows libs page key max_keys
                  (s \<lparr> sn_keys := sn_keys s @ [t], sn_seen := insert text (sn_seen s) \<rparr>)))"

definition record_page :: "write_libs \<Rightarrow> value list \<Rightarrow> string list \<Rightarrow> nat \<Rightarrow> seen_keys \<Rightarrow> seen_keys" where
  "record_page libs page key max_keys s = (if sn_overflowed s then s else record_rows libs page key max_keys s)"

definition overflow_error :: "nat \<Rightarrow> faucet_error" where
  "overflow_error max_keys = Sink (''cleanup: this invocation wrote more than '' @ show_nat max_keys
     @ '' rows in the claimed scope, so the set of written keys could not be tracked. Nothing was deleted '' @ em_dash
     @ '' a partial delete would remove rows the run actually wrote. Narrow the scope (a smaller `complete_for`), or raise the ceiling if the destination can take a delete of this size'')"

text \<open>The tracker records while its gate, if it has one, reports a complete read.\<close>

definition tracker_record ::
    "write_libs \<Rightarrow> cleanup_policy \<Rightarrow> read_state option \<Rightarrow> value list \<Rightarrow> seen_keys \<Rightarrow> seen_keys" where
  "tracker_record libs policy gate records s =
     (if gate = Some ReadPartial then s else record_page libs records (cl_key policy) (cl_max_keys policy) s)"

definition tracker_keys :: "cleanup_policy \<Rightarrow> seen_keys \<Rightarrow> json_object list fres" where
  "tracker_keys policy s = (if sn_overflowed s then Err (overflow_error (cl_max_keys policy)) else Ok (sn_keys s))"

subsection \<open>The store that holds bookmarks back\<close>

type_synonym held = "(string \<times> value) list"

definition held_insert :: "string \<Rightarrow> value \<Rightarrow> held \<Rightarrow> held" where
  "held_insert k v h = insort_key fst (k, v) (filter (\<lambda>e. fst e \<noteq> k) h)"

definition hold_get :: "'s store_ops \<Rightarrow> string \<Rightarrow> 's \<times> held \<Rightarrow> value option fres" where
  "hold_get inner key = (\<lambda>(s, h). case map_of h key of Some v \<Rightarrow> Ok (Some v) | None \<Rightarrow> so_get inner key s)"

definition hold_put ::
    "'s store_ops \<Rightarrow> read_state \<Rightarrow> string \<Rightarrow> value \<Rightarrow> 's \<times> held \<Rightarrow> unit fres \<times> ('s \<times> held)" where
  "hold_put inner signal key v = (\<lambda>(s, h).
     if signal = ReadPartial then (case so_put inner key v s of (r, s') \<Rightarrow> (r, (s', h)))
     else (Ok (), (s, held_insert key v h)))"

definition hold_delete :: "'s store_ops \<Rightarrow> string \<Rightarrow> 's \<times> held \<Rightarrow> unit fres \<times> ('s \<times> held)" where
  "hold_delete inner key = (\<lambda>(s, h).
     case so_delete inner key s of (r, s') \<Rightarrow> (r, (s', filter (\<lambda>e. fst e \<noteq> key) h)))"

fun release_held :: "'s store_ops \<Rightarrow> held \<Rightarrow> 's \<Rightarrow> unit fres \<times> 's" where
  "release_held inner [] s = (Ok (), s)"
| "release_held inner ((k, v) # h) s =
     (case so_put inner k v s of (Err e, s') \<Rightarrow> (Err e, s') | (Ok _, s') \<Rightarrow> release_held inner h s')"

text \<open>The held bookmarks are taken out first, so those after a failed write are gone.\<close>

definition hold_release :: "'s store_ops \<Rightarrow> 's \<times> held \<Rightarrow> unit fres \<times> ('s \<times> held)" where
  "hold_release inner = (\<lambda>(s, h). case release_held inner h s of (r, s') \<Rightarrow> (r, (s', [])))"

section \<open>Lemmas\<close>

subsection \<open>The set of written keys\<close>

abbreviation tuples :: "string list \<Rightarrow> value list \<Rightarrow> json_object list" where
  "tuples key page \<equiv> List.map_filter (row_tuple key) page"

abbreviation texts :: "write_libs \<Rightarrow> string list \<Rightarrow> value list \<Rightarrow> string set" where
  "texts libs key page \<equiv> canonical_key_text libs ` set (tuples key page)"

definition seen_inv :: "write_libs \<Rightarrow> nat \<Rightarrow> seen_keys \<Rightarrow> bool" where
  "seen_inv libs max_keys s \<longleftrightarrow> \<not> sn_overflowed s \<and> length (sn_keys s) \<le> max_keys
     \<and> distinct (map (canonical_key_text libs) (sn_keys s)) \<and> sn_seen s = canonical_key_text libs ` set (sn_keys s)"

lemma seen_inv_card: "seen_inv libs n s \<Longrightarrow> card (sn_seen s) = length (sn_keys s)"
  by (simp add: seen_inv_def) (metis distinct_card length_map list.set_map)

lemma record_rows_spec:
  assumes "seen_inv libs n s"
  shows "if card (sn_seen s \<union> texts libs key page) \<le> n
    then seen_inv libs n (record_rows libs page key n s)
      \<and> sn_seen (record_rows libs page key n s) = sn_seen s \<union> texts libs key page
      \<and> (\<exists>more. sn_keys (record_rows libs page key n s) = sn_keys s @ more \<and> set more \<subseteq> set (tuples key page))
    else record_rows libs page key n s = \<lparr> sn_keys = [], sn_seen = {}, sn_overflowed = True \<rparr>"
  using assms
proof (induction page arbitrary: s)
  case Nil
  then show ?case using seen_inv_card [OF Nil] by (simp add: List.map_filter_simps seen_inv_def)
next
  case (Cons rec page)
  show ?case
  proof (cases "row_tuple key rec")
    case None
    with Cons show ?thesis by (simp add: List.map_filter_simps)
  next
    case (Some t)
    let ?text = "canonical_key_text libs t"
    have all: "texts libs key (rec # page) = insert ?text (texts libs key page)"
      using Some by (simp add: List.map_filter_simps)
    show ?thesis
    proof (cases "?text \<in> sn_seen s")
      case True
      have "sn_seen s \<union> insert ?text (texts libs key page) = sn_seen s \<union> texts libs key page" using True by auto
      with Cons.IH [OF Cons.prems] Some True all show ?thesis
        by (auto simp: List.map_filter_simps Let_def split: if_splits)
    next
      case new: False
      have fin: "finite (sn_seen s)" using Cons.prems by (simp add: seen_inv_def)
      have grown: "card (insert ?text (sn_seen s)) = Suc (length (sn_keys s))"
        using new fin seen_inv_card [OF Cons.prems] by simp
      show ?thesis
      proof (cases "n \<le> length (sn_keys s)")
        case True
        have "card (insert ?text (sn_seen s)) \<le> card (sn_seen s \<union> texts libs key (rec # page))"
          unfolding all using fin by (intro card_mono) auto
        with grown True Some new show ?thesis by (auto simp: Let_def)
      next
        case False
        let ?s = "s \<lparr> sn_keys := sn_keys s @ [t], sn_seen := insert ?text (sn_seen s) \<rparr>"
        have inv: "seen_inv libs n ?s" using Cons.prems False new by (auto simp: seen_inv_def)
        have "sn_seen ?s \<union> texts libs key page = sn_seen s \<union> texts libs key (rec # page)" unfolding all by auto
        with Cons.IH [OF inv] Some new False show ?thesis
          by (auto simp: Let_def List.map_filter_simps split: if_splits)
      qed
    qed
  qed
qed

text \<open>The pages of a run, one after the other.\<close>

definition record_pages :: "write_libs \<Rightarrow> string list \<Rightarrow> nat \<Rightarrow> value list list \<Rightarrow> seen_keys" where
  "record_pages libs key max_keys pages = fold (\<lambda>page. record_page libs page key max_keys) pages SeenKeys_new"

lemma record_pages_snoc:
  "record_pages libs key n (pages @ [page]) = record_page libs page key n (record_pages libs key n pages)"
  by (simp add: record_pages_def)

lemma tuples_append: "tuples key (xs @ ys) = tuples key xs @ tuples key ys"
  by (induction xs) (auto simp: List.map_filter_simps split: option.splits)

lemma record_pages_spec:
  "let s = record_pages libs key n pages in
   if card (texts libs key (concat pages)) \<le> n
   then seen_inv libs n s \<and> sn_seen s = texts libs key (concat pages) \<and> set (sn_keys s) \<subseteq> set (tuples key (concat pages))
   else s = \<lparr> sn_keys = [], sn_seen = {}, sn_overflowed = True \<rparr>"
proof (induction pages rule: rev_induct)
  case Nil
  then show ?case by (simp add: record_pages_def SeenKeys_new_def seen_inv_def List.map_filter_simps)
next
  case (snoc page pages)
  let ?s = "record_pages libs key n pages" and ?all = "texts libs key (concat pages)"
  have all: "texts libs key (concat (pages @ [page])) = ?all \<union> texts libs key page"
    by (simp add: tuples_append image_Un)
  show ?case
  proof (cases "card ?all \<le> n")
    case True
    with snoc.IH have s: "seen_inv libs n ?s" "sn_seen ?s = ?all" "set (sn_keys ?s) \<subseteq> set (tuples key (concat pages))"
      by (simp_all add: Let_def)
    from record_rows_spec [OF s(1), of key page] s show ?thesis
      unfolding Let_def record_pages_snoc all
      by (auto simp: record_page_def seen_inv_def tuples_append split: if_splits)
  next
    case False
    have "card ?all \<le> card (?all \<union> texts libs key page)" by (intro card_mono) auto
    with False have "\<not> card (?all \<union> texts libs key page) \<le> n" by simp
    with False snoc.IH show ?thesis unfolding Let_def record_pages_snoc all by (simp add: record_page_def)
  qed
qed

subsection \<open>Holding and releasing\<close>

lemma map_of_held_insert: "map_of (held_insert k v h) = (map_of h)(k \<mapsto> v)"
proof -
  have ins: "map_of (insort_key fst (k, v) h') = (map_of h')(k \<mapsto> v)" if "k \<notin> fst ` set h'" for h'
    using that by (induction h') (auto simp: fun_eq_iff)
  have rest: "map_of (filter (\<lambda>e. fst e \<noteq> k) h) = (map_of h)(k := None)"
    by (induction h) (auto simp: fun_eq_iff)
  have "k \<notin> fst ` set (filter (\<lambda>e. fst e \<noteq> k) h)" by auto
  from ins [OF this] rest show ?thesis by (simp add: held_insert_def fun_eq_iff)
qed

lemma held_insert_props:
  "fst ` set (held_insert k v h) = insert k (fst ` set h)"
  "distinct (map fst h) \<Longrightarrow> distinct (map fst (held_insert k v h))"
proof -
  have ins: "set (insort_key fst (k, v) h') = insert (k, v) (set h')" for h' by (induction h') auto
  show "fst ` set (held_insert k v h) = insert k (fst ` set h)" by (auto simp: held_insert_def ins)
  have "distinct (map fst (insort_key fst (k, v) h'))" if "distinct (map fst h')" "k \<notin> fst ` set h'" for h'
    using that by (induction h') (auto simp: ins)
  moreover have "k \<notin> fst ` set (filter (\<lambda>e. fst e \<noteq> k) h)" by auto
  ultimately show "distinct (map fst h) \<Longrightarrow> distinct (map fst (held_insert k v h))"
    by (simp add: held_insert_def distinct_map_filter)
qed

fun hold_puts :: "'s store_ops \<Rightarrow> read_state \<Rightarrow> (string \<times> value) list \<Rightarrow> 's \<times> held \<Rightarrow> unit fres \<times> ('s \<times> held)" where
  "hold_puts inner signal [] st = (Ok (), st)"
| "hold_puts inner signal ((k, v) # puts) st =
     (case hold_put inner signal k v st of (Err e, st') \<Rightarrow> (Err e, st') | (Ok _, st') \<Rightarrow> hold_puts inner signal puts st')"

lemma hold_puts_reading:
  assumes "signal \<noteq> ReadPartial"
  shows "\<exists>h'. hold_puts inner signal puts (s, h) = (Ok (), (s, h')) \<and> map_of h' = map_of h ++ map_of (rev puts)
     \<and> fst ` set h' = fst ` set h \<union> fst ` set puts \<and> (distinct (map fst h) \<longrightarrow> distinct (map fst h'))"
  using assms
proof (induction puts arbitrary: h)
  case (Cons p puts)
  obtain k v where p: "p = (k, v)" by (cases p)
  from Cons.IH [OF Cons.prems, of "held_insert k v h"] obtain h' where
    h': "hold_puts inner signal puts (s, held_insert k v h) = (Ok (), (s, h'))"
      "map_of h' = map_of (held_insert k v h) ++ map_of (rev puts)"
      "fst ` set h' = fst ` set (held_insert k v h) \<union> fst ` set puts"
      "distinct (map fst (held_insert k v h)) \<longrightarrow> distinct (map fst h')" by blast
  have "map_of (held_insert k v h) ++ map_of (rev puts) = map_of h ++ map_of (rev puts @ [(k, v)])"
    by (auto simp: map_of_held_insert map_add_def fun_eq_iff split: option.split)
  with h' Cons.prems p held_insert_props(1) [where k = k and v = v and h = h] held_insert_props(2) [where k = k and v = v and h = h] show ?case by (auto simp: hold_put_def)
qed simp

lemma release_memory:
  assumes "\<forall>k \<in> fst ` set h. is_ok (validate_state_key k)" "distinct (map fst h)"
  shows "\<exists>s'. release_held MemoryStateStore h s = (Ok (), s') \<and> map_of s' = map_of s ++ map_of h"
  using assms
proof (induction h arbitrary: s)
  case (Cons e h)
  obtain k v where e: "e = (k, v)" by (cases e)
  from Cons.prems e have "is_ok (validate_state_key k)" by simp
  then obtain s1 where s1: "so_put MemoryStateStore k v s = (Ok (), s1)" "map_of s1 = (map_of s)(k \<mapsto> v)"
    by (auto simp: MemoryStateStore_def memory_put_def is_ok_def update_conv' split: sum.splits)
  from Cons.IH [of s1] Cons.prems obtain s' where
    s': "release_held MemoryStateStore h s1 = (Ok (), s')" "map_of s' = map_of s1 ++ map_of h" by auto
  have "map_of h k = None" using Cons.prems(2) e by (auto simp: map_of_eq_None_iff)
  then have "map_of s1 ++ map_of h = map_of s ++ map_of ((k, v) # h)"
    by (auto simp: s1 map_add_def fun_eq_iff split: option.split)
  with s1(1) s' e show ?case by (simp add: fun_upd_def del: map_of.simps)
qed simp

section \<open>Properties\<close>

text \<open>C0. The tracked keys are exactly the keys a run wrote, or the cleanup is refused: when the rows of all pages
  have at most \<open>max_keys\<close> different keys, the tracker holds one tuple per key, each read from a written row, and
  nothing else; when they have more, it holds nothing and the delete is refused with the typed error.\<close>

theorem seen_keys_exact:
  "if card (texts libs (cl_key policy) (concat pages)) \<le> cl_max_keys policy
   then \<exists>keys. tracker_keys policy (record_pages libs (cl_key policy) (cl_max_keys policy) pages) = Ok keys
      \<and> distinct (map (canonical_key_text libs) keys)
      \<and> canonical_key_text libs ` set keys = texts libs (cl_key policy) (concat pages)
      \<and> set keys \<subseteq> set (tuples (cl_key policy) (concat pages))
   else tracker_keys policy (record_pages libs (cl_key policy) (cl_max_keys policy) pages)
      = Err (overflow_error (cl_max_keys policy))"
proof (cases "card (texts libs (cl_key policy) (concat pages)) \<le> cl_max_keys policy")
  case True
  let ?s = "record_pages libs (cl_key policy) (cl_max_keys policy) pages"
  from True record_pages_spec [of libs "cl_key policy" "cl_max_keys policy" pages]
  have "seen_inv libs (cl_max_keys policy) ?s" "sn_seen ?s = texts libs (cl_key policy) (concat pages)"
    "set (sn_keys ?s) \<subseteq> set (tuples (cl_key policy) (concat pages))" by (simp_all add: Let_def)
  then have "tracker_keys policy ?s = Ok (sn_keys ?s)" "distinct (map (canonical_key_text libs) (sn_keys ?s))"
    "canonical_key_text libs ` set (sn_keys ?s) = texts libs (cl_key policy) (concat pages)"
    "set (sn_keys ?s) \<subseteq> set (tuples (cl_key policy) (concat pages))"
    by (simp_all add: tracker_keys_def seen_inv_def)
  with True show ?thesis by simp
next
  case False
  with record_pages_spec [of libs "cl_key policy" "cl_max_keys policy" pages] show ?thesis
    by (simp add: Let_def tracker_keys_def)
qed

text \<open>C0. While a complete read is under way no bookmark reaches the store: every \<open>put\<close> succeeds, the store keeps its
  contents and a \<open>get\<close> sees the held value; releasing writes exactly the last value of every key, as if the
  bookmarks had been written directly.\<close>

theorem held_until_released:
  assumes "signal \<noteq> ReadPartial" "\<forall>(k, v) \<in> set puts. is_ok (validate_state_key k)"
  shows "\<exists>h s'. hold_puts MemoryStateStore signal puts (s, []) = (Ok (), (s, h))
    \<and> (\<forall>k v. map_of (rev puts) k = Some v \<longrightarrow> hold_get MemoryStateStore k (s, h) = Ok (Some v))
    \<and> hold_release MemoryStateStore (s, h) = (Ok (), (s', []))
    \<and> map_of s' = map_of s ++ map_of (rev puts)"
proof -
  from hold_puts_reading [OF assms(1), of MemoryStateStore puts s "[]"] obtain h where
    h: "hold_puts MemoryStateStore signal puts (s, []) = (Ok (), (s, h))" "map_of h = map_of (rev puts)"
      "fst ` set h = fst ` set puts" "distinct (map fst h)" by auto
  have "\<forall>k \<in> fst ` set h. is_ok (validate_state_key k)" using assms(2) h(3) by auto
  from release_memory [OF this h(4), of s] h(1,2) show ?thesis
    by (auto simp: hold_release_def hold_get_def)
qed

theorem held_until_released_witness:
  "\<exists>h s'. hold_puts MemoryStateStore ReadReading [(''k'', Bool False), (''k'', Bool True)] ([(''k'', Null)], []) = (Ok (), ([(''k'', Null)], h))
    \<and> hold_get MemoryStateStore ''k'' ([(''k'', Null)], h) = Ok (Some (Bool True))
    \<and> hold_release MemoryStateStore ([(''k'', Null)], h) = (Ok (), (s', [])) \<and> map_of s' ''k'' = Some (Bool True)"
proof -
  have "is_ok (validate_state_key ''k'')" by code_simp
  then have "\<forall>(k, v) \<in> set [(''k'', Bool False), (''k'', Bool True)]. is_ok (validate_state_key k)" by simp
  from held_until_released [OF _ this, of ReadReading "[(''k'', Null)]"] show ?thesis by auto
qed

end
