(* ===== verification/State_Version.thy ===== *)
theory State_Version
  imports State_Store
begin

section \<open>Compatibility and migration of stored state (\<open>crates/core/src/state_version.rs\<close>)\<close>

text \<open>
  What happens to a stored bookmark before a source sees it: the comparison of its envelope with what
  the source declares, the migration of an older shape (a parameter, the source's own code), and the
  store that wraps the writes of the bookmark key.
\<close>

datatype state_compat =
    Current
  | Migrate u32 u32
  | Incompatible string string

definition quoted :: "string \<Rightarrow> string" where
  "quoted s = [CHR 0x27] @ s @ [CHR 0x27]"

definition show_u32 :: "u32 \<Rightarrow> string" where
  "show_u32 n = show_nat (unat n)"

definition check_compat :: "stored_state \<Rightarrow> string \<Rightarrow> u32 \<Rightarrow> state_compat" where
  "check_compat state owner expected =
     (if STATE_FORMAT < ss_format state then
        Incompatible (''state format '' @ show_u32 (ss_format state))
          (''state format '' @ show_u32 STATE_FORMAT @ '' or older'')
      else case (case ss_owner state of Some found \<Rightarrow> if found \<noteq> owner then Some found else None | None \<Rightarrow> None) of
        Some found \<Rightarrow> Incompatible (''state owned by '' @ quoted found) (''state owned by '' @ quoted owner)
      | None \<Rightarrow>
          if expected < ss_schema state then
            Incompatible (quoted owner @ '' state schema '' @ show_u32 (ss_schema state))
              (quoted owner @ '' state schema '' @ show_u32 expected @ '' or older'')
          else if ss_schema state < expected then Migrate (ss_schema state) expected
          else Current)"

definition incompatible :: "string \<Rightarrow> string \<Rightarrow> string \<Rightarrow> faucet_error" where
  "incompatible key found expected = StateIncompatible key found expected"

record resolved_state =
  rs_data :: "value"
  rs_migrated_from :: "u32 option"
  rs_legacy :: bool

definition migrate_payload :: "value \<Rightarrow> (value \<Rightarrow> value fres) \<Rightarrow> value fres" where
  "migrate_payload data migrate =
     (if is_eo_envelope data then
        (case unwrap_state data of
           (None, seq) \<Rightarrow> Ok (wrap_state None seq)
         | (Some bookmark, seq) \<Rightarrow>
             res_bind (migrate bookmark) (\<lambda>migrated. Ok (wrap_state (Some migrated) seq)))
      else if is_null data then Ok data
      else migrate data)"

definition resolve_with ::
    "string \<Rightarrow> value \<Rightarrow> string \<Rightarrow> u32 \<Rightarrow> (u32 \<Rightarrow> value \<Rightarrow> value fres) \<Rightarrow> resolved_state fres" where
  "resolve_with key stored owner expected migrate =
     (let state = StoredState_parse stored; legacy = is_legacy state in
      case check_compat state owner expected of
        Current \<Rightarrow> Ok \<lparr> rs_data = ss_data state, rs_migrated_from = None, rs_legacy = legacy \<rparr>
      | Incompatible found expected \<Rightarrow> Err (incompatible key found expected)
      | Migrate from to \<Rightarrow>
          res_bind
            (migrate_payload (ss_data state)
               (\<lambda>bm. map_err
                  (\<lambda>e. incompatible key
                     (quoted owner @ '' state schema '' @ show_u32 from)
                     (quoted owner @ '' state schema '' @ show_u32 to @ '' (migration failed: ''
                       @ error_display e @ '')''))
                  (migrate from bm)))
            (\<lambda>data. Ok \<lparr> rs_data = data, rs_migrated_from = Some from, rs_legacy = legacy \<rparr>))"

text \<open>What the pipeline uses of a source for its state: its name, its shape version, its migration.\<close>

record source_state =
  src_connector_name :: string
  src_state_schema :: u32
  src_migrate_state :: "u32 \<Rightarrow> value \<Rightarrow> value fres"

definition resolve_for_source :: "string \<Rightarrow> value \<Rightarrow> source_state \<Rightarrow> resolved_state fres" where
  "resolve_for_source key stored source =
     resolve_with key stored (src_connector_name source) (src_state_schema source)
       (\<lambda>from data. src_migrate_state source from data)"

definition encode_for_write :: "string \<Rightarrow> u32 \<Rightarrow> value \<Rightarrow> bool \<Rightarrow> value" where
  "encode_for_write owner schema data legacy =
     (if legacy then data else wrap_versioned owner schema data)"

record state_codec =
  sc_owner :: string
  sc_schema :: u32
  sc_legacy :: bool

definition StateCodec_for_source :: "source_state \<Rightarrow> bool \<Rightarrow> state_codec" where
  "StateCodec_for_source source legacy =
     \<lparr> sc_owner = src_connector_name source, sc_schema = src_state_schema source, sc_legacy = legacy \<rparr>"

definition StateCodec_encode :: "state_codec \<Rightarrow> value \<Rightarrow> value" where
  "StateCodec_encode c v = encode_for_write (sc_owner c) (sc_schema c) v (sc_legacy c)"

definition versioned_stored :: "string \<Rightarrow> state_codec \<Rightarrow> string \<Rightarrow> value \<Rightarrow> value" where
  "versioned_stored bookmark_key c key v = (if key = bookmark_key then StateCodec_encode c v else v)"

definition VersionedStateStore :: "'s store_ops \<Rightarrow> string \<Rightarrow> state_codec \<Rightarrow> 's store_ops" where
  "VersionedStateStore inner bookmark_key c =
     \<lparr> so_get = so_get inner,
       so_put = (\<lambda>key v. so_put inner key (versioned_stored bookmark_key c key v)),
       so_delete = so_delete inner,
       so_supports_list = so_supports_list inner,
       so_list = so_list inner,
       so_supports_compare_and_put = so_supports_compare_and_put inner,
       so_compare_and_put =
         (\<lambda>key expected v. so_compare_and_put inner key expected (versioned_stored bookmark_key c key v)),
       so_supports_atomic_batch = so_supports_atomic_batch inner,
       so_put_batch =
         (\<lambda>entries. so_put_batch inner (map (\<lambda>(k, v). (k, versioned_stored bookmark_key c k v)) entries)) \<rparr>"

section \<open>Lemmas\<close>

interpretation envelope_codec: codec
  "\<lambda>(owner, schema, data). wrap_versioned owner schema data"
  "\<lambda>v. case ss_owner (StoredState_parse v) of
     None \<Rightarrow> None
   | Some owner \<Rightarrow> Some (owner, ss_schema (StoredState_parse v), ss_data (StoredState_parse v))" UNIV
  by unfold_locales (auto simp: codec_simps)

lemma check_compat_own:
  "check_compat \<lparr> ss_format = STATE_FORMAT, ss_owner = Some owner, ss_schema = schema, ss_data = data \<rparr>
     owner expected =
   (if expected < schema then
      Incompatible (quoted owner @ '' state schema '' @ show_u32 schema)
        (quoted owner @ '' state schema '' @ show_u32 expected @ '' or older'')
    else if schema < expected then Migrate schema expected else Current)"
  by (simp add: check_compat_def)

lemma check_compat_Current:
  "check_compat state owner expected = Current \<longleftrightarrow>
     ss_format state \<le> STATE_FORMAT \<and> (ss_owner state = None \<or> ss_owner state = Some owner)
     \<and> ss_schema state = expected"
  by (auto simp: check_compat_def not_less split: option.splits if_splits)

lemma check_compat_Migrate:
  "check_compat state owner expected = Migrate from to \<longleftrightarrow>
     ss_format state \<le> STATE_FORMAT \<and> (ss_owner state = None \<or> ss_owner state = Some owner)
     \<and> ss_schema state < expected \<and> from = ss_schema state \<and> to = expected"
  by (auto simp: check_compat_def not_less split: option.splits if_splits)

lemma STATE_FORMAT_nonzero [simp]: "STATE_FORMAT \<noteq> 0"
  by (simp add: STATE_FORMAT_def)

lemma resolve_encoded:
  "resolve_with key (StateCodec_encode \<lparr> sc_owner = owner, sc_schema = schema, sc_legacy = False \<rparr> v)
     owner schema migrate = Ok \<lparr> rs_data = v, rs_migrated_from = None, rs_legacy = False \<rparr>"
  by (simp add: resolve_with_def StateCodec_encode_def encode_for_write_def codec_simps check_compat_own
      is_legacy_def Let_def)

text \<open>A migration keeps the sequence of an exactly-once wrapper and rewrites its bookmark only.\<close>

lemma migrate_payload_wrap_state:
  "migrate_payload (wrap_state bookmark seq) migrate =
     (case bookmark of
        Some b \<Rightarrow> if b = Null then Ok (wrap_state None seq)
                  else res_bind (migrate b) (\<lambda>m. Ok (wrap_state (Some m) seq))
      | None \<Rightarrow> Ok (wrap_state None seq))"
  by (auto simp: migrate_payload_def codec_simps split: option.split)

lemma migrate_payload_seq:
  assumes "migrate_payload data migrate = Ok data'" "is_eo_envelope data"
  shows "is_eo_envelope data' \<and> snd (unwrap_state data') = snd (unwrap_state data)"
  using assms
  by (auto simp: migrate_payload_def res_bind_Ok_iff codec_simps split: prod.splits option.splits)

lemma migrate_payload_map_err:
  "migrate_payload data (\<lambda>b. map_err g (m b)) = map_err g (migrate_payload data m)"
  by (auto simp: migrate_payload_def map_err_def res_bind_def split: prod.split option.split sum.split)

lemma versioned_ops [simp]:
  "so_get (VersionedStateStore inner bk c) = so_get inner"
  "so_put (VersionedStateStore inner bk c) key v = so_put inner key (versioned_stored bk c key v)"
  by (simp_all add: VersionedStateStore_def)

text \<open>
  A versioned store over any store that keeps the key-value contract: what is written under the
  bookmark key is read back, by a source with the same name and shape version, as it was written.
\<close>

locale versioned_bookmarks = kv_store +
  fixes bk :: string
    and c :: state_codec
  assumes not_legacy: "\<not> sc_legacy c"
begin

lemma read_back:
  assumes "inv s" "so_put (VersionedStateStore ops bk c) bk v s = (Ok u, s')"
    and "so_get (VersionedStateStore ops bk c) bk s' = Ok (Some stored)"
  shows "resolve_with bk stored (sc_owner c) (sc_schema c) migrate =
      Ok \<lparr> rs_data = v, rs_migrated_from = None, rs_legacy = False \<rparr>"
proof -
  from assms have "stored = StateCodec_encode c v"
    using get_after_put [OF assms(1)] by (fastforce simp: versioned_stored_def)
  then show ?thesis
    using resolve_encoded [of bk "sc_owner c" "sc_schema c" v migrate] not_legacy
    by (cases c) (simp add: StateCodec_encode_def)
qed

lemma foreign_owner_refused:
  assumes "inv s" "so_put (VersionedStateStore ops bk c) bk v s = (Ok u, s')"
    and "so_get (VersionedStateStore ops bk c) bk s' = Ok (Some stored)" "owner \<noteq> sc_owner c"
  shows "\<exists>found expected. resolve_with bk stored owner schema migrate =
      Err (StateIncompatible bk found expected)"
proof -
  from assms have "stored = wrap_versioned (sc_owner c) (sc_schema c) v"
    using get_after_put [OF assms(1)] not_legacy
    by (fastforce simp: versioned_stored_def StateCodec_encode_def encode_for_write_def)
  with assms(4) show ?thesis
    by (simp add: resolve_with_def codec_simps check_compat_def incompatible_def)
qed

end

interpretation memory_versioned: versioned_bookmarks MemoryStateStore map_of memory_inv
  "''orders::row''" "\<lparr> sc_owner = ''postgres'', sc_schema = 2, sc_legacy = False \<rparr>"
  by unfold_locales simp

section \<open>Properties\<close>

text \<open>C24. A stored value is handed to a source only when its format is not newer than this release's, it
  is unowned or owned by the source, and its shape version is the expected one (then unchanged) or an
  older one (then migrated by the source from exactly that version); every other value is refused with
  the typed error and nothing is guessed.\<close>

theorem resolve_with_sound:
  "case resolve_with key stored owner expected migrate of
     Err e \<Rightarrow> \<exists>found exp. e = StateIncompatible key found exp
   | Ok r \<Rightarrow>
       (let s = StoredState_parse stored in
        ss_format s \<le> STATE_FORMAT \<and> (ss_owner s = None \<or> ss_owner s = Some owner)
        \<and> rs_legacy r = (ss_format s = 0)
        \<and> (if ss_schema s = expected then rs_data r = ss_data s \<and> rs_migrated_from r = None
           else ss_schema s < expected \<and> rs_migrated_from r = Some (ss_schema s)
             \<and> migrate_payload (ss_data s) (migrate (ss_schema s)) = Ok (rs_data r)))"
proof -
  let ?s = "StoredState_parse stored"
  show ?thesis
  proof (cases "check_compat ?s owner expected")
    case Current
    then have r: "resolve_with key stored owner expected migrate =
        Ok \<lparr> rs_data = ss_data ?s, rs_migrated_from = None, rs_legacy = is_legacy ?s \<rparr>"
      by (simp add: resolve_with_def Let_def)
    from Current show ?thesis by (simp add: r is_legacy_def check_compat_Current Let_def)
  next
    case (Incompatible found exp)
    then show ?thesis by (simp add: resolve_with_def Let_def incompatible_def)
  next
    case (Migrate v w)
    let ?g = "\<lambda>e. incompatible key (quoted owner @ '' state schema '' @ show_u32 v)
      (quoted owner @ '' state schema '' @ show_u32 w @ '' (migration failed: '' @ error_display e @ '')'')"
    have r: "resolve_with key stored owner expected migrate =
        res_bind (migrate_payload (ss_data ?s) (\<lambda>bm. map_err ?g (migrate v bm)))
          (\<lambda>data. Ok \<lparr> rs_data = data, rs_migrated_from = Some v, rs_legacy = is_legacy ?s \<rparr>)"
      using Migrate by (simp add: resolve_with_def Let_def)
    show ?thesis
    proof (cases "migrate_payload (ss_data ?s) (migrate v)")
      case (Inl e)
      then show ?thesis by (simp add: r migrate_payload_map_err incompatible_def)
    next
      case (Inr d)
      with Migrate show ?thesis
        by (auto simp: r migrate_payload_map_err check_compat_Migrate is_legacy_def Let_def)
    qed
  qed
qed



end
