(* ===== verification/State_Key.thy ===== *)
theory State_Key
  imports State_Store
begin

section \<open>Typed state keys (\<open>crates/core/src/state_key.rs\<close>) and namespaces (\<open>state.rs\<close>)\<close>

text \<open>
  The keys a pipeline uses in its state store: their components, the rendering under each scheme
  version, the decoder, the move of a value an earlier scheme left behind, and the export and import of
  a pipeline's namespace. The text of a JSON value is the parameter \<open>json_print\<close>. Metrics and log lines
  are not modelled.
\<close>

subsection \<open>Components\<close>

definition KEY_SCHEME_VERSION :: nat where
  "KEY_SCHEME_VERSION = 4"

definition KEY_SEPARATOR :: string where
  "KEY_SEPARATOR = ''::''"

definition COMPONENT_MAX :: nat where
  "COMPONENT_MAX = 64"

datatype key_suffix =
    Sla
  | Profiling
  | RollbackIndex
  | RollbackRun string
  | Status
  | Lease
  | Replication
  | Backfill string
  | ServeBackfill string

fun is_pipeline_level :: "key_suffix \<Rightarrow> bool" where
  "is_pipeline_level Replication = True"
| "is_pipeline_level (Backfill _) = True"
| "is_pipeline_level (ServeBackfill _) = True"
| "is_pipeline_level _ = False"

definition push_seg :: "string \<Rightarrow> string \<Rightarrow> string" where
  "push_seg out seg = (if out = [] then seg else out @ KEY_SEPARATOR @ seg)"

fun suffix_parts :: "key_suffix \<Rightarrow> string \<times> string option" where
  "suffix_parts Sla = (''__sla__'', None)"
| "suffix_parts Profiling = (''__profiling__'', None)"
| "suffix_parts RollbackIndex = (''__rollback__'', None)"
| "suffix_parts (RollbackRun run) = (''__rollback__'', Some run)"
| "suffix_parts Status = (''__status__'', None)"
| "suffix_parts Lease = (''__lease__'', None)"
| "suffix_parts Replication = (''__replication__'', None)"
| "suffix_parts (Backfill h) = (''__backfill__'', Some h)"
| "suffix_parts (ServeBackfill h) = (''__serve_backfill__'', Some h)"

definition render_into :: "key_suffix \<Rightarrow> string \<Rightarrow> string" where
  "render_into suffix out =
     (case suffix_parts suffix of
        (marker, tail) \<Rightarrow>
          (let out = push_seg out marker in
           case tail of Some t \<Rightarrow> push_seg out t | None \<Rightarrow> out))"

definition suffix_render :: "key_suffix \<Rightarrow> string" where
  "suffix_render suffix = render_into suffix []"

definition suffix_tail :: "key_suffix \<Rightarrow> string" where
  "suffix_tail suffix = KEY_SEPARATOR @ suffix_render suffix"

datatype sub_component =
    Parent string
  | Encoded string
  | Typed (typed_rendering: string) (typed_text: string) (typed_is_string: bool)

datatype key_head =
    Parts (head_tenant: "string option") (head_pipeline: string) (head_row: "string option")
      (head_sub: "sub_component option")
  | Rendered string

record state_key =
  sk_head :: key_head
  sk_shard :: "string option"
  sk_suffix :: "key_suffix option"

subsection \<open>Encoding one component\<close>

definition plain_char :: "char \<Rightarrow> bool" where
  "plain_char c = (is_ascii_alphanumeric c \<or> c \<in> set ''_-.'')"

definition legal_char :: "bool \<Rightarrow> char \<Rightarrow> bool" where
  "legal_char allow_separators c = (plain_char c \<or> allow_separators \<and> c \<in> set '':/'')"

fun contains_sep :: "string \<Rightarrow> bool" where
  "contains_sep (a # b # s) = (a = CHR '':'' \<and> b = CHR '':'' \<or> contains_sep (b # s))"
| "contains_sep _ = False"

definition keeps_verbatim :: "string \<Rightarrow> bool \<Rightarrow> bool" where
  "keeps_verbatim raw allow_separators =
     (raw \<noteq> [] \<and> length raw \<le> COMPONENT_MAX \<and> list_all (legal_char allow_separators) raw
      \<and> \<not> contains_sep raw \<and> hd raw \<noteq> CHR '':'' \<and> last raw \<noteq> CHR '':''
      \<and> (CHR 0x2F \<notin> set raw
         \<or> list_all (\<lambda>seg. seg \<noteq> [] \<and> \<not> starts_with ''.'' seg) (split_on CHR 0x2F raw)))"

definition encode_component :: "string \<Rightarrow> bool \<Rightarrow> string" where
  "encode_component raw allow_separators =
     (if keeps_verbatim raw allow_separators then raw
      else take 32 (filter plain_char raw) @ ''.h''
        @ zero_pad 16 (show_hex (unat (fnv1a 0xcbf29ce484222325 raw))))"

definition MARKER_NAMES :: "string list" where
  "MARKER_NAMES =
     [''__sla__'', ''__profiling__'', ''__status__'', ''__lease__'', ''__rollback__'',
      ''__replication__'', ''__backfill__'', ''__serve_backfill__'']"

definition is_marker_name :: "string \<Rightarrow> bool" where
  "is_marker_name raw = (raw \<in> set MARKER_NAMES)"

definition TYPE_TAGS :: "char list" where
  "TYPE_TAGS = ''snbzao''"

definition typed_string :: "string \<Rightarrow> string" where
  "typed_string raw =
     (let tag_like = (case raw of
                        a # t # d # _ \<Rightarrow> a = CHR ''_'' \<and> t \<in> set TYPE_TAGS \<and> d = CHR ''.''
                      | _ \<Rightarrow> False)
      in if tag_like then encode_component (''_s.'' @ raw) True else encode_component raw True)"

fun render_sub :: "sub_component \<Rightarrow> nat \<Rightarrow> string" where
  "render_sub (Parent raw) version =
     (if 4 \<le> version \<and> is_marker_name raw then encode_component (''_s.'' @ raw) True
      else if 3 \<le> version then typed_string raw
      else if 2 \<le> version then encode_component raw True
      else raw)"
| "render_sub (Typed typed txt is_str) version =
     (if is_str \<and> 4 \<le> version \<and> is_marker_name txt then encode_component (''_s.'' @ txt) True
      else if 3 \<le> version then typed
      else if 2 \<le> version then encode_component txt True
      else txt)"
| "render_sub (Encoded s) version = s"

subsection \<open>Building and rendering keys\<close>

definition StateKey_pipeline :: "string \<Rightarrow> state_key" where
  "StateKey_pipeline pipeline =
     \<lparr> sk_head = Parts None pipeline None None, sk_shard = None, sk_suffix = None \<rparr>"

definition from_rendered :: "string \<Rightarrow> state_key" where
  "from_rendered base = \<lparr> sk_head = Rendered base, sk_shard = None, sk_suffix = None \<rparr>"

definition with_tenant :: "string option \<Rightarrow> state_key \<Rightarrow> state_key" where
  "with_tenant tenant k =
     (case sk_head k of
        Parts _ p r s \<Rightarrow> k\<lparr> sk_head := Parts tenant p r s \<rparr>
      | Rendered _ \<Rightarrow> k)"

definition with_row :: "string \<Rightarrow> state_key \<Rightarrow> state_key" where
  "with_row row k =
     (case sk_head k of
        Parts t p _ s \<Rightarrow> k\<lparr> sk_head := Parts t p (Some row) s \<rparr>
      | Rendered _ \<Rightarrow> k)"

definition set_sub :: "sub_component \<Rightarrow> state_key \<Rightarrow> state_key" where
  "set_sub sub k =
     (case sk_head k of
        Parts t p r _ \<Rightarrow> k\<lparr> sk_head := Parts t p r (Some sub) \<rparr>
      | Rendered _ \<Rightarrow> k)"

definition StateKey_invocation :: "string \<Rightarrow> string \<Rightarrow> state_key" where
  "StateKey_invocation pipeline row = with_row row (StateKey_pipeline pipeline)"

definition with_parent_key :: "string \<Rightarrow> state_key \<Rightarrow> state_key" where
  "with_parent_key raw = set_sub (Parent raw)"

definition with_parent_value :: "(value \<Rightarrow> string) \<Rightarrow> value \<Rightarrow> state_key \<Rightarrow> state_key" where
  "with_parent_value json_print v =
     (let (typed, txt) =
        (case v of
           String s \<Rightarrow> (typed_string s, s)
         | _ \<Rightarrow>
             (let tag = (case v of Number _ \<Rightarrow> CHR ''n'' | Bool _ \<Rightarrow> CHR ''b'' | Null \<Rightarrow> CHR ''z''
                         | Array _ \<Rightarrow> CHR ''a'' | _ \<Rightarrow> CHR ''o'');
                  txt = json_print v
              in (encode_component ([CHR ''_'', tag, CHR ''.''] @ txt) True, txt)))
      in set_sub (Typed typed txt (is_string v)))"

definition with_sub :: "string \<Rightarrow> state_key \<Rightarrow> state_key" where
  "with_sub encoded = set_sub (Encoded encoded)"

definition with_shard :: "string \<Rightarrow> state_key \<Rightarrow> state_key" where
  "with_shard shard k = k\<lparr> sk_shard := Some shard \<rparr>"

definition with_suffix :: "key_suffix \<Rightarrow> state_key \<Rightarrow> state_key" where
  "with_suffix suffix k = k\<lparr> sk_suffix := Some suffix \<rparr>"

definition key_namespace :: "state_key \<Rightarrow> string" where
  "key_namespace k =
     (case sk_head k of
        Parts tenant pipeline _ _ \<Rightarrow>
          push_seg (case tenant of Some t \<Rightarrow> push_seg [] t | None \<Rightarrow> []) pipeline
      | Rendered base \<Rightarrow> base)"

definition render_scheme :: "state_key \<Rightarrow> nat \<Rightarrow> string" where
  "render_scheme k version =
     (let s = (case sk_head k of
                 Parts _ _ row sub \<Rightarrow>
                   (let s = key_namespace k;
                        s = (case row of Some r \<Rightarrow> push_seg s r | None \<Rightarrow> s)
                    in case sub of Some sub \<Rightarrow> push_seg s (render_sub sub version) | None \<Rightarrow> s)
               | Rendered base \<Rightarrow> base);
          s = (case sk_shard k of Some shard \<Rightarrow> push_seg s shard | None \<Rightarrow> s)
      in case sk_suffix k of Some suffix \<Rightarrow> render_into suffix s | None \<Rightarrow> s)"

definition render :: "state_key \<Rightarrow> string" where
  "render k = render_scheme k KEY_SCHEME_VERSION"

definition children_prefix :: "state_key \<Rightarrow> string" where
  "children_prefix k = render k @ KEY_SEPARATOR"

fun sub_is_marker :: "key_head \<Rightarrow> bool" where
  "sub_is_marker (Parts _ _ _ (Some (Parent raw))) = is_marker_name raw"
| "sub_is_marker (Parts _ _ _ (Some (Typed _ txt True))) = is_marker_name txt"
| "sub_is_marker _ = False"

definition sub_is_marker_name :: "state_key \<Rightarrow> bool" where
  "sub_is_marker_name k = sub_is_marker (sk_head k)"

definition legacy_renderings :: "state_key \<Rightarrow> string list" where
  "legacy_renderings k =
     fold (\<lambda>version out.
             if version < 4 \<and> sub_is_marker_name k then out
             else let old = render_scheme k version in
               if old \<noteq> render k \<and> old \<notin> set out \<and> is_ok (validate_state_key old) then out @ [old] else out)
       (rev [1..<KEY_SCHEME_VERSION]) []"

definition backfill_unit_row :: "string \<Rightarrow> string \<Rightarrow> string" where
  "backfill_unit_row range_hash unit_id = join_with KEY_SEPARATOR [''backfill'', range_hash, unit_id]"

subsection \<open>Decoding a key\<close>

text \<open>\<open>str::split\<close> on the two-byte separator, from the left.\<close>

fun split_sep :: "string \<Rightarrow> string list" where
  "split_sep (a # b # s) =
     (if a = CHR '':'' \<and> b = CHR '':'' then [] # split_sep s
      else case split_sep (b # s) of [] \<Rightarrow> [[a]] | p # ps \<Rightarrow> (a # p) # ps)"
| "split_sep s = [s]"

definition join_segs :: "string list \<Rightarrow> string" where
  "join_segs = join_with KEY_SEPARATOR"

text \<open>The marker at position \<open>i\<close> of the segments, if the segment there is one.\<close>

definition marker_at :: "string list \<Rightarrow> nat \<Rightarrow> key_suffix option" where
  "marker_at segs i =
     (let s = segs ! i; final = (i + 1 = length segs) in
      if s = ''__sla__'' \<and> final then Some Sla
      else if s = ''__profiling__'' \<and> final then Some Profiling
      else if s = ''__status__'' \<and> final then Some Status
      else if s = ''__lease__'' \<and> final then Some Lease
      else if s = ''__rollback__'' \<and> i + 1 < length segs then Some (RollbackRun (join_segs (drop (i + 1) segs)))
      else if s = ''__rollback__'' then Some RollbackIndex
      else None)"

fun find_marker :: "string list \<Rightarrow> nat list \<Rightarrow> (nat \<times> key_suffix) option" where
  "find_marker segs [] = None"
| "find_marker segs (i # is) =
     (case marker_at segs i of Some suffix \<Rightarrow> Some (i, suffix) | None \<Rightarrow> find_marker segs is)"

definition parse_row :: "state_key \<Rightarrow> string list \<Rightarrow> state_key" where
  "parse_row base segs =
     (let marker = find_marker segs [1..<length segs];
          stop = (case marker of Some (i, _) \<Rightarrow> i | None \<Rightarrow> length segs);
          row_end = (if segs ! 0 = ''backfill'' \<and> 1 < stop then stop else 1);
          parsed = with_row (join_segs (take row_end segs)) base;
          parsed = (if row_end < stop then with_sub (join_segs (drop row_end (take stop segs))) parsed else parsed)
      in case marker of Some (_, suffix) \<Rightarrow> with_suffix suffix parsed | None \<Rightarrow> parsed)"

definition StateKey_parse :: "string option \<Rightarrow> string \<Rightarrow> string \<Rightarrow> state_key option" where
  "StateKey_parse tenant pipeline key =
     (let base = with_tenant tenant (StateKey_pipeline pipeline) in
      case Option.bind (strip_prefix (key_namespace base) key) (strip_prefix KEY_SEPARATOR) of
        None \<Rightarrow> None
      | Some rest \<Rightarrow>
          if rest = [] then None
          else let segs = split_sep rest in
            if segs ! 0 = ''__replication__'' \<and> length segs = 1 then Some (with_suffix Replication base)
            else if segs ! 0 = ''__backfill__'' \<and> 1 < length segs then
              Some (with_suffix (Backfill (join_segs (drop 1 segs))) base)
            else if segs ! 0 = ''__serve_backfill__'' \<and> 1 < length segs then
              Some (with_suffix (ServeBackfill (join_segs (drop 1 segs))) base)
            else Some (parse_row base segs))"

subsection \<open>Moving a value between keys\<close>

datatype key_migration = MigCurrent | Fresh | Moved string

fun migrate_candidates ::
    "'s store_ops \<Rightarrow> string \<Rightarrow> string list \<Rightarrow> 's \<Rightarrow> key_migration fres \<times> 's" where
  "migrate_candidates store key [] s = (Ok Fresh, s)"
| "migrate_candidates store key (old # olds) s =
     (if old = key then migrate_candidates store key olds s
      else case so_get store old s of
        Err e \<Rightarrow> (Err e, s)
      | Ok None \<Rightarrow> migrate_candidates store key olds s
      | Ok (Some v) \<Rightarrow>
          (case so_compare_and_put store key None v s of
             (Err e, s') \<Rightarrow> (Err e, s')
           | (Ok False, s') \<Rightarrow> (Ok MigCurrent, s')
           | (Ok True, s') \<Rightarrow> (Ok (Moved old), snd (so_delete store old s'))))"

definition migrate_state_key ::
    "'s store_ops \<Rightarrow> string \<Rightarrow> string list \<Rightarrow> 's \<Rightarrow> key_migration fres \<times> 's" where
  "migrate_state_key store key candidates s =
     (if candidates = [] then (Ok Fresh, s)
      else case so_get store key s of
        Err e \<Rightarrow> (Err e, s)
      | Ok (Some _) \<Rightarrow> (Ok MigCurrent, s)
      | Ok None \<Rightarrow> migrate_candidates store key candidates s)"

subsection \<open>Namespaces, export and import (\<open>state.rs\<close>)\<close>

definition STATE_EXPORT_VERSION :: u32 where
  "STATE_EXPORT_VERSION = 1"

definition namespace_prefix :: "string \<Rightarrow> string" where
  "namespace_prefix pipeline = children_prefix (StateKey_pipeline pipeline)"

text \<open>The keys of an export, a \<open>BTreeMap\<close>: an association list ordered by key.\<close>

definition btree_insert :: "string \<Rightarrow> value \<Rightarrow> (string \<times> value) list \<Rightarrow> (string \<times> value) list" where
  "btree_insert k v m = insort_key fst (k, v) (filter (\<lambda>(k', _). k' \<noteq> k) m)"

record state_export =
  se_version :: u32
  se_pipeline :: string
  se_exported_at :: "string option"
  se_keys :: "(string \<times> value) list"

definition StateExport_new :: "string \<Rightarrow> state_export" where
  "StateExport_new pipeline =
     \<lparr> se_version = STATE_EXPORT_VERSION, se_pipeline = pipeline, se_exported_at = None, se_keys = [] \<rparr>"

fun validate_export_keys :: "string \<Rightarrow> string \<Rightarrow> string list \<Rightarrow> unit fres" where
  "validate_export_keys pipeline ns [] = Ok ()"
| "validate_export_keys pipeline ns (key # ks) =
     res_bind (validate_state_key key) (\<lambda>_.
       if \<not> starts_with ns key then
         Err (State (''state export key '' @ [CHR 0x27] @ key @ [CHR 0x27] @ '' is outside the namespace ''
           @ [CHR 0x27] @ ns @ [CHR 0x27] @ '' of pipeline '' @ [CHR 0x27] @ pipeline @ [CHR 0x27]))
       else validate_export_keys pipeline ns ks)"

definition StateExport_validate :: "state_export \<Rightarrow> unit fres" where
  "StateExport_validate export =
     res_bind (map_err (\<lambda>e. State (''state export pipeline name: '' @ error_display e))
                 (validate_state_key (se_pipeline export)))
       (\<lambda>_. validate_export_keys (se_pipeline export) (namespace_prefix (se_pipeline export))
              (map fst (se_keys export)))"

fun export_keys :: "'s store_ops \<Rightarrow> 's \<Rightarrow> string list \<Rightarrow> (string \<times> value) list \<Rightarrow> (string \<times> value) list fres" where
  "export_keys store s [] acc = Ok acc"
| "export_keys store s (key # ks) acc =
     res_bind (so_get store key s) (\<lambda>r.
       export_keys store s ks (case r of Some v \<Rightarrow> btree_insert key v acc | None \<Rightarrow> acc))"

definition export_namespace :: "'s store_ops \<Rightarrow> string \<Rightarrow> 's \<Rightarrow> state_export fres" where
  "export_namespace store pipeline s =
     res_bind (so_list store (namespace_prefix pipeline) s) (\<lambda>ks.
       res_bind (export_keys store s ks []) (\<lambda>keys. Ok ((StateExport_new pipeline)\<lparr> se_keys := keys \<rparr>)))"

record import_report =
  ir_written :: "string list"
  ir_deleted :: "string list"
  ir_atomic :: bool
  ir_error :: "string option"

fun import_puts ::
    "'s store_ops \<Rightarrow> (string \<times> value) list \<Rightarrow> import_report \<Rightarrow> 's \<Rightarrow> import_report \<times> bool \<times> 's" where
  "import_puts store [] report s = (report, True, s)"
| "import_puts store ((key, v) # entries) report s =
     (case so_put store key v s of
        (Err e, s') \<Rightarrow>
          (report\<lparr> ir_error := Some (''writing '' @ [CHR 0x27] @ key @ [CHR 0x27] @ '': '' @ error_display e) \<rparr>,
           False, s')
      | (Ok _, s') \<Rightarrow> import_puts store entries (report\<lparr> ir_written := ir_written report @ [key] \<rparr>) s')"

fun import_deletes ::
    "'s store_ops \<Rightarrow> string list \<Rightarrow> import_report \<Rightarrow> 's \<Rightarrow> import_report \<times> 's" where
  "import_deletes store [] report s = (report, s)"
| "import_deletes store (key # ks) report s =
     (case so_delete store key s of
        (Err e, s') \<Rightarrow>
          (report\<lparr> ir_error := Some (''deleting stale '' @ [CHR 0x27] @ key @ [CHR 0x27] @ '': '' @ error_display e) \<rparr>,
           s')
      | (Ok _, s') \<Rightarrow> import_deletes store ks (report\<lparr> ir_deleted := ir_deleted report @ [key] \<rparr>) s')"

definition import_write ::
    "'s store_ops \<Rightarrow> (string \<times> value) list \<Rightarrow> 's \<Rightarrow> import_report \<times> bool \<times> 's" where
  "import_write store entries s =
     (let report = \<lparr> ir_written = [], ir_deleted = [], ir_atomic = so_supports_atomic_batch store,
                     ir_error = None \<rparr>
      in if ir_atomic report then
           (case so_put_batch store entries s of
              (Err e, s') \<Rightarrow> (report\<lparr> ir_error := Some (error_display e) \<rparr>, False, s')
            | (Ok _, s') \<Rightarrow> (report\<lparr> ir_written := map fst entries \<rparr>, True, s'))
         else import_puts store entries report s)"

definition import_namespace ::
    "'s store_ops \<Rightarrow> state_export \<Rightarrow> bool \<Rightarrow> 's \<Rightarrow> import_report fres \<times> 's" where
  "import_namespace store export replace s =
     (case StateExport_validate export of
        Err e \<Rightarrow> (Err e, s)
      | Ok _ \<Rightarrow>
          (let entries = se_keys export in
           case (if replace
                 then res_bind (so_list store (namespace_prefix (se_pipeline export)) s)
                        (\<lambda>ks. Ok (filter (\<lambda>k. k \<notin> fst ` set (se_keys export)) ks))
                 else Ok []) of
             Err e \<Rightarrow> (Err e, s)
           | Ok stale \<Rightarrow>
               (case import_write store entries s of
                  (report, False, s') \<Rightarrow> (Ok report, s')
                | (report, True, s') \<Rightarrow>
                    (case import_deletes store stale report s' of (report, s'') \<Rightarrow> (Ok report, s'')))))"

section \<open>Lemmas\<close>

subsection \<open>Splitting and joining\<close>

lemma split_sep_nonempty [simp]: "split_sep s \<noteq> []"
  by (induction s rule: split_sep.induct) (auto split: list.split)

lemma join_segs_Cons: "join_segs (x # xs) = (if xs = [] then x else x @ KEY_SEPARATOR @ join_segs xs)"
  by (cases xs) (simp_all add: join_segs_def)

lemma join_segs_append:
  "xs \<noteq> [] \<Longrightarrow> ys \<noteq> [] \<Longrightarrow> join_segs (xs @ ys) = join_segs xs @ KEY_SEPARATOR @ join_segs ys"
  by (induction xs) (auto simp: join_segs_Cons)

lemma join_split_sep [simp]: "join_segs (split_sep s) = s"
proof (induction s rule: split_sep.induct)
  case (1 a b s)
  show ?case
  proof (cases "a = CHR '':'' \<and> b = CHR '':''")
    case True
    with 1 show ?thesis by (simp add: join_segs_Cons KEY_SEPARATOR_def)
  next
    case False
    obtain p ps where ps: "split_sep (b # s) = p # ps" by (cases "split_sep (b # s)") auto
    with 1(2) [OF False] have "join_segs (p # ps) = b # s" by simp
    with False ps show ?thesis by (auto simp: join_segs_Cons split: if_splits)
  qed
qed (auto simp: join_segs_def)

subsection \<open>Rendering a decoded key\<close>

lemma push_seg_nonempty: "out \<noteq> [] \<Longrightarrow> push_seg out seg = out @ KEY_SEPARATOR @ seg"
  by (simp add: push_seg_def)

lemma KEY_SEPARATOR_nonempty [simp]: "KEY_SEPARATOR \<noteq> []"
  by (simp add: KEY_SEPARATOR_def)

lemma render_marker:
  assumes "marker_at segs i = Some suffix" "i < length segs" "out \<noteq> []"
  shows "render_into suffix out = out @ KEY_SEPARATOR @ join_segs (drop i segs)"
proof -
  have drop: "drop i segs = segs ! i # drop (Suc i) segs" using assms(2) by (simp add: Cons_nth_drop_Suc)
  have "Suc i = length segs \<Longrightarrow> drop (Suc i) segs = []" by simp
  with assms drop show ?thesis
    by (auto simp: marker_at_def Let_def render_into_def push_seg_nonempty join_segs_Cons split: if_splits)
qed

lemma find_marker_Some:
  "find_marker segs is = Some (i, suffix) \<Longrightarrow> i \<in> set is \<and> marker_at segs i = Some suffix"
  by (induction "is") (auto split: option.splits)

definition row_base :: "string option \<Rightarrow> string \<Rightarrow> state_key" where
  "row_base tenant pipeline = with_tenant tenant (StateKey_pipeline pipeline)"

lemmas key_builders = row_base_def with_tenant_def StateKey_pipeline_def with_row_def with_sub_def
  set_sub_def with_suffix_def render_def render_scheme_def key_namespace_def Let_def

lemma row_base_namespace:
  "key_namespace (row_base tenant pipeline) =
     push_seg (case tenant of Some t \<Rightarrow> push_seg [] t | None \<Rightarrow> []) pipeline"
  by (simp add: key_builders)

lemma render_row_base:
  "render (with_suffix suffix (row_base tenant pipeline)) =
     render_into suffix (key_namespace (row_base tenant pipeline))"
  by (simp add: key_builders)

lemma render_row:
  "render (with_row row (row_base tenant pipeline)) = push_seg (key_namespace (row_base tenant pipeline)) row"
  "render (with_suffix suffix (with_row row (row_base tenant pipeline))) =
     render_into suffix (push_seg (key_namespace (row_base tenant pipeline)) row)"
  "render (with_sub sub (with_row row (row_base tenant pipeline))) =
     push_seg (push_seg (key_namespace (row_base tenant pipeline)) row) sub"
  "render (with_suffix suffix (with_sub sub (with_row row (row_base tenant pipeline)))) =
     render_into suffix (push_seg (push_seg (key_namespace (row_base tenant pipeline)) row) sub)"
  by (simp_all add: key_builders)

lemma render_parse_row:
  assumes ns: "key_namespace (row_base tenant pipeline) \<noteq> []" (is "?ns \<noteq> []") and segs: "segs \<noteq> []"
  shows "render (parse_row (row_base tenant pipeline) segs) = ?ns @ KEY_SEPARATOR @ join_segs segs"
proof -
  define marker where "marker = find_marker segs [1..<length segs]"
  define stop where "stop = (case marker of Some (i, _) \<Rightarrow> i | None \<Rightarrow> length segs)"
  define row_end where "row_end = (if segs ! 0 = ''backfill'' \<and> 1 < stop then stop else 1)"
  let ?out = "?ns @ KEY_SEPARATOR @ join_segs (take stop segs)"
  have m: "1 \<le> i \<and> i < length segs \<and> marker_at segs i = Some suffix" if "marker = Some (i, suffix)" for i suffix
    using find_marker_Some [of segs "[1..<length segs]" i suffix] that by (auto simp: marker_def)
  have stop: "1 \<le> stop" "stop \<le> length segs"
    using m segs by (cases marker; force simp: stop_def Suc_le_eq)+
  then have r: "1 \<le> row_end" "row_end \<le> stop" by (auto simp: row_end_def)
  have rows: "join_segs (take row_end segs) @ KEY_SEPARATOR @ join_segs (drop row_end (take stop segs))
      = join_segs (take stop segs)" if "row_end < stop"
    using that r stop segs join_segs_append [of "take row_end segs" "drop row_end (take stop segs)"]
      append_take_drop_id [of row_end "take stop segs"]
    by (simp add: min_def)
  let ?parsed = "if row_end < stop
      then with_sub (join_segs (drop row_end (take stop segs)))
        (with_row (join_segs (take row_end segs)) (row_base tenant pipeline))
      else with_row (join_segs (take row_end segs)) (row_base tenant pipeline)"
  have pr: "parse_row (row_base tenant pipeline) segs =
      (case marker of Some (_, suffix) \<Rightarrow> with_suffix suffix ?parsed | None \<Rightarrow> ?parsed)"
    unfolding parse_row_def Let_def marker_def [symmetric] stop_def [symmetric] row_end_def [symmetric] ..
  have out: "render ?parsed = ?out" and outs: "render (with_suffix suffix ?parsed) = render_into suffix ?out" for suffix
    using r rows by (auto simp: render_row push_seg_nonempty ns)
  show ?thesis
  proof (cases marker)
    case None
    then show ?thesis using out by (simp add: pr stop_def)
  next
    case (Some a)
    obtain i suffix where a: "a = (i, suffix)" by (cases a)
    with Some m have i: "1 \<le> i" "i < length segs" "marker_at segs i = Some suffix" by auto
    have "stop = i" using Some a by (simp add: stop_def)
    with i segs have "join_segs segs = join_segs (take i segs) @ KEY_SEPARATOR @ join_segs (drop i segs)"
      using join_segs_append [of "take i segs" "drop i segs"] by simp
    with Some a outs [of suffix] render_marker [OF i(3,2), of ?out] \<open>stop = i\<close> show ?thesis
      by (simp add: pr)
  qed
qed

lemma render_parse:
  assumes parse: "StateKey_parse tenant pipeline key = Some k"
    and ns: "key_namespace (row_base tenant pipeline) \<noteq> []" (is "?ns \<noteq> []")
  shows "render k = key"
proof -
  from parse obtain rest where rest: "key = ?ns @ KEY_SEPARATOR @ rest" "rest \<noteq> []"
    by (auto simp: StateKey_parse_def Let_def bind_eq_Some_conv strip_prefix_Some row_base_def
        split: option.splits if_splits)
  let ?segs = "split_sep rest"
  have hd: "join_segs ?segs = ?segs ! 0 @ (if length ?segs = 1 then [] else KEY_SEPARATOR @ join_segs (drop 1 ?segs))"
    by (cases "?segs") (simp_all add: join_segs_Cons)
  have strip: "Option.bind (strip_prefix ?ns key) (strip_prefix KEY_SEPARATOR) = Some rest"
    using rest by (simp add: strip_prefix_Some bind_eq_Some_conv)
  have "StateKey_parse tenant pipeline key =
      Some (if ?segs ! 0 = ''__replication__'' \<and> length ?segs = 1
            then with_suffix Replication (row_base tenant pipeline)
            else if ?segs ! 0 = ''__backfill__'' \<and> 1 < length ?segs then
              with_suffix (Backfill (join_segs (drop 1 ?segs))) (row_base tenant pipeline)
            else if ?segs ! 0 = ''__serve_backfill__'' \<and> 1 < length ?segs then
              with_suffix (ServeBackfill (join_segs (drop 1 ?segs))) (row_base tenant pipeline)
            else parse_row (row_base tenant pipeline) ?segs)"
    using rest(2) by (simp add: StateKey_parse_def Let_def strip flip: row_base_def)
  with parse have k: "k = (if ?segs ! 0 = ''__replication__'' \<and> length ?segs = 1
            then with_suffix Replication (row_base tenant pipeline)
            else if ?segs ! 0 = ''__backfill__'' \<and> 1 < length ?segs then
              with_suffix (Backfill (join_segs (drop 1 ?segs))) (row_base tenant pipeline)
            else if ?segs ! 0 = ''__serve_backfill__'' \<and> 1 < length ?segs then
              with_suffix (ServeBackfill (join_segs (drop 1 ?segs))) (row_base tenant pipeline)
            else parse_row (row_base tenant pipeline) ?segs)" by simp
  have "render k = ?ns @ KEY_SEPARATOR @ join_segs ?segs"
    unfolding k using hd render_parse_row [OF ns, of ?segs]
    by (auto simp: render_row_base render_into_def push_seg_nonempty ns)
  then show ?thesis by (simp add: rest(1))
qed

subsection \<open>Components\<close>

lemma plain_state_key_char: "plain_char c \<Longrightarrow> state_key_char c"
  by (auto simp: plain_char_def state_key_char_def)

lemma legal_state_key_char: "legal_char b c \<Longrightarrow> state_key_char c"
  by (auto simp: legal_char_def plain_char_def state_key_char_def)

lemma lower_hex_plain: "is_lower_hex c \<Longrightarrow> plain_char c"
  by (auto simp: is_lower_hex_def plain_char_def is_ascii_alphanumeric_def is_ascii_lower_def)

definition hash_part :: "string \<Rightarrow> string" where
  "hash_part raw = zero_pad 16 (show_hex (unat (fnv1a 0xcbf29ce484222325 raw)))"

lemma hash_part_hex: "list_all is_lower_hex (hash_part raw)" "hash_part raw \<noteq> []"
proof -
  show "list_all is_lower_hex (hash_part raw)"
    using show_hex_lower
    by (auto simp: hash_part_def zero_pad_def show_hex_def list_all_iff is_lower_hex_def is_ascii_digit_def)
  show "hash_part raw \<noteq> []" by (simp add: hash_part_def zero_pad_def show_hex_def)
qed

lemma hash_part_length: "length (hash_part raw) = 16"
proof -
  have "unat (fnv1a 0xcbf29ce484222325 raw) < 16 ^ Suc 15"
    using unat_u64_less [of "fnv1a 0xcbf29ce484222325 raw"] by simp
  then have "length (show_hex (unat (fnv1a 0xcbf29ce484222325 raw))) \<le> Suc 15"
    unfolding show_hex_def by (intro length_show_base_le) auto
  then show ?thesis by (simp add: hash_part_def length_zero_pad)
qed

lemma encode_cases:
  obtains (verbatim) "keeps_verbatim raw b" "encode_component raw b = raw"
  | (hashed) "encode_component raw b = take 32 (filter plain_char raw) @ ''.h'' @ hash_part raw"
  by (cases "keeps_verbatim raw b") (auto simp: encode_component_def hash_part_def)

lemma hashed_plain: "list_all plain_char (take 32 (filter plain_char raw) @ ''.h'' @ hash_part raw)"
proof -
  have "plain_char CHR ''.''" "plain_char CHR ''h''"
    by (simp_all add: plain_char_def is_ascii_alphanumeric_def is_ascii_lower_def)
  then show ?thesis
    using hash_part_hex(1) [of raw] lower_hex_plain by (auto simp: list_all_iff dest!: in_set_takeD)
qed

lemma contains_sep_colon: "contains_sep s \<Longrightarrow> CHR '':'' \<in> set s"
  by (induction s rule: contains_sep.induct) auto

lemma contains_sep_append: "contains_sep (u @ ''::'' @ v)"
proof (induction u)
  case (Cons a u)
  then show ?case by (cases u) auto
qed simp

lemma encode_no_sep: "\<not> contains_sep (encode_component raw b)"
proof (cases rule: encode_cases [of raw b])
  case verbatim
  then show ?thesis by (simp add: keeps_verbatim_def)
next
  case hashed
  have "\<not> plain_char CHR '':''"
    by (simp add: plain_char_def is_ascii_alphanumeric_def is_ascii_digit_def is_ascii_upper_def is_ascii_lower_def)
  then have "CHR '':'' \<notin> set (encode_component raw b)"
    unfolding hashed using hashed_plain [of raw] by (metis list_all_iff)
  then show ?thesis using contains_sep_colon by blast
qed

lemma encode_length: "length (encode_component raw b) \<le> COMPONENT_MAX"
  by (cases rule: encode_cases [of raw b])
    (auto simp: keeps_verbatim_def hash_part_length COMPONENT_MAX_def)

lemma marker_last: "m \<in> set MARKER_NAMES \<Longrightarrow> last m = CHR ''_''"
  by (auto simp: MARKER_NAMES_def)

lemma encode_marker: "is_marker_name (encode_component raw b) \<Longrightarrow> is_marker_name raw"
proof (cases rule: encode_cases [of raw b])
  case hashed
  have "last (encode_component raw b) = last (hash_part raw)"
    using hash_part_hex(2) [of raw] by (simp add: hashed)
  then have "is_lower_hex (last (encode_component raw b))"
    using hash_part_hex [of raw] by (auto simp: list_all_iff)
  moreover assume "is_marker_name (encode_component raw b)"
  ultimately have "is_lower_hex CHR ''_''" using marker_last by (metis is_marker_name_def)
  then show ?thesis by (simp add: is_lower_hex_def is_ascii_digit_def)
qed simp

lemma tagged_not_marker [simp]: "\<not> is_marker_name (CHR ''_'' # t # CHR ''.'' # raw)"
  by (auto simp: is_marker_name_def MARKER_NAMES_def)

lemma tagged_encodes: "\<exists>x. \<not> is_marker_name x \<and> encode_component (''_s.'' @ raw) True = encode_component x True"
  by (rule exI [of _ "''_s.'' @ raw"]) simp

lemma typed_string_encodes:
  assumes "\<not> is_marker_name raw"
  shows "\<exists>x. \<not> is_marker_name x \<and> typed_string raw = encode_component x True"
proof -
  have "typed_string raw = encode_component raw True \<or> typed_string raw = encode_component (''_s.'' @ raw) True"
    by (simp add: typed_string_def Let_def)
  then show ?thesis using assms tagged_encodes [of raw] by metis
qed

lemma render_parent_encodes:
  "\<exists>x. \<not> is_marker_name x \<and> render_sub (Parent raw) KEY_SCHEME_VERSION = encode_component x True"
  using typed_string_encodes [of raw] tagged_encodes [of raw] by (simp add: KEY_SCHEME_VERSION_def)

lemma render_parent_value_encodes:
  "\<exists>sub x. with_parent_value json_print v = set_sub sub \<and> \<not> is_marker_name x
     \<and> render_sub sub KEY_SCHEME_VERSION = encode_component x True"
proof (cases v)
  case (String s)
  have "with_parent_value json_print v = set_sub (Typed (typed_string s) s True)"
    by (simp add: with_parent_value_def String Let_def)
  moreover have "\<exists>x. \<not> is_marker_name x \<and>
      render_sub (Typed (typed_string s) s True) KEY_SCHEME_VERSION = encode_component x True"
    using typed_string_encodes [of s] tagged_encodes [of s] by (simp add: KEY_SCHEME_VERSION_def)
  ultimately show ?thesis by blast
qed (force simp: with_parent_value_def Let_def KEY_SCHEME_VERSION_def)+

text \<open>What the rendering of a child's component can never be: a marker of its row.\<close>

lemma component_not_suffix:
  assumes "\<not> is_marker_name x"
  shows "encode_component x True \<noteq> render_into suffix []"
proof
  assume eq: "encode_component x True = render_into suffix []"
  obtain m t where mt: "suffix_parts suffix = (m, t)" by (cases "suffix_parts suffix")
  have m: "is_marker_name m" "m \<noteq> []"
    using mt by (cases suffix; auto simp: is_marker_name_def MARKER_NAMES_def)+
  show False
  proof (cases t)
    case None
    with eq mt m have "is_marker_name (encode_component x True)"
      by (simp add: render_into_def push_seg_def)
    with encode_marker assms show False by blast
  next
    case (Some tail)
    with eq mt m have "encode_component x True = m @ ''::'' @ tail"
      by (simp add: render_into_def push_seg_def KEY_SEPARATOR_def)
    with encode_no_sep contains_sep_append show False by metis
  qed
qed

lemma render_into_push: "out \<noteq> [] \<Longrightarrow> render_into suffix out = out @ KEY_SEPARATOR @ render_into suffix []"
proof -
  assume out: "out \<noteq> []"
  have "fst (suffix_parts suffix) \<noteq> []" by (cases suffix) auto
  with out show ?thesis
    by (auto simp: render_into_def push_seg_def split: prod.split option.split)
qed

lemma render_invocation:
  "render (set_sub sub (StateKey_invocation p r)) = push_seg (push_seg p r) (render_sub sub KEY_SCHEME_VERSION)"
  "render (with_suffix suffix (StateKey_invocation p r)) = render_into suffix (push_seg p r)"
  by (simp_all add: key_builders StateKey_invocation_def push_seg_def)

lemma child_not_marker:
  assumes "\<not> is_marker_name x" "render_sub sub KEY_SCHEME_VERSION = encode_component x True"
  shows "render (set_sub sub (StateKey_invocation p r)) \<noteq> render (with_suffix suffix (StateKey_invocation p r))"
  using component_not_suffix [OF assms(1)] assms(2) render_into_push [of "push_seg p r" suffix]
  by (cases "push_seg p r = []") (auto simp: render_invocation push_seg_def)

subsection \<open>Validity\<close>

lemma split_on_nonempty [simp]: "split_on d s \<noteq> []"
  by (induction s) (auto split: list.split)

lemma split_on_no_sep: "d \<notin> set s \<Longrightarrow> split_on d s = [s]"
  by (induction s) auto

lemma split_on_append:
  "split_on d (s @ t) =
     butlast (split_on d s) @ [last (split_on d s) @ hd (split_on d t)] @ tl (split_on d t)"
  by (induction s) (auto split: list.split simp: neq_Nil_conv)

lemma bad_segment_iff: "bad_segment seg \<longleftrightarrow> seg = [] \<or> starts_with ''.'' seg"
  by (auto simp: bad_segment_def starts_with_def)

lemma good_segments:
  assumes "is_ok (validate_state_key key)"
  shows "\<forall>seg \<in> set (butlast (split_on CHR 0x2F key)). \<not> bad_segment seg"
    and "last (split_on CHR 0x2F key) = [] \<or> hd (last (split_on CHR 0x2F key)) \<noteq> CHR ''.''"
proof -
  have *: "\<not> list_ex bad_segment (split_on CHR 0x2F key)" if "CHR 0x2F \<in> set key"
    using assms that by (simp add: validate_state_key_iff)
  show "\<forall>seg \<in> set (butlast (split_on CHR 0x2F key)). \<not> bad_segment seg"
    using * split_on_no_sep [of "CHR 0x2F" key]
    by (cases "CHR 0x2F \<in> set key") (auto simp: list_ex_iff dest: in_set_butlastD)
  show "last (split_on CHR 0x2F key) = [] \<or> hd (last (split_on CHR 0x2F key)) \<noteq> CHR ''.''"
  proof (cases "CHR 0x2F \<in> set key")
    case True
    then have "\<not> bad_segment (last (split_on CHR 0x2F key))"
      using * by (auto simp: list_ex_iff)
    then show ?thesis by (cases "last (split_on CHR 0x2F key)") (auto simp: bad_segment_def starts_with_def)
  next
    case False
    with assms show ?thesis by (simp add: split_on_no_sep validate_state_key_iff)
  qed
qed

lemma component_segments:
  "\<forall>seg \<in> set (tl (split_on CHR 0x2F (encode_component raw b))). \<not> bad_segment seg"
proof (cases rule: encode_cases [of raw b])
  case verbatim
  then show ?thesis
    by (cases "CHR 0x2F \<in> set raw")
      (auto simp: keeps_verbatim_def split_on_no_sep list_all_iff bad_segment_iff
        dest: list.set_sel(2) [OF split_on_nonempty])
next
  case hashed
  have "\<not> plain_char CHR 0x2F"
    by (simp add: plain_char_def is_ascii_alphanumeric_def is_ascii_digit_def is_ascii_upper_def is_ascii_lower_def)
  then have "CHR 0x2F \<notin> set (encode_component raw b)"
    unfolding hashed using hashed_plain [of raw] by (metis list_all_iff)
  then show ?thesis by (simp add: split_on_no_sep)
qed

lemma encode_chars: "list_all state_key_char (encode_component raw b)"
proof (cases rule: encode_cases [of raw b])
  case verbatim
  then show ?thesis by (auto simp: keeps_verbatim_def list_all_iff legal_state_key_char)
next
  case hashed
  show ?thesis
    unfolding hashed using hashed_plain [of raw] plain_state_key_char by (metis (no_types) list.pred_mono_strong)
qed

lemma component_key_valid:
  assumes "is_ok (validate_state_key base)" "length base + 2 + COMPONENT_MAX \<le> 256"
  shows "is_ok (validate_state_key (base @ KEY_SEPARATOR @ encode_component raw b))"
proof -
  let ?c = "encode_component raw b"
  let ?key = "base @ KEY_SEPARATOR @ ?c"
  have sep: "split_on CHR 0x2F (KEY_SEPARATOR @ ?c) =
      (''::'' @ hd (split_on CHR 0x2F ?c)) # tl (split_on CHR 0x2F ?c)"
    by (simp add: KEY_SEPARATOR_def split: list.split)
  let ?mid = "last (split_on CHR 0x2F base) @ ''::'' @ hd (split_on CHR 0x2F ?c)"
  have segs: "split_on CHR 0x2F ?key = butlast (split_on CHR 0x2F base) @ [?mid] @ tl (split_on CHR 0x2F ?c)"
    by (subst split_on_append) (simp add: sep)
  have "\<not> bad_segment ?mid"
    using good_segments(2) [OF assms(1)]
    by (cases "last (split_on CHR 0x2F base)") (auto simp: bad_segment_def starts_with_def)
  then have "\<not> list_ex bad_segment (split_on CHR 0x2F ?key)"
    using good_segments(1) [OF assms(1)] component_segments [of raw b] by (auto simp: segs list_ex_iff)
  moreover have "list_all state_key_char KEY_SEPARATOR"
    by (simp add: KEY_SEPARATOR_def state_key_char_def)
  ultimately show ?thesis
    using assms encode_length [of raw b] encode_chars [of raw b]
    by (auto simp: validate_state_key_iff KEY_SEPARATOR_def)
qed

subsection \<open>Migration, export and import over any store\<close>

lemma btree_keys: "fst ` set (btree_insert k v m) = insert k (fst ` set m)"
  by (auto simp: btree_insert_def set_insort_key)

lemma distinct_filter_keys: "distinct (map fst m) \<Longrightarrow> distinct (map fst (filter P m))"
  by (induction m) auto

lemma filtered_key_absent: "k \<notin> fst ` set (filter (\<lambda>(k', _). k' \<noteq> k) m)"
  by auto

lemma distinct_btree_insert: "distinct (map fst m) \<Longrightarrow> distinct (map fst (btree_insert k v m))"
proof -
  have "distinct (map fst (insort_key fst (k, v) xs))" if "distinct (map fst xs)" "k \<notin> fst ` set xs" for xs
    using that by (induction xs) (auto simp: set_insort_key)
  from this [OF distinct_filter_keys filtered_key_absent] show "distinct (map fst m) \<Longrightarrow> ?thesis"
    by (simp add: btree_insert_def)
qed

lemma map_of_btree_insert: "map_of (btree_insert k v m) = (map_of m)(k \<mapsto> v)"
proof -
  have "map_of (insort_key fst (k, v) xs) = (map_of xs)(k \<mapsto> v)" if "k \<notin> fst ` set xs" for xs
    using that by (induction xs) (auto simp: fun_eq_iff)
  moreover have "map_of (filter (\<lambda>(k', _). k' \<noteq> k) m) = (map_of m)(k := None)"
    by (induction m) (auto simp: fun_eq_iff)
  ultimately show ?thesis using filtered_key_absent [of k m] by (simp add: btree_insert_def)
qed

lemma map_of_rev_distinct: "distinct (map fst m) \<Longrightarrow> map_of (rev m) = map_of m"
  by (rule map_of_inject_set [THEN iffD2]) (auto simp flip: rev_map)

lemma validate_export_keys_ok:
  "validate_export_keys pipeline ns ks = Ok u \<longleftrightarrow>
     (\<forall>k \<in> set ks. is_ok (validate_state_key k) \<and> starts_with ns k)"
  by (induction ks) (auto simp: res_bind_Ok_iff is_ok_iff)

lemma import_puts_error: "import_puts store es rep s = (rep', False, s') \<Longrightarrow> ir_error rep' \<noteq> None"
  by (induction store es rep s rule: import_puts.induct) (auto split: prod.splits sum.splits)

lemma import_write_error: "import_write store es s = (rep, False, s') \<Longrightarrow> ir_error rep \<noteq> None"
  by (auto simp: import_write_def Let_def split: if_splits prod.splits sum.splits dest: import_puts_error)

context kv_store
begin

lemma migrate_candidates_spec:
  assumes "inv s" "lookup s key = None" "migrate_candidates ops key cs s = (r, s')"
  shows "case r of
      Ok Fresh \<Rightarrow> s' = s \<and> (\<forall>c \<in> set cs. c \<noteq> key \<longrightarrow> lookup s c = None)
    | Ok MigCurrent \<Rightarrow> False
    | Ok (Moved old) \<Rightarrow>
        old \<in> set cs \<and> old \<noteq> key \<and> lookup s old \<noteq> None \<and> inv s' \<and> lookup s' key = lookup s old
        \<and> (lookup s' old = None \<or> lookup s' old = lookup s old)
        \<and> (\<forall>k. k \<noteq> key \<and> k \<noteq> old \<longrightarrow> lookup s' k = lookup s k)
    | Err _ \<Rightarrow> s' = s"
  using assms(3)
proof (induction cs)
  case Nil
  then show ?case by auto
next
  case (Cons old cs)
  show ?case
  proof (cases "old = key")
    case True
    with Cons show ?thesis by (auto split: sum.splits key_migration.splits)
  next
    case False
    show ?thesis
    proof (cases "so_get ops old s")
      case (Inl e)
      with Cons False show ?thesis by auto
    next
      case (Inr r1)
      then have r1: "r1 = lookup s old" using get_lookup assms(1) by blast
      show ?thesis
      proof (cases r1)
        case None
        with Cons False Inr r1 show ?thesis by (auto split: sum.splits key_migration.splits)
      next
        case (Some v)
        obtain b s1 where cas: "so_compare_and_put ops key None v s = (b, s1)" by fastforce
        show ?thesis
        proof (cases b)
          case (Inl e)
          with Cons.prems False Inr Some cas cas_err [OF assms(1) cas [unfolded Inl]] show ?thesis by auto
        next
          case b: (Inr ok)
          from cas_ok [OF assms(1) cas [unfolded b]] assms(2)
          have ok: "ok" and s1: "inv s1" "lookup s1 = (lookup s)(key \<mapsto> v)" by auto
          obtain d s2 where del: "so_delete ops old s1 = (d, s2)" by fastforce
          have "inv s2 \<and> (lookup s2 = (lookup s1)(old := None) \<or> lookup s2 = lookup s1)"
            using delete_ok [OF s1(1), of old] delete_err [OF s1(1), of old] del s1(1)
            by (cases d) blast+
          with Cons.prems False Inr Some cas b ok s1 del r1 show ?thesis by auto
        qed
      qed
    qed
  qed
qed

lemma import_puts_spec:
  "inv s \<Longrightarrow> import_puts ops es rep s = (rep', True, s') \<Longrightarrow>
   inv s' \<and> lookup s' = lookup s ++ map_of (rev es) \<and> ir_error rep' = ir_error rep
    \<and> ir_written rep' = ir_written rep @ map fst es"
proof (induction es arbitrary: rep s)
  case (Cons e es)
  obtain key v where e: "e = (key, v)" by (cases e)
  from Cons.prems obtain u s1 where p: "so_put ops key v s = (Ok u, s1)"
    by (auto simp: e split: prod.splits sum.splits)
  from put_ok [OF Cons.prems(1) p] have s1: "inv s1" "lookup s1 = (lookup s)(key \<mapsto> v)" by auto
  from Cons.IH [OF s1(1)] Cons.prems(2) p s1(2) show ?case
    by (fastforce simp: e map_add_def fun_eq_iff split: option.split)
qed auto

lemma import_deletes_spec:
  "inv s \<Longrightarrow> import_deletes ops ks rep s = (rep', s') \<Longrightarrow> ir_error rep' = None \<Longrightarrow>
   inv s' \<and> lookup s' = (\<lambda>k. if k \<in> set ks then None else lookup s k)
    \<and> ir_deleted rep' = ir_deleted rep @ ks"
proof (induction ks arbitrary: rep s)
  case (Cons key ks)
  from Cons.prems obtain u s1 where p: "so_delete ops key s = (Ok u, s1)"
    by (auto split: prod.splits sum.splits)
  from delete_ok [OF Cons.prems(1) p] have s1: "inv s1" "lookup s1 = (lookup s)(key := None)" by auto
  from Cons.IH [OF s1(1), of "rep\<lparr> ir_deleted := ir_deleted rep @ [key] \<rparr>"] Cons.prems(2,3) p s1(2)
  show ?case by (auto simp: fun_eq_iff)
qed auto

lemma export_keys_spec:
  "inv s \<Longrightarrow> export_keys ops s ks acc = Ok m \<Longrightarrow> distinct (map fst acc) \<Longrightarrow>
   distinct (map fst m) \<and> map_of m = map_of acc ++ (\<lambda>k. if k \<in> set ks then lookup s k else None)"
proof (induction ks arbitrary: acc)
  case (Cons key ks)
  from Cons.prems(2) obtain r where r: "so_get ops key s = Ok r"
    and rest: "export_keys ops s ks (case r of Some v \<Rightarrow> btree_insert key v acc | None \<Rightarrow> acc) = Ok m"
    by (auto simp: res_bind_Ok_iff)
  have "r = lookup s key" using get_lookup Cons.prems(1) r by blast
  with Cons.IH [OF Cons.prems(1) rest] Cons.prems(3) show ?case
    by (auto simp: map_of_btree_insert distinct_btree_insert map_add_def fun_eq_iff
        split: option.splits if_splits)
qed (auto simp: map_add_def)

lemma export_spec:
  assumes "inv s" "export_namespace ops pipeline s = Ok export"
  shows "distinct (map fst (se_keys export)) \<and> se_pipeline export = pipeline
    \<and> map_of (se_keys export) = (\<lambda>k. if starts_with (namespace_prefix pipeline) k then lookup s k else None)"
proof -
  from assms(2) obtain ks m where ks: "so_list ops (namespace_prefix pipeline) s = Ok ks"
    and m: "export_keys ops s ks [] = Ok m" and ex: "export = (StateExport_new pipeline)\<lparr> se_keys := m \<rparr>"
    by (auto simp: export_namespace_def res_bind_Ok_iff)
  from list_ok [OF assms(1) ks] export_keys_spec [OF assms(1) m] show ?thesis
    by (auto simp: ex StateExport_new_def map_add_def fun_eq_iff)
qed

end

context batch_kv_store
begin

lemma import_write_spec:
  assumes "inv s" "import_write ops es s = (rep, True, s')"
  shows "inv s' \<and> lookup s' = lookup s ++ map_of (rev es) \<and> ir_error rep = None \<and> ir_written rep = map fst es"
  using assms import_puts_spec [OF assms(1)] batch_ok [OF assms(1)]
  by (fastforce simp: import_write_def Let_def split: if_splits prod.splits sum.splits)

lemma import_spec:
  assumes "inv s" "distinct (map fst (se_keys export))"
    and imp: "import_namespace ops export True s = (Ok rep, s')" "ir_error rep = None"
  shows "inv s' \<and> lookup s' = (\<lambda>k. if starts_with (namespace_prefix (se_pipeline export)) k
      then map_of (se_keys export) k else lookup s k)"
proof -
  let ?ns = "namespace_prefix (se_pipeline export)"
  let ?m = "map_of (se_keys export)"
  from imp(1) obtain u where valid: "StateExport_validate export = Ok u"
    by (auto simp: import_namespace_def split: sum.splits)
  from imp(1) valid obtain ks where ks: "so_list ops ?ns s = Ok ks"
    by (auto simp: import_namespace_def res_bind_def split: sum.splits)
  let ?stale = "filter (\<lambda>k. k \<notin> fst ` set (se_keys export)) ks"
  obtain rep1 ok s1 where w: "import_write ops (se_keys export) s = (rep1, ok, s1)"
    by (cases "import_write ops (se_keys export) s")
  have ok: ok
  proof (rule ccontr)
    assume "\<not> ok"
    with imp valid ks w have "ir_error rep1 = None" by (simp add: import_namespace_def)
    with \<open>\<not> ok\<close> w show False using import_write_error [of ops "se_keys export" s rep1 s1] by simp
  qed
  from import_write_spec [OF assms(1)] w ok
  have s1: "inv s1" "lookup s1 = lookup s ++ map_of (rev (se_keys export))" "ir_error rep1 = None" by auto
  have del: "import_deletes ops ?stale rep1 s1 = (rep, s')"
    using imp(1) valid ks w ok by (auto simp: import_namespace_def split: prod.splits)
  from import_deletes_spec [OF s1(1) del imp(2)]
  have s': "inv s'" "lookup s' = (\<lambda>k. if k \<in> set ?stale then None else lookup s1 k)" by auto
  have keys: "starts_with ?ns k" if "k \<in> fst ` set (se_keys export)" for k
    using valid that by (auto simp: StateExport_validate_def res_bind_Ok_iff validate_export_keys_ok)
  have "lookup s' k = (if starts_with ?ns k then ?m k else lookup s k)" for k
    using list_ok [OF assms(1) ks] keys [of k] s'(2) s1(2) map_of_eq_None_iff [of "se_keys export" k]
      map_of_rev_distinct [OF assms(2)]
    by (auto simp: map_add_def split: option.splits)
  with s'(1) show ?thesis by auto
qed

end

subsection \<open>The in-memory store\<close>

lemma memory_deletes_ok:
  "\<forall>k \<in> set ks. is_ok (validate_state_key k) \<Longrightarrow>
   ir_error (fst (import_deletes MemoryStateStore ks rep m)) = ir_error rep"
  by (induction ks arbitrary: rep m) (auto simp: memory_delete_def is_ok_iff)

lemma memory_export_ok:
  assumes "\<forall>k \<in> set ks. is_ok (validate_state_key k)"
  shows "\<exists>keys. export_keys MemoryStateStore m ks acc = Ok keys"
  using assms by (induction ks arbitrary: acc) (auto simp: memory_get_def is_ok_iff)

lemma memory_import_ok:
  assumes inv: "memory_inv m" and valid: "StateExport_validate export = Ok u"
  shows "\<exists>rep m'. import_namespace MemoryStateStore export True m = (Ok rep, m') \<and> ir_error rep = None"
proof -
  let ?ks = "sort (filter (starts_with (namespace_prefix (se_pipeline export))) (map fst m))"
  let ?stale = "filter (\<lambda>k. k \<notin> fst ` set (se_keys export)) ?ks"
  have "validate_keys (se_keys export) = Ok ()"
    using valid
    by (force simp: StateExport_validate_def res_bind_Ok_iff validate_export_keys_ok validate_keys_ok)
  then have w: "\<exists>rep m1. import_write MemoryStateStore (se_keys export) m = (rep, True, m1) \<and> ir_error rep = None"
    by (auto simp: import_write_def Let_def memory_put_batch_def)
  then obtain rep m1 where w: "import_write MemoryStateStore (se_keys export) m = (rep, True, m1)"
    and none: "ir_error rep = None" by blast
  have "\<forall>k \<in> set ?stale. is_ok (validate_state_key k)"
    using inv by (auto simp: memory_inv_def)
  from memory_deletes_ok [OF this, of rep m1] none
  have "ir_error (fst (import_deletes MemoryStateStore ?stale rep m1)) = None" by simp
  with w valid show ?thesis
    by (cases "import_deletes MemoryStateStore ?stale rep m1")
      (auto simp: import_namespace_def memory_list_def)
qed

section \<open>Properties\<close>

text \<open>C26. Decoding a key and rendering the result gives the key back, for every tenant and pipeline whose
  namespace is not empty: the shard that a decoder cannot tell from a sub component stays in the text.\<close>

theorem parse_render_roundtrip:
  assumes "StateKey_parse tenant pipeline key = Some k" "pipeline \<noteq> []"
  shows "render k = key"
proof (rule render_parse [OF assms(1)])
  show "key_namespace (row_base tenant pipeline) \<noteq> []"
    using assms(2) by (simp add: row_base_namespace push_seg_def)
qed

theorem parse_render_roundtrip_witness:
  "render (the (StateKey_parse None ''p'' ''p::r::a::b::__rollback__::x'')) = ''p::r::a::b::__rollback__::x''"
  using parse_render_roundtrip [of None "''p''" "''p::r::a::b::__rollback__::x''"
      "the (StateKey_parse None ''p'' ''p::r::a::b::__rollback__::x'')"]
  by (simp add: StateKey_parse_def key_builders push_seg_def strip_prefix_def starts_with_def KEY_SEPARATOR_def)

text \<open>C27. The key of a child invocation is never the key of a marker of its row, whatever value its parent
  produced and of whatever JSON type, and it is a valid state key whenever the row's key is valid and
  leaves room for the component.\<close>

theorem child_key_safe:
  "render (with_parent_key raw (StateKey_invocation p r)) \<noteq> render (with_suffix suffix (StateKey_invocation p r))
   \<and> render (with_parent_value json_print v (StateKey_invocation p r))
       \<noteq> render (with_suffix suffix (StateKey_invocation p r))
   \<and> (is_ok (validate_state_key (render (StateKey_invocation p r)))
      \<and> length (render (StateKey_invocation p r)) + 2 + COMPONENT_MAX \<le> 256 \<longrightarrow>
      is_ok (validate_state_key (render (with_parent_key raw (StateKey_invocation p r))))
      \<and> is_ok (validate_state_key (render (with_parent_value json_print v (StateKey_invocation p r)))))"
proof -
  obtain x where x: "\<not> is_marker_name x" "render_sub (Parent raw) KEY_SCHEME_VERSION = encode_component x True"
    using render_parent_encodes by blast
  obtain sub y where y: "with_parent_value json_print v = set_sub sub" "\<not> is_marker_name y"
    "render_sub sub KEY_SCHEME_VERSION = encode_component y True"
    using render_parent_value_encodes by blast
  have row: "render (StateKey_invocation p r) = push_seg p r"
    by (simp add: key_builders StateKey_invocation_def push_seg_def)
  have ok: "is_ok (validate_state_key (push_seg (push_seg p r) (encode_component z True)))"
    if "is_ok (validate_state_key (push_seg p r))" "length (push_seg p r) + 2 + COMPONENT_MAX \<le> 256" for z
  proof -
    have "push_seg p r \<noteq> []" using that(1) by (auto simp: validate_state_key_def)
    then show ?thesis using component_key_valid [OF that, of z True] by (simp add: push_seg_nonempty)
  qed
  show ?thesis
    using child_not_marker [OF x] child_not_marker [OF y(2,3)] ok [of x] ok [of y]
    unfolding with_parent_key_def y(1) row render_invocation(1) x(2) y(3) by blast
qed

theorem child_key_safe_witness:
  "is_ok (validate_state_key (render (with_parent_key ''a b'' (StateKey_invocation ''p'' ''r''))))"
  using child_key_safe [of "''a b''" "''p''" "''r''"]
  by (simp add: StateKey_invocation_def key_builders push_seg_def KEY_SEPARATOR_def
      validate_state_key_def state_key_char_def is_ascii_alphanumeric_def is_ascii_lower_def
      starts_with_def COMPONENT_MAX_def)

text \<open>C28. Moving a value an earlier key scheme left behind: the current key is never overwritten when it
  holds a value; when a candidate's value is moved the current key holds it and the candidate is gone;
  when nothing is moved no candidate holds anything. Every other key is untouched.\<close>

theorem migrate_state_key_correct:
  assumes "memory_inv m" "migrate_state_key MemoryStateStore key cs m = (Ok r, m')"
  shows "case r of
      MigCurrent \<Rightarrow> m' = m \<and> map_of m key \<noteq> None
    | Fresh \<Rightarrow> m' = m \<and> (map_of m key = None \<or> cs = []) \<and> (\<forall>c \<in> set cs. map_of m c = None)
    | Moved old \<Rightarrow> old \<in> set cs \<and> map_of m key = None \<and> map_of m old \<noteq> None
        \<and> map_of m' = (map_of m)(key := map_of m old, old := None)"
proof (cases "cs = [] \<or> (\<exists>v. memory_get key m = Ok (Some v))")
  case True
  with assms(2) show ?thesis
    by (auto simp: migrate_state_key_def memory_get_def res_bind_Ok_iff split: if_splits)
next
  case False
  with assms(2) have g: "memory_get key m = Ok None" and c: "migrate_candidates MemoryStateStore key cs m = (Ok r, m')"
    by (auto simp: migrate_state_key_def split: sum.splits option.splits)
  have none: "map_of m key = None" using g by (auto simp: memory_get_def res_bind_Ok_iff)
  from memory.migrate_candidates_spec [OF assms(1) none c] show ?thesis
  proof (cases r)
    case (Moved old)
    have "map_of m' old = None"
      using c Moved none
      by (induction cs)
        (auto simp: memory_get_def memory_delete_def memory_compare_and_put_def delete_conv' res_bind_def
          split: if_splits sum.splits option.splits)
    with memory.migrate_candidates_spec [OF assms(1) none c] Moved none show ?thesis
      by (auto simp: fun_eq_iff)
  qed (use none in auto)
qed

theorem migrate_state_key_correct_witness:
  "map_of (snd (migrate_state_key MemoryStateStore ''n'' [''o''] [(''o'', Null)])) ''n'' = Some Null"
  using migrate_state_key_correct [of "[(''o'', Null)]" "''n''" "[''o'']" "Moved ''o''" "[(''n'', Null)]"]
  by (simp add: memory_inv_def migrate_state_key_def memory_get_def memory_delete_def memory_compare_and_put_def
      validate_state_key_def state_key_char_def is_ascii_alphanumeric_def is_ascii_lower_def starts_with_def)

text \<open>C29. Exporting a pipeline's namespace from one store and importing it with \<open>replace\<close> into another
  succeeds and leaves the namespace of the second exactly as it is in the first, stale keys removed and
  every key outside the namespace untouched.\<close>

theorem export_import_roundtrip:
  assumes "memory_inv a" "memory_inv b" "is_ok (validate_state_key pipeline)"
  shows "\<exists>export report b'.
      export_namespace MemoryStateStore pipeline a = Ok export
      \<and> import_namespace MemoryStateStore export True b = (Ok report, b')
      \<and> ir_error report = None \<and> memory_inv b'
      \<and> (\<forall>k. map_of b' k = (if starts_with (namespace_prefix pipeline) k then map_of a k else map_of b k))"
proof -
  let ?ks = "sort (filter (starts_with (namespace_prefix pipeline)) (map fst a))"
  have "\<forall>k \<in> set ?ks. is_ok (validate_state_key k)" using assms(1) by (auto simp: memory_inv_def)
  from memory_export_ok [OF this, of a "[]"] obtain export where
    ex: "export_namespace MemoryStateStore pipeline a = Ok export"
    by (auto simp: export_namespace_def memory_list_def)
  note spec = memory.export_spec [OF assms(1) ex]
  have key: "is_ok (validate_state_key k) \<and> starts_with (namespace_prefix pipeline) k"
    if "k \<in> fst ` set (se_keys export)" for k
    using that spec assms(1) map_of_eq_None_iff [of "se_keys export" k] map_of_eq_None_iff [of a k]
    by (auto simp: memory_inv_def split: if_splits)
  have "StateExport_validate export = Ok ()"
    using assms(3) key spec
    by (auto simp: StateExport_validate_def is_ok_iff validate_export_keys_ok res_bind_Ok_iff)
  from memory_import_ok [OF assms(2) this] obtain rep b' where
    im: "import_namespace MemoryStateStore export True b = (Ok rep, b')" "ir_error rep = None" by blast
  from memory_batch.import_spec [OF assms(2) _ im] spec
  have "memory_inv b' \<and> map_of b' = (\<lambda>k. if starts_with (namespace_prefix pipeline) k then map_of a k else map_of b k)"
    by (auto simp: fun_eq_iff)
  with ex im show ?thesis by auto
qed

theorem export_import_roundtrip_witness:
  "\<exists>export report b'.
      export_namespace MemoryStateStore ''p'' [(''p::r'', Null)] = Ok export
      \<and> import_namespace MemoryStateStore export True [(''p::s'', Null)] = (Ok report, b')
      \<and> map_of b' ''p::s'' = None"
  using export_import_roundtrip [of "[(''p::r'', Null)]" "[(''p::s'', Null)]" "''p''"]
  by (force simp: memory_inv_def namespace_prefix_def children_prefix_def key_builders push_seg_def
      KEY_SEPARATOR_def starts_with_def validate_state_key_def state_key_char_def is_ascii_alphanumeric_def
      is_ascii_lower_def)

end
