(* ===== verification/Pipeline_Run.thy ===== *)
theory Pipeline_Run
  imports Pipeline_Fast Cleanup State_Version State_Key
begin

section \<open>A pipeline run\<close>

text \<open>
  \<open>Pipeline::run\<close> of \<open>pipeline.rs\<close>: the gates, the move of an old state key, the resume from the state store and
  from the sink's watermark, the choice of the write path, the cleanup, the lifecycle of an overwrite and the
  completion of a run. Metrics, spans, the lag poller, round-trip recorders and declared column types are left
  out; a source gives no completeness signal, so a cleanup of a complete read never fires.
\<close>

record source_conn =
  cs_state :: source_state
  cs_consumes_destructively :: bool
  cs_state_key :: "string option"
  cs_legacy_state_keys :: "string list"
  cs_replay :: replay_guarantee
  cs_native_formats :: "native_format list"
  cs_columnar :: bool
  cs_drains_on_cancel :: bool

record sink_conn =
  cn_native_caps :: "native_load_capability list"
  cn_columnar :: bool
  cn_cleanup :: bool
  cn_atomicity :: batch_atomicity

text \<open>The sink layers of a governance value: their features, whether there are any, whether the sink has them.\<close>

record governance_layers =
  gl_features :: "feature list"
  gl_has_sink_layers :: bool
  gl_sink_built :: bool

record pipeline =
  pl_specs :: governance_specs
  pl_masking_retypes_by_value :: bool
  pl_has_store :: bool
  pl_dlq :: "dlq_config option"
  pl_allow_dlq_all_duplicates :: bool
  pl_adaptive :: "adaptive_config option"
  pl_resilience :: "resilience_policy option"
  pl_has_cancel :: bool
  pl_delivery :: delivery_mode
  pl_legacy_state_writes :: bool
  pl_cleanup :: "cleanup_policy option"
  pl_suppress_overwrite_lifecycle :: bool
  pl_governance :: "governance_layers option"
  pl_libs :: write_libs
  pl_json_print :: "value \<Rightarrow> string"
  pl_json_parse :: "string \<Rightarrow> value option"
  pl_cas :: "log \<Rightarrow> bool fres"
  pl_delete :: "log \<Rightarrow> unit fres"

subsection \<open>The features of a run and its path\<close>

definition governance_specs_of :: "pipeline \<Rightarrow> governance_specs" where
  "governance_specs_of p = (pl_specs p) \<lparr> gs_has_dlq := pl_dlq p \<noteq> None \<rparr>"

definition feature_table :: "env \<Rightarrow> sink_conn \<Rightarrow> pipeline \<Rightarrow> (bool \<times> feature) list" where
  "feature_table env sink p =
     [(gs_schema_drift (pl_specs p) \<noteq> None, SchemaDrift), (pl_adaptive p \<noteq> None, AdaptiveFeature),
      (pl_resilience p \<noteq> None, ResilienceFeature), (pl_cleanup p \<noteq> None, Cleanup),
      (sk_dedups_by_key env, KeyedWrites), (sk_is_overwrite env, OverwriteFeature),
      (sk_is_overwrite env \<and> pl_suppress_overwrite_lifecycle p, GroupedOverwrite),
      (pl_delivery p = ExactlyOnce, ExactlyOnceFeature),
      (map_option dc_on_batch_error (pl_dlq p) = Some Propagate, DlqPropagate),
      (map_option dc_on_batch_error (pl_dlq p) \<notin> {None, Some Propagate}, DlqAll),
      (pl_dlq p \<noteq> None \<and> cn_atomicity sink = PerRow, DlqPerRowSink),
      (gs_quality (pl_specs p) \<noteq> None, QualityFeature), (gs_contract (pl_specs p) \<noteq> None, ContractFeature),
      (gs_masking (pl_specs p) \<noteq> None, Masking),
      (gs_masking (pl_specs p) \<noteq> None \<and> pl_masking_retypes_by_value p, MaskingRetypesByValue)]"

definition compat_features :: "env \<Rightarrow> sink_conn \<Rightarrow> pipeline \<Rightarrow> feature list" where
  "compat_features env sink p =
     map snd (filter fst (feature_table env sink p)) @ (case pl_governance p of Some g \<Rightarrow> gl_features g | None \<Rightarrow> [])"

definition run_write_mode :: "env \<Rightarrow> write_mode" where
  "run_write_mode env = (if sk_is_overwrite env then Overwrite else Append)"

definition native_choice :: "env \<Rightarrow> source_conn \<Rightarrow> sink_conn \<Rightarrow> pipeline \<Rightarrow> native_plan option" where
  "native_choice env src sink p =
     (let cleared = clearance (governance_specs_of p) in
      if cs_native_formats src \<noteq> [] \<and> path_allowed Native (compat_features env sink p)
      then (case plan_native_transfer \<lparr> ni_source_formats = cs_native_formats src, ni_sink_caps = cn_native_caps sink,
                 ni_has_transforms = False, ni_has_governance = \<not> cleared, ni_delivery = pl_delivery p,
                 ni_write_mode = run_write_mode env, ni_has_dlq = pl_dlq p \<noteq> None \<rparr> of
              Some plan \<Rightarrow> if cleared then Some plan else None
            | None \<Rightarrow> None)
      else None)"

definition columnar_choice :: "env \<Rightarrow> source_conn \<Rightarrow> sink_conn \<Rightarrow> pipeline \<Rightarrow> bool" where
  "columnar_choice env src sink p =
     (cs_columnar src \<and> cn_columnar sink \<and> path_allowed Columnar (compat_features env sink p))"

subsection \<open>Gates and resume\<close>

definition destructive_refusal :: "source_conn \<Rightarrow> faucet_error" where
  "destructive_refusal src = Config (''write_mode: overwrite cannot read from source '' @ Contract.quoted (src_connector_name (cs_state src))
     @ '': it removes each page from its backend once the page is written into the staging copy, and a failed or cancelled run discards staging, losing those records for good'')"

definition unbuilt_layers :: faucet_error where
  "unbuilt_layers = Config ''governance has sink-side passes (policy, profiling, metadata columns or a budget) but the sink was not built with Governance::sink_builder, so they would not apply''"

definition run_gates :: "env \<Rightarrow> source_conn \<Rightarrow> sink_conn \<Rightarrow> pipeline \<Rightarrow> unit fres" where
  "run_gates env src sink p =
     (if sk_is_overwrite env \<and> cs_consumes_destructively src then Err (destructive_refusal src)
      else if (case pl_governance p of Some g \<Rightarrow> gl_has_sink_layers g \<and> \<not> gl_sink_built g | None \<Rightarrow> False) then Err unbuilt_layers
      else (case pl_dlq p of
              Some dlq \<Rightarrow> check_dlq_all_policy (sk_name env) (cn_atomicity sink) (sk_dedups_by_key env)
                 (dc_on_batch_error dlq) (pl_allow_dlq_all_duplicates p)
            | None \<Rightarrow> Ok ()))"

text \<open>The state store as the engine sees it: reads answer from the history, writes are logged.\<close>

definition log_store :: "env \<Rightarrow> pipeline \<Rightarrow> log store_ops" where
  "log_store env p =
     \<lparr> so_get = (\<lambda>key l. ss_get env (StateGet key # l)),
       so_put = (\<lambda>key v. perform (StatePut key v) (ss_put env)),
       so_delete = (\<lambda>key. perform (StateDelete key) (pl_delete p)),
       so_supports_list = False, so_list = default_list,
       so_supports_compare_and_put = True,
       so_compare_and_put = (\<lambda>key expected v. perform (StateCas key v) (pl_cas p)),
       so_supports_atomic_batch = False,
       so_put_batch = default_put_batch (\<lambda>key v. perform (StatePut key v) (ss_put env)) \<rparr>"

definition migrate_legacy :: "env \<Rightarrow> source_conn \<Rightarrow> pipeline \<Rightarrow> (log, unit) op" where
  "migrate_legacy env src p =
     (case (pl_has_store p, cs_state_key src) of
        (True, Some key) \<Rightarrow>
          if cs_legacy_state_keys src = [] then ret ()
          else op_bind (migrate_state_key (log_store env p) key (cs_legacy_state_keys src)) (\<lambda>_. ret ())
      | _ \<Rightarrow> ret ())"

definition check_legacy_codec :: "source_conn \<Rightarrow> pipeline \<Rightarrow> unit fres" where
  "check_legacy_codec src p =
     (let codec = StateCodec_for_source (cs_state src) (pl_legacy_state_writes p) in
      if sc_legacy codec \<and> 0 < sc_schema codec
      then Err (incompatible (case cs_state_key src of Some k \<Rightarrow> k | None \<Rightarrow> [])
             (''a reader that predates versioned state (bare '' @ Contract.quoted (sc_owner codec) @ '' bookmarks)'')
             (Contract.quoted (sc_owner codec) @ '' state schema '' @ show_u32 (sc_schema codec)))
      else Ok ())"

definition apply_bookmark :: "env \<Rightarrow> value \<Rightarrow> (log, unit) op" where
  "apply_bookmark env b = perform (StartBookmark b) (so_apply_start_bookmark env)"

definition resume_from_state :: "env \<Rightarrow> source_conn \<Rightarrow> pipeline \<Rightarrow> (log, u64) op" where
  "resume_from_state env src p =
     (case (pl_has_store p, cs_state_key src) of
        (True, Some key) \<Rightarrow>
          op_bind (lift_result (validate_state_key key)) (\<lambda>_.
          op_bind (perform (StateGet key) (ss_get env)) (\<lambda>stored.
            case stored of
              None \<Rightarrow> ret 0
            | Some st \<Rightarrow>
                op_bind (lift_result (resolve_for_source key st (cs_state src))) (\<lambda>rs.
                  if pl_delivery p = ExactlyOnce
                  then (case unwrap_state (rs_data rs) of (bookmark, seq) \<Rightarrow>
                          op_seq (case bookmark of Some b \<Rightarrow> apply_bookmark env b | None \<Rightarrow> ret ()) (ret seq))
                  else op_seq (apply_bookmark env (rs_data rs)) (ret 0))))
      | _ \<Rightarrow> ret 0)"

definition resume_from_sink :: "env \<Rightarrow> source_conn \<Rightarrow> pipeline \<Rightarrow> u64 \<Rightarrow> (log, u64) op" where
  "resume_from_sink env src p start_seq =
     (case cs_state_key src of
        Some key \<Rightarrow>
          if pl_delivery p = ExactlyOnce \<and> sk_supports_idempotent_writes env \<and> cs_replay src = Deterministic
          then op_bind (read_token env key) (\<lambda>token.
                 case Option.bind token (parse_token_parts (pl_json_parse p)) of
                   Some (sink_seq, Some b) \<Rightarrow>
                     if start_seq < sink_seq then op_seq (apply_bookmark env b) (ret sink_seq) else ret start_seq
                 | _ \<Rightarrow> ret start_seq)
          else ret start_seq
      | None \<Rightarrow> ret start_seq)"

definition prepare_run :: "env \<Rightarrow> source_conn \<Rightarrow> sink_conn \<Rightarrow> pipeline \<Rightarrow> (log, u64) op" where
  "prepare_run env src sink p =
     op_bind (lift_result (run_gates env src sink p)) (\<lambda>_.
     op_bind (migrate_legacy env src p) (\<lambda>_.
     op_bind (lift_result (check_legacy_codec src p)) (\<lambda>_.
     op_bind (resume_from_state env src p) (resume_from_sink env src p))))"

definition stream_options :: "source_conn \<Rightarrow> pipeline \<Rightarrow> u64 \<Rightarrow> run_options" where
  "stream_options src p start_seq =
     \<lparr> ro_specs = pl_specs p, ro_has_store = pl_has_store p \<and> cs_state_key src \<noteq> None,
       ro_state_key = (if pl_has_store p then cs_state_key src else None), ro_dlq = pl_dlq p,
       ro_has_cancel = pl_has_cancel p, ro_source_drains = pl_has_cancel p \<and> cs_drains_on_cancel src,
       ro_delivery = pl_delivery p, ro_replay = Some (cs_replay src), ro_start_seq = start_seq,
       ro_adaptive = pl_adaptive p, ro_resilience = pl_resilience p, ro_json_print = pl_json_print p \<rparr>"

subsection \<open>The cleanup\<close>

text \<open>What the tracking sink records of a call: the rows of a write the sink accepted, and of every partial write.\<close>

fun recorded_rows :: "env \<Rightarrow> log \<Rightarrow> value list option" where
  "recorded_rows env (SinkWrite rs # l) = (if is_ok (sk_write_governed env (SinkWrite rs # l)) then Some rs else None)"
| "recorded_rows env (SinkIdempotent rs scope token # l) =
     (if is_ok (sk_write_idempotent env (SinkIdempotent rs scope token # l)) then Some rs else None)"
| "recorded_rows env (SinkPartial rs # l) = Some rs"
| "recorded_rows env _ = None"

text \<open>The pages recorded since the log had \<open>n\<close> events, the first one first.\<close>

fun recorded_pages :: "env \<Rightarrow> nat \<Rightarrow> log \<Rightarrow> value list list" where
  "recorded_pages env n [] = []"
| "recorded_pages env n (ev # l) =
     (if length l < n then []
      else recorded_pages env n l @ (case recorded_rows env (ev # l) of Some rs \<Rightarrow> [rs] | None \<Rightarrow> []))"

definition is_cancelled :: "env \<Rightarrow> pipeline \<Rightarrow> log \<Rightarrow> bool" where
  "is_cancelled env p l = (pl_has_cancel p \<and> pg_is_cancelled env l)"

definition cleanup_of :: "pipeline \<Rightarrow> cleanup_policy option" where
  "cleanup_of p =
     (case pl_cleanup p of Some c \<Rightarrow> if cl_trigger c = CompleteRead then None else Some c | None \<Rightarrow> None)"

definition cleanup_stage :: "env \<Rightarrow> pipeline \<Rightarrow> cleanup_policy \<Rightarrow> nat \<Rightarrow> pipeline_result \<Rightarrow> (engine, pipeline_result) op" where
  "cleanup_stage env p policy n res =
     op_bind (gets en_log) (\<lambda>l.
       if is_cancelled env p l then ret res
       else op_bind (lift_result (tracker_keys policy
               (record_pages (pl_libs p) (cl_key policy) (cl_max_keys policy) (recorded_pages env n l)))) (\<lambda>keys.
            op_bind (io (perform (SinkCleanup (cl_scope policy) keys) (sk_cleanup_scope env))) (\<lambda>_.
            ret res)))"

definition no_cleanup_support :: "env \<Rightarrow> faucet_error" where
  "no_cleanup_support env = Config (''cleanup is configured but sink '' @ Contract.quoted (sk_name env) @ '' does not support scoped cleanup'')"

subsection \<open>The overwrite\<close>

definition publish_bookmark :: "env \<Rightarrow> source_conn \<Rightarrow> pipeline \<Rightarrow> pipeline_result \<Rightarrow> (engine, unit) op" where
  "publish_bookmark env src p res =
     (case (pl_has_store p, cs_state_key src, pr_bookmark res) of
        (True, Some key, Some b) \<Rightarrow> io (state_put env key b)
      | _ \<Rightarrow> ret ())"

definition overwrite_stage :: "env \<Rightarrow> source_conn \<Rightarrow> pipeline \<Rightarrow> pipeline_result fres \<Rightarrow> (engine, pipeline_result) op" where
  "overwrite_stage env src p r =
     op_bind (gets en_log) (\<lambda>l.
       case r of
         Ok res \<Rightarrow>
           if is_cancelled env p l then op_seq (attempt (io (perform AbortOverwrite (sk_abort_overwrite env)))) (ret res)
           else op_seq (io (perform CommitOverwrite (sk_commit_overwrite env)))
                (op_seq (publish_bookmark env src p res) (ret res))
       | Err e \<Rightarrow> op_seq (attempt (io (perform AbortOverwrite (sk_abort_overwrite env)))) (throw e))"

definition overwriting :: "env \<Rightarrow> pipeline \<Rightarrow> bool" where
  "overwriting env p \<longleftrightarrow> sk_is_overwrite env \<and> \<not> pl_suppress_overwrite_lifecycle p"

text \<open>What follows the stream of the row path: the cleanup of a successful run, whose error returns at once, then
  the overwrite.\<close>

definition after_stream ::
    "env \<Rightarrow> source_conn \<Rightarrow> pipeline \<Rightarrow> nat \<Rightarrow> pipeline_result fres \<Rightarrow> (engine, pipeline_result) op" where
  "after_stream env src p n r =
     op_bind (case (cleanup_of p, r) of
                (Some policy, Ok res) \<Rightarrow> op_bind (cleanup_stage env p policy n res) (\<lambda>res. ret (Ok res))
              | _ \<Rightarrow> ret r)
       (\<lambda>r. if overwriting env p then overwrite_stage env src p r else lift_result r)"

definition row_path ::
    "env \<Rightarrow> source_conn \<Rightarrow> sink_conn \<Rightarrow> pipeline \<Rightarrow> row_accounts option \<Rightarrow> u64 \<Rightarrow> log \<Rightarrow> (pipeline_result fres \<times> engine) option" where
  "row_path env src sink p accounts start_seq l =
     (let opts = stream_options src p start_seq in
      if cleanup_of p \<noteq> None \<and> \<not> cn_cleanup sink
      then Some (Err (no_cleanup_support env), initial_engine opts accounts l)
      else case (if overwriting env p then perform BeginOverwrite (sk_begin_overwrite env) l else (Ok (), l)) of
        (Err e, l1) \<Rightarrow> Some (Err e, initial_engine opts accounts l1)
      | (Ok _, l1) \<Rightarrow>
          (case run_stream_with env opts accounts l1 of
             None \<Rightarrow> None
           | Some (r, w) \<Rightarrow> Some (after_stream env src p (length l1) r w)))"

subsection \<open>The run\<close>

definition complete_stage :: "env \<Rightarrow> pipeline \<Rightarrow> pipeline_result fres \<Rightarrow> (engine, pipeline_result) op" where
  "complete_stage env p r =
     op_bind (gets en_log) (\<lambda>l.
       case r of
         Ok res \<Rightarrow> if is_cancelled env p l then ret res
                   else op_seq (io (perform CompleteRun (sk_complete_run env))) (ret res)
       | Err e \<Rightarrow> throw e)"

definition transfer ::
    "env \<Rightarrow> source_conn \<Rightarrow> sink_conn \<Rightarrow> pipeline \<Rightarrow> row_accounts option \<Rightarrow> u64 \<Rightarrow> log \<Rightarrow> (pipeline_result fres \<times> engine) option" where
  "transfer env src sink p accounts start_seq l =
     (if native_choice env src sink p \<noteq> None
      then run_stream_native env (stream_options src p start_seq) (sk_is_overwrite env) accounts l
      else if columnar_choice env src sink p then run_stream_columnar env (stream_options src p start_seq) accounts l
      else row_path env src sink p accounts start_seq l)"

definition Pipeline_run ::
    "env \<Rightarrow> source_conn \<Rightarrow> sink_conn \<Rightarrow> pipeline \<Rightarrow> row_accounts option \<Rightarrow> log \<Rightarrow> (pipeline_result fres \<times> engine) option" where
  "Pipeline_run env src sink p accounts l =
     (case prepare_run env src sink p l of
        (Err e, l1) \<Rightarrow> Some (complete_stage env p (Err e) (initial_engine (stream_options src p 0) accounts l1))
      | (Ok start_seq, l1) \<Rightarrow>
          (case transfer env src sink p accounts start_seq l1 of
             None \<Rightarrow> None
           | Some (r, w) \<Rightarrow> Some (complete_stage env p r w)))"

section \<open>Lemmas\<close>

subsection \<open>Before the transfer\<close>

fun prelude_event :: "event \<Rightarrow> bool" where
  "prelude_event (StateGet k) = True"
| "prelude_event (StateCas k v) = True"
| "prelude_event (StateDelete k) = True"
| "prelude_event (StartBookmark b) = True"
| "prelude_event (SinkToken k) = True"
| "prelude_event _ = False"

lemma migrate_candidates_adds: "adds prelude_event (migrate_candidates (log_store env p) key cs)"
proof (induction cs)
  case (Cons c cs)
  have step: "grows (\<lambda>l. l) prelude_event pure_log l (snd (migrate_candidates (log_store env p) key (c # cs) l))" for l
  proof -
    have rest: "grows (\<lambda>l. l) prelude_event pure_log l (snd (migrate_candidates (log_store env p) key cs l))"
      using Cons unfolding moves_def by (rule spec)
    moreover have "grows (\<lambda>l. l) prelude_event pure_log l (StateCas key v # l)"
        "grows (\<lambda>l. l) prelude_event pure_log l (StateDelete c # StateCas key v # l)" for v
      by (auto simp: grows_def pure_log_def intro: exI [of _ "[StateCas key v]"] exI [of _ "[StateDelete c, StateCas key v]"])
    ultimately show ?thesis
      by (auto simp: log_store_def perform_def grows.refl split: sum.split option.split bool.split)
  qed
  then show ?case unfolding moves_def by (rule allI)
qed (simp add: moves_def grows_def)

lemma prepare_adds: "adds prelude_event (prepare_run env src sink p)"
proof -
  have migrate: "adds prelude_event (migrate_state_key (log_store env p) key cs)" for key cs
    using migrate_candidates_adds [of env p key cs]
    by (auto simp: moves_def migrate_state_key_def grows.refl split: sum.split option.split)
  have "adds prelude_event (migrate_legacy env src p)"
    unfolding migrate_legacy_def by (auto intro!: grows.rules migrate split: option.split bool.split)
  moreover have "adds prelude_event (resume_from_state env src p)"
    unfolding resume_from_state_def apply_bookmark_def
    by (auto intro!: grows.rules adds_perform split: option.split bool.split prod.split)
  moreover have "adds prelude_event (resume_from_sink env src p start_seq)" for start_seq
    unfolding resume_from_sink_def apply_bookmark_def read_token_def
    by (auto intro!: grows.rules adds_perform split: option.split bool.split prod.split)
  ultimately show ?thesis unfolding prepare_run_def by (intro grows.rules)
qed

lemma prepare_prelude: "prepare_run env src sink p [] = (r, l) \<Longrightarrow> list_all prelude_event l"
  using prepare_adds [of env src sink p] unfolding moves_def grows_def by (metis append_Nil2 snd_conv)

lemma prelude_invs:
  assumes "list_all prelude_event l"
  shows "loop_inv env opts l" "flush_inv env b l" "list_all unfinal l"
proof -
  from assms have quiet: "list_all (\<lambda>ev. \<not> is_put ev \<and> \<not> is_dlq_write ev \<and> ev \<noteq> SinkFlush) l"
    by (rule list.pred_mono_strong) (auto elim!: prelude_event.elims)
  then show "list_all unfinal l" by (rule list.pred_mono_strong) (simp add: unfinal_def)
  from quiet show "flush_inv env b l"
    by (induction l) (auto simp: flush_inv_nil intro!: flush_inv_event)
  from quiet show "loop_inv env opts l"
    using loop_inv_page_events [of env opts "[]" l] by (auto simp: loop_inv_def list_all_iff)
qed

subsection \<open>The choice of the path\<close>

lemma disables: "\<lparr> cr_feature = f, cr_target = PathTarget q, cr_verdict = DisablesPath \<rparr> \<in> set RULES \<Longrightarrow>
    path_allowed q features \<Longrightarrow> f \<notin> set features"
  by (rule disabled_path) (auto dest: verdict_of_rule)

lemma native_allowed:
  assumes "path_allowed Native features" "f \<in> {SchemaDrift, AdaptiveFeature, ResilienceFeature, Cleanup, KeyedWrites,
      GroupedOverwrite, ExactlyOnceFeature, DlqPropagate, DlqAll, QualityFeature, ContractFeature, Masking}"
  shows "f \<notin> set features"
  using assms(2)
  by (intro disables [OF _ assms(1)]) (auto simp: RULES_def NATIVE_RULES_def path_rule_def)

lemma columnar_allowed:
  assumes "path_allowed Columnar features" "f \<in> {MaskingRetypesByValue, DlqAll, DlqPerRowSink, ExactlyOnceFeature,
      OverwriteFeature, GroupedOverwrite, AdaptiveFeature, ResilienceFeature, Cleanup}"
  shows "f \<notin> set features"
  using assms(2)
  by (intro disables [OF _ assms(1)]) (auto simp: RULES_def COLUMNAR_RULES_def path_rule_def)

lemma feature_off: "(b, f) \<in> set (feature_table env sink p) \<Longrightarrow> f \<notin> set (compat_features env sink p) \<Longrightarrow> \<not> b"
  by (force simp: compat_features_def)

subsection \<open>What follows the stream\<close>

lemma overwrite_not_columnar: "sk_is_overwrite env \<Longrightarrow> \<not> columnar_choice env src sink p"
  using feature_off [of "sk_is_overwrite env" OverwriteFeature env sink p] columnar_allowed [of "compat_features env sink p" OverwriteFeature]
  by (auto simp: columnar_choice_def feature_table_def)

lemma native_no_dlq: "native_choice env src sink p \<noteq> None \<Longrightarrow> pl_dlq p = None"
  by (auto simp: native_choice_def plan_native_transfer_def Let_def split: if_splits option.splits)

text \<open>What the cleanup and the completion add.\<close>

lemma cleanup_stage_cases:
  assumes "cleanup_stage env p policy n res w = (r, w')"
  obtains "is_cancelled env p (en_log w)" "r = Ok res" "w' = w"
  | "\<not> is_cancelled env p (en_log w)" "r = Err (overflow_error (cl_max_keys policy))" "w' = w"
  | keys where "\<not> is_cancelled env p (en_log w)" "en_log w' = SinkCleanup (cl_scope policy) keys # en_log w"
      "tracker_keys policy (record_pages (pl_libs p) (cl_key policy) (cl_max_keys policy) (recorded_pages env n (en_log w))) = Ok keys"
      "is_ok r \<longrightarrow> r = Ok res"
  using assms
  by (auto simp: cleanup_stage_def op_defs io_def tracker_keys_def is_ok_def split: if_splits sum.splits prod.splits)

lemma complete_stage_log:
  assumes "complete_stage env p r w = (r', w')"
  shows "w' = w \<and> r' = r \<and> (is_ok r \<longrightarrow> is_cancelled env p (en_log w))
    \<or> (\<exists>res. r = Ok res) \<and> \<not> is_cancelled env p (en_log w) \<and> en_log w' = CompleteRun # en_log w \<and> (is_ok r' \<longrightarrow> r' = r)"
  using assms by (cases r) (auto simp: complete_stage_def op_defs io_def is_ok_def split: if_splits sum.splits prod.splits)

lemma run_stages:
  assumes "Pipeline_run env src sink p accounts [] = Some (r, w)"
  obtains (unprepared) e l where "prepare_run env src sink p [] = (Err e, l)" "r = Err e" "en_log w = l"
  | (transferred) seq l r1 w1 where "prepare_run env src sink p [] = (Ok seq, l)"
      "transfer env src sink p accounts seq l = Some (r1, w1)" "complete_stage env p r1 w1 = (r, w)"
proof (cases "prepare_run env src sink p []")
  case (Pair r0 l)
  show ?thesis
  proof (cases r0)
    case (Inl e)
    with Pair assms have "r = Err e" "en_log w = l"
      by (auto simp: Pipeline_run_def complete_stage_def op_defs initial_engine_def)
    with Pair Inl unprepared show ?thesis by blast
  next
    case (Inr seq)
    with Pair assms transferred show ?thesis by (auto simp: Pipeline_run_def split: option.splits prod.splits)
  qed
qed

lemma row_path_cases:
  assumes "row_path env src sink p accounts seq l = Some (r, w)"
  obtains (refused) "\<not> is_ok r" "en_log w = l"
  | (unstarted) "overwriting env p" "\<not> is_ok r" "en_log w = BeginOverwrite # l"
  | (streamed) l1 r1 w1 where "l1 = (if overwriting env p then BeginOverwrite # l else l)"
      "run_stream_with env (stream_options src p seq) accounts l1 = Some (r1, w1)"
      "after_stream env src p (length l1) r1 w1 = (r, w)"
proof (cases "cleanup_of p \<noteq> None \<and> \<not> cn_cleanup sink")
  case True
  with assms have "r = Err (no_cleanup_support env)" "en_log w = l" by (auto simp: row_path_def initial_engine_def Let_def)
  with refused show ?thesis by (simp add: is_ok_def)
next
  case allowed: False
  show ?thesis
  proof (cases "overwriting env p")
    case True
    with allowed assms unstarted streamed [of "BeginOverwrite # l"] show ?thesis
      by (auto simp: row_path_def perform_def initial_engine_def is_ok_def Let_def split: sum.splits option.splits prod.splits)
  next
    case False
    with allowed assms streamed [of l] show ?thesis by (auto simp: row_path_def Let_def split: option.splits prod.splits)
  qed
qed

lemma after_stream_plain:
  assumes "\<not> overwriting env p" "after_stream env src p n r w = (r', w')"
  shows "en_log w' = en_log w \<or> (\<exists>scope keys. en_log w' = SinkCleanup scope keys # en_log w)"
proof -
  consider (clean) policy res where "cleanup_of p = Some policy" "r = Ok res" | (skip) "after_stream env src p n r w = (r, w)"
    using assms(1) by (cases "cleanup_of p"; cases r) (auto simp: after_stream_def op_defs)
  then show ?thesis
  proof cases
    case clean
    obtain r1 w1 where stage: "cleanup_stage env p policy n res w = (r1, w1)" by (cases "cleanup_stage env p policy n res w")
    then have "w' = w1" using assms clean by (auto simp: after_stream_def op_defs split: sum.splits)
    then show ?thesis using cleanup_stage_cases [OF stage] by metis
  next
    case skip
    with assms(2) show ?thesis by simp
  qed
qed

subsection \<open>The lifecycle of an overwrite\<close>

lemma overwrite_stage_cases:
  assumes "overwrite_stage env src p r w = (r', w')"
  obtains (aborted) "en_log w' = AbortOverwrite # en_log w" "r' = r" "is_ok r \<longrightarrow> is_cancelled env p (en_log w)"
  | (committed) puts where "\<not> is_cancelled env p (en_log w)" "en_log w' = puts @ CommitOverwrite # en_log w"
      "list_all is_put puts" "length puts \<le> 1"
      "is_ok r' \<or> puts \<noteq> [] \<longrightarrow> is_ok (sk_commit_overwrite env (CommitOverwrite # en_log w))"
proof (cases "is_ok r \<and> \<not> is_cancelled env p (en_log w)")
  case False
  then have "overwrite_stage env src p r w = (r, w \<lparr> en_log := AbortOverwrite # en_log w \<rparr>)"
    by (cases r) (auto simp: overwrite_stage_def op_defs io_def is_ok_def)
  with assms False aborted show ?thesis by auto
next
  case True
  then obtain res where res: "r = Ok res" by (cases r) (auto simp: is_ok_def)
  let ?l = "CommitOverwrite # en_log w" and ?w = "w \<lparr> en_log := CommitOverwrite # en_log w \<rparr>"
  show ?thesis
  proof (cases "sk_commit_overwrite env ?l")
    case (Inl e)
    with True res assms have "r' = Err e" "en_log w' = ?l"
      by (auto simp: overwrite_stage_def op_defs io_def split: if_splits)
    with True committed [of "[]"] show ?thesis by (simp add: is_ok_def)
  next
    case (Inr u)
    then have ok: "is_ok (sk_commit_overwrite env ?l)" by (simp add: is_ok_def)
    obtain r2 w2 where pub: "publish_bookmark env src p res ?w = (r2, w2)" by (cases "publish_bookmark env src p res ?w")
    then have puts: "en_log w2 = ?l \<or> (\<exists>k b. en_log w2 = StatePut k b # ?l)"
      by (auto simp: publish_bookmark_def ret_def io_def state_put_def perform_def split: option.splits bool.splits)
    have "w' = w2" using True res Inr pub assms
      by (auto simp: overwrite_stage_def op_defs io_def split: if_splits sum.splits)
    with puts True ok committed [of "[]"] committed [of "[StatePut _ _]"] show ?thesis by auto
  qed
qed

text \<open>The events of the run between the begin of an overwrite and its end.\<close>

definition staged :: "event \<Rightarrow> bool" where
  "staged ev \<longleftrightarrow> stream_event ev \<and> \<not> is_put ev"

lemma overwriting_stream:
  assumes "run_stream_with env (stream_options src p seq) accounts (BeginOverwrite # l) = Some (r, w)"
    "sk_is_overwrite env" "list_all prelude_event l"
  shows "\<exists>mid. en_log w = mid @ BeginOverwrite # l \<and> list_all staged mid"
proof -
  have "loop_inv env (stream_options src p seq) (BeginOverwrite # l)"
    using prelude_invs(1) [OF assms(3), of env "stream_options src p seq"] by (simp add: loop_inv_def)
  from run_inv [OF assms(1) this] assms(2) have "list_all (\<lambda>ev. \<not> is_put ev) (en_log w)" by (simp add: loop_inv_def)
  with run_adds [OF assms(1)] show ?thesis by (auto simp: staged_def list_all_iff)
qed

definition discarded :: "env \<Rightarrow> pipeline \<Rightarrow> pipeline_result fres \<Rightarrow> log \<Rightarrow> log \<Rightarrow> bool" where
  "discarded env p r base l \<longleftrightarrow> l = AbortOverwrite # base \<and> (is_ok r \<longrightarrow> is_cancelled env p base)"

definition published :: "env \<Rightarrow> pipeline \<Rightarrow> pipeline_result fres \<Rightarrow> log \<Rightarrow> log \<Rightarrow> bool" where
  "published env p r base l \<longleftrightarrow> \<not> is_cancelled env p base \<and> (\<exists>fin puts. l = fin @ puts @ CommitOverwrite # base
     \<and> fin \<in> {[], [CompleteRun]} \<and> list_all is_put puts \<and> length puts \<le> 1
     \<and> (is_ok r \<or> fin @ puts \<noteq> [] \<longrightarrow> is_ok (sk_commit_overwrite env (CommitOverwrite # base))))"

lemma overwrite_completed:
  assumes stage: "overwrite_stage env src p r0 w0 = (r1, w1)" and completed: "complete_stage env p r1 w1 = (r, w)"
    and sticky: "\<And>ev l. pg_is_cancelled env l \<Longrightarrow> pg_is_cancelled env (ev # l)"
  shows "discarded env p r (en_log w0) (en_log w) \<or> published env p r (en_log w0) (en_log w)"
  using stage
proof (cases rule: overwrite_stage_cases)
  case aborted
  have "is_cancelled env p (en_log w1)" if "is_ok r1"
    using aborted that sticky by (auto simp: is_cancelled_def)
  with complete_stage_log [OF completed] aborted show ?thesis by (auto simp: discarded_def is_ok_def)
next
  case (committed puts)
  from complete_stage_log [OF completed] obtain fin where
    fin: "fin \<in> {[], [CompleteRun]}" "en_log w = fin @ en_log w1" "is_ok r \<or> fin \<noteq> [] \<longrightarrow> is_ok r1"
  proof (rule disjE, goal_cases skip run)
    case skip
    then show ?case using that [of "[]"] by simp
  next
    case run
    then show ?case using that [of "[CompleteRun]"] by (auto simp: is_ok_def)
  qed
  with committed have "published env p r (en_log w0) (en_log w)"
    unfolding published_def by (intro conjI exI [of _ fin] exI [of _ puts]) auto
  then show ?thesis ..
qed

subsection \<open>What the cleanup knows\<close>

lemma recorded_pages_quiet:
  assumes "list_all (\<lambda>ev. \<not> is_sink_write ev) evs"
  shows "n \<le> length l \<Longrightarrow> recorded_pages env n (evs @ l) = recorded_pages env n l"
proof -
  have none: "\<not> is_sink_write ev \<Longrightarrow> recorded_rows env (ev # l) = None" for ev l by (cases ev) auto
  show "n \<le> length l \<Longrightarrow> recorded_pages env n (evs @ l) = recorded_pages env n l"
    using assms by (induction evs) (auto simp: none)
qed

lemma recorded_pages_start:
  assumes "list_all (\<lambda>ev. \<not> is_sink_write ev) l"
  shows "recorded_pages env (length l) (evs @ l) = recorded_pages env 0 (evs @ l)"
proof (induction evs)
  case Nil
  have "recorded_pages env 0 l = []" using recorded_pages_quiet [OF assms, of 0 "[]" env] by simp
  moreover have "recorded_pages env (length l) l = []" by (cases l) auto
  ultimately show ?case by simp
qed simp

lemma prelude_quiet: "list_all prelude_event l \<Longrightarrow> list_all (\<lambda>ev. \<not> is_sink_write ev) l"
  by (erule list.pred_mono_strong) (auto elim!: prelude_event.elims)

lemma fast_path_features:
  assumes "pl_cleanup p = Some policy"
  shows "\<not> path_allowed Native (compat_features env sink p)" "\<not> path_allowed Columnar (compat_features env sink p)"
  using feature_off [of True Cleanup env sink p] assms native_allowed [of "compat_features env sink p" Cleanup]
    columnar_allowed [of "compat_features env sink p" Cleanup]
  by (auto simp: feature_table_def)

lemma tracked_keys_exact:
  assumes "tracker_keys policy (record_pages libs (cl_key policy) (cl_max_keys policy) pages) = Ok keys"
  shows "canonical_key_text libs ` set keys = texts libs (cl_key policy) (concat pages)"
  using record_pages_spec [of libs "cl_key policy" "cl_max_keys policy" pages] assms
  by (auto simp: tracker_keys_def seen_inv_def Let_def split: if_splits)

lemma after_stream_cleanup:
  assumes run: "after_stream env src p n r w = (r', w')" and none: "SinkCleanup scope keys \<notin> set (en_log w)"
    and deleted: "SinkCleanup scope keys \<in> set (en_log w')"
  shows "\<exists>evs policy. en_log w' = evs @ SinkCleanup scope keys # en_log w \<and> list_all (\<lambda>ev. \<not> is_sink_write ev) evs
    \<and> cleanup_of p = Some policy \<and> \<not> is_cancelled env p (en_log w) \<and> scope = cl_scope policy
    \<and> tracker_keys policy (record_pages (pl_libs p) (cl_key policy) (cl_max_keys policy) (recorded_pages env n (en_log w))) = Ok keys"
proof -
  have later: "\<exists>evs. en_log w2 = evs @ en_log w1 \<and> list_all (\<lambda>ev. \<not> is_sink_write ev) evs \<and> (\<forall>s k. SinkCleanup s k \<notin> set evs)"
    if "(if overwriting env p then overwrite_stage env src p r1 else lift_result r1) w1 = (r2, w2)" for r1 w1 r2 w2
  proof (cases "overwriting env p")
    case True
    with that have "overwrite_stage env src p r1 w1 = (r2, w2)" by simp
    moreover have "is_put ev \<Longrightarrow> \<not> is_sink_write ev \<and> (\<forall>s k. ev \<noteq> SinkCleanup s k)" for ev by (cases ev) auto
    ultimately show ?thesis by (cases rule: overwrite_stage_cases) (fastforce simp: list_all_iff)+
  next
    case False
    with that show ?thesis by (simp add: lift_result_def)
  qed
  show ?thesis
  proof (cases "\<exists>policy res. cleanup_of p = Some policy \<and> r = Ok res")
    case False
    then have "(if overwriting env p then overwrite_stage env src p r else lift_result r) w = (r', w')"
      using run by (cases "cleanup_of p"; cases r) (auto simp: after_stream_def op_bind_def ret_def)
    from later [OF this] none deleted show ?thesis by auto
  next
    case True
    then obtain policy res where c: "cleanup_of p = Some policy" "r = Ok res" by blast
    obtain r1 w1 where stage: "cleanup_stage env p policy n res w = (r1, w1)" by (cases "cleanup_stage env p policy n res w")
    have "\<exists>evs. en_log w' = evs @ en_log w1 \<and> list_all (\<lambda>ev. \<not> is_sink_write ev) evs \<and> (\<forall>s k. SinkCleanup s k \<notin> set evs)"
    proof (cases r1)
      case (Inl e)
      with run c stage have "w' = w1" by (simp add: after_stream_def op_bind_def)
      then show ?thesis by simp
    next
      case (Inr res')
      with run c stage have "(if overwriting env p then overwrite_stage env src p (Ok res') else lift_result (Ok res')) w1 = (r', w')"
        by (simp add: after_stream_def op_bind_def ret_def)
      from later [OF this] show ?thesis .
    qed
    then obtain evs where evs: "en_log w' = evs @ en_log w1" "list_all (\<lambda>ev. \<not> is_sink_write ev) evs" "SinkCleanup scope keys \<notin> set evs"
      by blast
    from stage show ?thesis
      by (cases rule: cleanup_stage_cases) (use evs none deleted c in auto)
  qed
qed

subsection \<open>Where a run resumes\<close>

lemma perform_OkE:
  assumes "perform ev answer l = (Ok y, l')"
  obtains "l' = ev # l" "answer (ev # l) = Ok y"
  using assms by (auto simp: perform_def)

lemma lift_result_OkE:
  assumes "lift_result r l = (Ok y, l')"
  obtains "r = Ok y" "l' = l"
  using assms by (auto simp: lift_result_def)

lemma resolve_written:
  "resolve_for_source key (StateCodec_encode (StateCodec_for_source source False) v) source =
     Ok \<lparr> rs_data = v, rs_migrated_from = None, rs_legacy = False \<rparr>"
  unfolding resolve_for_source_def StateCodec_for_source_def by (rule resolve_encoded)

lemma state_position:
  assumes run: "resume_from_state env src p l0 = (Ok n', l)"
    and eo: "pl_delivery p = ExactlyOnce" "pl_has_store p" "cs_state_key src = Some key"
    and stored: "\<And>l. ss_get env l = Ok (Some (StateCodec_encode (StateCodec_for_source (cs_state src) False) (wrap_state (Some b) n)))"
      "b \<noteq> Null"
  shows "n' = n \<and> l = StartBookmark b # StateGet key # l0"
  using run eo stored
  by (auto simp: resume_from_state_def apply_bookmark_def resolve_written codec_simps elim!: perform_OkE lift_result_OkE)

lemma sink_position:
  assumes run: "resume_from_sink env src p n l0 = (Ok seq, l)"
    and eo: "pl_delivery p = ExactlyOnce" "sk_supports_idempotent_writes env" "cs_replay src = Deterministic"
      "cs_state_key src = Some key"
    and token: "\<And>l. sk_last_committed_token env l = Ok (Some (format_token_with_bookmark (pl_json_print p) m (Some b)))"
      "pl_json_parse p (pl_json_print p b) = Some b"
  shows "seq = max n m \<and> l = (if n < m then [StartBookmark b] else []) @ SinkToken key # l0"
  using run eo token parse_parts_token [of "Some b" "pl_json_parse p" "pl_json_print p" m]
  by (auto simp: resume_from_sink_def read_token_def apply_bookmark_def max_def elim!: perform_OkE split: if_splits)

subsection \<open>Concrete runs\<close>

text \<open>One page with a keyed row and a bookmark, into a sink that overwrites or one that is cleaned up.\<close>

definition demo_env :: "bool \<Rightarrow> env" where
  "demo_env ow = quiet_env \<lparr> sk_is_overwrite := ow, pg_next := (\<lambda>l. if length (filter (\<lambda>ev. ev = PollPage) l) = 1
     then Some (Ok \<lparr> sp_records = [Object [(''id'', String ''a'')]], sp_bookmark = Some (Bool True) \<rparr>) else None) \<rparr>"

definition demo_source :: source_conn where
  "demo_source = \<lparr> cs_state = \<lparr> src_connector_name = ''s'', src_state_schema = 0, src_migrate_state = (\<lambda>n v. Ok v) \<rparr>,
     cs_consumes_destructively = False, cs_state_key = Some ''k'', cs_legacy_state_keys = [], cs_replay = Deterministic,
     cs_native_formats = [Csv], cs_columnar = False, cs_drains_on_cancel = False \<rparr>"

definition demo_sink :: sink_conn where
  "demo_sink = \<lparr> cn_native_caps = [], cn_columnar = False, cn_cleanup = True, cn_atomicity = Atomic \<rparr>"

definition demo_policy :: cleanup_policy where
  "demo_policy = \<lparr> cl_scope = [(''g'', String ''x'')], cl_key = [''id''], cl_max_keys = 5, cl_trigger = Always \<rparr>"

definition demo_pipeline :: "bool \<Rightarrow> pipeline" where
  "demo_pipeline ow = \<lparr> pl_specs = sample_specs \<lparr> gs_masking := None \<rparr>, pl_masking_retypes_by_value = False, pl_has_store = True,
     pl_dlq = None, pl_allow_dlq_all_duplicates = False, pl_adaptive = None, pl_resilience = None, pl_has_cancel = False,
     pl_delivery = AtLeastOnce, pl_legacy_state_writes = False, pl_cleanup = (if ow then None else Some demo_policy),
     pl_suppress_overwrite_lifecycle = False, pl_governance = None, pl_libs = plain_libs, pl_json_print = (\<lambda>v. []),
     pl_json_parse = (\<lambda>s. None), pl_cas = (\<lambda>l. Ok True), pl_delete = (\<lambda>l. Ok ()) \<rparr>"

definition demo_options :: "bool \<Rightarrow> run_options" where
  "demo_options ow = stream_options demo_source (demo_pipeline ow) 0"

definition demo_log :: "bool \<Rightarrow> log" where
  "demo_log ow = (if ow then [BeginOverwrite, StateGet ''k''] else [StateGet ''k''])"

definition demo_w0 :: "bool \<Rightarrow> engine" where
  "demo_w0 ow = snd (start_run (demo_env ow) (demo_options ow) (initial_engine (demo_options ow) None (demo_log ow)))"

definition demo_w1 :: "bool \<Rightarrow> engine" where
  "demo_w1 ow = snd (poll_step (demo_env ow) (demo_options ow) False 0 (demo_w0 ow))"

definition demo_w2 :: "bool \<Rightarrow> engine" where
  "demo_w2 ow = snd (poll_step (demo_env ow) (demo_options ow) False 0 (demo_w1 ow))"

definition demo_end :: "bool \<Rightarrow> pipeline_result fres \<times> engine" where
  "demo_end ow = finish_run (demo_env ow) (demo_options ow) (demo_w2 ow)"

lemma demo_steps:
  "\<forall>ow. prepare_run (demo_env ow) demo_source demo_sink (demo_pipeline ow) [] = (Ok 0, [StateGet ''k''])"
  "\<forall>ow. fst (start_run (demo_env ow) (demo_options ow) (initial_engine (demo_options ow) None (demo_log ow))) = Ok (False, 0)"
  "\<forall>ow. fst (poll_step (demo_env ow) (demo_options ow) False 0 (demo_w0 ow)) = Ok Again"
  "\<forall>ow. fst (poll_step (demo_env ow) (demo_options ow) False 0 (demo_w1 ow)) = Ok Stop"
  "\<forall>ow. is_ok (fst (demo_end ow)) \<and> en_log (snd (demo_end ow)) =
     (if ow then [SinkFlush, PollPage, SinkWrite [Object [(''id'', String ''a'')]], PollPage, BeginOverwrite, StateGet ''k'']
      else [SinkFlush, PollPage, StatePut ''k'' (Bool True), SinkFlush, SinkWrite [Object [(''id'', String ''a'')]], PollPage,
            StateGet ''k''])"
  "\<forall>ow. native_choice (demo_env ow) demo_source demo_sink (demo_pipeline ow) = None"
  "\<forall>ow. columnar_choice (demo_env ow) demo_source demo_sink (demo_pipeline ow) = False"
  by code_simp+

definition demo_rows :: log where
  "demo_rows = [SinkFlush, PollPage, StatePut ''k'' (Bool True), SinkFlush, SinkWrite [Object [(''id'', String ''a'')]], PollPage,
     StateGet ''k'']"

lemma demo_tracked:
  "tracker_keys demo_policy (record_pages plain_libs [''id''] 5 (recorded_pages (demo_env False) 1 demo_rows)) = Ok [[(''id'', String ''a'')]]"
  by code_simp

lemma demo_run:
  "\<exists>r w. Pipeline_run (demo_env ow) demo_source demo_sink (demo_pipeline ow) None [] = Some (r, w)
     \<and> (ow \<longrightarrow> CommitOverwrite \<in> set (en_log w))
     \<and> (\<not> ow \<longrightarrow> StatePut ''k'' (Bool True) \<in> set (en_log w)
          \<and> SinkCleanup [(''g'', String ''x'')] [[(''id'', String ''a'')]] \<in> set (en_log w))"
proof -
  have loop: "drive (poll_step (demo_env ow) (demo_options ow) False 0) (demo_w0 ow) = Some (Ok (), demo_w2 ow)"
    using demo_steps(3,4) [THEN spec [of _ ow]] by (intro drive_two [of _ _ "demo_w1 ow"]) (simp_all add: demo_w1_def demo_w2_def prod_eq_iff)
  have start: "start_run (demo_env ow) (demo_options ow) (initial_engine (demo_options ow) None (demo_log ow)) = (Ok (False, 0), demo_w0 ow)"
    using demo_steps(2) [THEN spec [of _ ow]] by (simp add: demo_w0_def prod_eq_iff)
  obtain res w where final: "demo_end ow = (Ok res, w)" using demo_steps(5) [THEN spec [of _ ow]] by (metis is_ok_iff prod.collapse)
  have stream: "run_stream_with (demo_env ow) (demo_options ow) None (demo_log ow) = Some (Ok res, w)"
    using loop start final by (simp add: run_stream_with_def demo_end_def)
  have "overwriting (demo_env ow) (demo_pipeline ow) = ow" "cleanup_of (demo_pipeline ow) = (if ow then None else Some demo_policy)"
    by (simp_all add: overwriting_def demo_env_def demo_pipeline_def cleanup_of_def demo_policy_def)
  then have "row_path (demo_env ow) demo_source demo_sink (demo_pipeline ow) None 0 [StateGet ''k''] =
      Some (after_stream (demo_env ow) demo_source (demo_pipeline ow) (length (demo_log ow)) (Ok res) w)"
    using stream
    by (simp add: row_path_def Let_def demo_options_def demo_log_def demo_sink_def perform_def demo_env_def quiet_env_def
        split: if_splits)
  then have run: "Pipeline_run (demo_env ow) demo_source demo_sink (demo_pipeline ow) None [] =
      (case after_stream (demo_env ow) demo_source (demo_pipeline ow) (length (demo_log ow)) (Ok res) w of
         (r, w) \<Rightarrow> Some (complete_stage (demo_env ow) (demo_pipeline ow) r w))"
    using demo_steps(1,6,7) [THEN spec [of _ ow]] by (simp add: Pipeline_run_def transfer_def)
  have log: "ow \<Longrightarrow> en_log w = [SinkFlush, PollPage, SinkWrite [Object [(''id'', String ''a'')]], PollPage, BeginOverwrite, StateGet ''k'']"
      "\<not> ow \<Longrightarrow> en_log w = demo_rows"
    using demo_steps(5) [THEN spec [of _ ow]] final by (simp_all add: demo_rows_def)
  note eval = after_stream_def op_defs io_def complete_stage_def is_cancelled_def demo_pipeline_def quiet_env_def cleanup_of_def overwriting_def
  show ?thesis
  proof (cases ow)
    case True
    obtain r2 w2 where pub: "publish_bookmark (demo_env True) demo_source (demo_pipeline True) res (w \<lparr> en_log := CommitOverwrite # en_log w \<rparr>)
        = (r2, w2)" by fastforce
    then have "CommitOverwrite \<in> set (en_log w2)"
      by (auto simp: publish_bookmark_def ret_def io_def state_put_def perform_def split: option.splits bool.splits)
    with True run log(1) pub show ?thesis
      by (cases r2) (simp_all add: eval overwrite_stage_def demo_env_def)
  next
    case False
    with run log(2) demo_tracked show ?thesis
      by (simp add: eval cleanup_stage_def demo_env_def demo_policy_def demo_log_def) (simp add: demo_rows_def)
  qed
qed

text \<open>A restart whose sink is one page ahead of the state store.\<close>

definition anchored_env :: env where
  "anchored_env = quiet_env \<lparr> sk_supports_idempotent_writes := True,
     ss_get := (\<lambda>l. Ok (Some (StateCodec_encode (StateCodec_for_source (cs_state demo_source) False) (wrap_state (Some (Bool False)) 1)))),
     sk_last_committed_token := (\<lambda>l. Ok (Some (format_token_with_bookmark (\<lambda>v. ''true'') 2 (Some (Bool True))))) \<rparr>"

definition anchored_pipeline :: pipeline where
  "anchored_pipeline = (demo_pipeline True) \<lparr> pl_delivery := ExactlyOnce, pl_json_print := (\<lambda>v. ''true''),
     pl_json_parse := (\<lambda>s. if s = ''true'' then Some (Bool True) else None) \<rparr>"

lemma anchored_gates:
  "run_gates anchored_env demo_source demo_sink anchored_pipeline = Ok ()"
  "migrate_legacy anchored_env demo_source anchored_pipeline [] = (Ok (), [])"
  "check_legacy_codec demo_source anchored_pipeline = Ok ()"
  "validate_state_key ''k'' = Ok ()"
  by code_simp+

lemma anchored_fields [simp]:
  "ss_get anchored_env l = Ok (Some (StateCodec_encode (StateCodec_for_source (cs_state demo_source) False) (wrap_state (Some (Bool False)) 1)))"
  "sk_last_committed_token anchored_env l = Ok (Some (format_token_with_bookmark (pl_json_print anchored_pipeline) 2 (Some (Bool True))))"
  "so_apply_start_bookmark anchored_env l = Ok ()" "sk_supports_idempotent_writes anchored_env"
  "cs_state_key demo_source = Some ''k''" "cs_replay demo_source = Deterministic"
  "pl_has_store anchored_pipeline" "pl_delivery anchored_pipeline = ExactlyOnce"
  "pl_json_parse anchored_pipeline (pl_json_print anchored_pipeline (Bool True)) = Some (Bool True)"
  by (simp_all add: anchored_env_def anchored_pipeline_def demo_source_def demo_pipeline_def quiet_env_def)

lemma anchored_start:
  "prepare_run anchored_env demo_source demo_sink anchored_pipeline [] =
     (Ok 2, [StartBookmark (Bool True), SinkToken ''k'', StartBookmark (Bool False), StateGet ''k''])"
  by (simp add: prepare_run_def op_bind_def op_seq_def lift_result_def ret_def perform_def anchored_gates resume_from_state_def
      resume_from_sink_def apply_bookmark_def read_token_def resolve_written parse_parts_token codec_simps)

section \<open>Properties\<close>

text \<open>C0. A pipeline that does not overwrite stores a bookmark only when everything written before it is durable,
  whatever path the run takes: the loop of pages, the columnar path (without a dead-letter sink, which that
  path does not flush) or the byte path, after any resume and any migration of its state key.\<close>

theorem run_bookmarks_durable:
  assumes run: "Pipeline_run env src sink p accounts [] = Some (r, w)" and plain: "\<not> sk_is_overwrite env"
    and columnar: "columnar_choice env src sink p \<longrightarrow> pl_dlq p = None"
  shows "checkpoints_durable env (en_log w)"
  using run
proof (cases rule: run_stages)
  case (unprepared e l)
  with prelude_invs(1) [OF prepare_prelude] show ?thesis by (simp add: loop_inv_def)
next
  case (transferred seq l r1 w1)
  note invs = prelude_invs [OF prepare_prelude [OF transferred(1)]]
  let ?opts = "stream_options src p seq"
  have "checkpoints_durable env (en_log w1)"
  proof (cases "native_choice env src sink p \<noteq> None")
    case True
    with transferred(2) plain have "run_stream_native env ?opts False accounts l = Some (r1, w1)" by (simp add: transfer_def)
    from native_append_inv [OF this invs(2)] show ?thesis by (simp add: flush_inv_def)
  next
    case row: False
    show ?thesis
    proof (cases "columnar_choice env src sink p")
      case True
      with row transferred(2) have "run_stream_columnar env ?opts accounts l = Some (r1, w1)" by (simp add: transfer_def)
      from columnar_run_inv [OF this invs(2)] True columnar show ?thesis by (simp add: flush_inv_def stream_options_def)
    next
      case False
      with row transferred(2) have "row_path env src sink p accounts seq l = Some (r1, w1)" by (simp add: transfer_def)
      then show ?thesis
      proof (cases rule: row_path_cases)
        case refused
        with invs(1) show ?thesis by (simp add: loop_inv_def)
      next
        case unstarted
        with plain show ?thesis by (simp add: overwriting_def)
      next
        case (streamed l1 r2 w2)
        then have "l1 = l" "\<not> overwriting env p" using plain by (simp_all add: overwriting_def)
        with streamed invs(1) have "checkpoints_durable env (en_log w2)" by (auto simp: loop_inv_def dest: run_inv)
        with after_stream_plain [OF \<open>\<not> overwriting env p\<close> streamed(3)] show ?thesis by auto
      qed
    qed
  qed
  with complete_stage_log [OF transferred(3)] show ?thesis by auto
qed

theorem run_bookmarks_durable_witness:
  "\<exists>r w. Pipeline_run (demo_env False) demo_source demo_sink (demo_pipeline False) None [] = Some (r, w)
     \<and> StatePut ''k'' (Bool True) \<in> set (en_log w) \<and> checkpoints_durable (demo_env False) (en_log w)"
proof -
  obtain r w where run: "Pipeline_run (demo_env False) demo_source demo_sink (demo_pipeline False) None [] = Some (r, w)"
      "StatePut ''k'' (Bool True) \<in> set (en_log w)" using demo_run [of False] by auto
  have "\<not> sk_is_overwrite (demo_env False)" by (simp add: demo_env_def)
  moreover have "columnar_choice (demo_env False) demo_source demo_sink (demo_pipeline False) \<longrightarrow> pl_dlq (demo_pipeline False) = None"
    by (simp add: demo_pipeline_def)
  ultimately show ?thesis using run_bookmarks_durable [OF run(1)] run by blast
qed

text \<open>C0. An overwrite is all or nothing. A run of the page loop that overwrites ends in one of three ways: it never
  began; or everything it wrote lies between the begin and an abort, and it failed or was cancelled; or it
  was not cancelled and committed once, after everything it wrote, and its bookmark and the completion of the
  run follow only a commit that succeeded. While the run writes, no bookmark is stored.\<close>

theorem overwrite_lifecycle:
  assumes run: "Pipeline_run env src sink p accounts [] = Some (r, w)"
    and ow: "overwriting env p" "native_choice env src sink p = None" "cleanup_of p = None"
    and sticky: "\<And>ev l. pg_is_cancelled env l \<Longrightarrow> pg_is_cancelled env (ev # l)"
  shows "\<not> is_ok r \<and> list_all (\<lambda>ev. prelude_event ev \<or> ev = BeginOverwrite) (en_log w)
    \<or> (\<exists>mid pre. list_all staged mid \<and> list_all prelude_event pre
         \<and> (discarded env p r (mid @ BeginOverwrite # pre) (en_log w) \<or> published env p r (mid @ BeginOverwrite # pre) (en_log w)))"
  using run
proof (cases rule: run_stages)
  case (unprepared e l)
  with prepare_prelude [OF unprepared(1)] show ?thesis by (auto simp: is_ok_def list_all_iff)
next
  case (transferred seq l r1 w1)
  from ow(1) have "sk_is_overwrite env" by (simp add: overwriting_def)
  note pre = prepare_prelude [OF transferred(1)]
  have "row_path env src sink p accounts seq l = Some (r1, w1)"
    using transferred(2) ow(2) overwrite_not_columnar [OF \<open>sk_is_overwrite env\<close>] by (simp add: transfer_def)
  then show ?thesis
  proof (cases rule: row_path_cases)
    case refused
    with complete_stage_log [OF transferred(3)] pre show ?thesis by (auto simp: is_ok_def list_all_iff)
  next
    case unstarted
    with complete_stage_log [OF transferred(3)] pre show ?thesis by (auto simp: is_ok_def list_all_iff)
  next
    case (streamed l1 r2 w2)
    with ow(1) have stream: "run_stream_with env (stream_options src p seq) accounts (BeginOverwrite # l) = Some (r2, w2)" by simp
    from overwriting_stream [OF this \<open>sk_is_overwrite env\<close> pre] obtain mid where
      mid: "en_log w2 = mid @ BeginOverwrite # l" "list_all staged mid" by blast
    have "overwrite_stage env src p r2 w2 = (r1, w1)"
      using streamed(3) ow(1,3) by (simp add: after_stream_def op_defs)
    from overwrite_completed [OF this transferred(3) sticky] mid pre show ?thesis by auto
  qed
qed

theorem overwrite_lifecycle_witness:
  "\<exists>r w base. Pipeline_run (demo_env True) demo_source demo_sink (demo_pipeline True) None [] = Some (r, w)
     \<and> published (demo_env True) (demo_pipeline True) r base (en_log w)"
proof -
  obtain r w where run: "Pipeline_run (demo_env True) demo_source demo_sink (demo_pipeline True) None [] = Some (r, w)"
      "CommitOverwrite \<in> set (en_log w)" using demo_run [of True] by auto
  have ow: "overwriting (demo_env True) (demo_pipeline True)" "cleanup_of (demo_pipeline True) = None"
    by (simp_all add: overwriting_def demo_env_def demo_pipeline_def cleanup_of_def)
  have native: "native_choice (demo_env True) demo_source demo_sink (demo_pipeline True) = None" using demo_steps(6) by simp
  have sticky: "pg_is_cancelled (demo_env True) l \<Longrightarrow> pg_is_cancelled (demo_env True) (ev # l)" for ev l
    by (simp add: demo_env_def quiet_env_def)
  from run(2) have commit: "\<not> list_all (\<lambda>ev. prelude_event ev \<or> ev = BeginOverwrite) (en_log w)"
    by (auto simp: list_all_iff intro!: bexI [of _ CommitOverwrite])
  have "\<not> discarded (demo_env True) (demo_pipeline True) r (mid @ BeginOverwrite # pre) (en_log w)"
    if "list_all staged mid" "list_all prelude_event pre" for mid pre
  proof -
    have "CommitOverwrite \<notin> set mid" "CommitOverwrite \<notin> set pre" using that by (fastforce simp: list_all_iff staged_def)+
    with run(2) show ?thesis by (auto simp: discarded_def)
  qed
  with overwrite_lifecycle [OF run(1) ow(1) native ow(2) sticky] commit run(1) show ?thesis by blast
qed

text \<open>C0. The cleanup spares what the run wrote: when a run deletes the rest of its scope, the run was not
  cancelled, and the keys it keeps are exactly the keys of the rows of all writes the sink accepted in this run
  and of all rows offered to it row by row.\<close>

theorem cleanup_spares_written:
  assumes run: "Pipeline_run env src sink p accounts [] = Some (r, w)" and policy: "pl_cleanup p = Some policy"
    and deleted: "SinkCleanup scope keys \<in> set (en_log w)"
  shows "scope = cl_scope policy
    \<and> canonical_key_text (pl_libs p) ` set keys
        = texts (pl_libs p) (cl_key policy) (concat (recorded_pages env 0 (en_log w)))
    \<and> (\<exists>evs l. en_log w = evs @ SinkCleanup scope keys # l \<and> \<not> is_cancelled env p l)"
  using run
proof (cases rule: run_stages)
  case (unprepared e l)
  with prepare_prelude [OF unprepared(1)] deleted show ?thesis by (auto simp: list_all_iff)
next
  case (transferred seq l r1 w1)
  note pre = prepare_prelude [OF transferred(1)]
  note fast = fast_path_features [OF policy, of env sink]
  have "row_path env src sink p accounts seq l = Some (r1, w1)"
    using transferred(2) fast by (simp add: transfer_def native_choice_def columnar_choice_def)
  moreover from complete_stage_log [OF transferred(3)] obtain fin where
    fin: "en_log w = fin @ en_log w1" "fin \<in> {[], [CompleteRun]}" by fastforce
  ultimately show ?thesis
  proof (cases rule: row_path_cases)
    case refused
    with pre deleted fin show ?thesis by (auto simp: list_all_iff)
  next
    case unstarted
    with pre deleted fin show ?thesis by (auto simp: list_all_iff)
  next
    case (streamed l1 r2 w2)
    from streamed(1) pre have quiet: "list_all (\<lambda>ev. \<not> is_sink_write ev) l1" "SinkCleanup scope keys \<notin> set l1"
      using prelude_quiet [OF pre] by (auto simp: list_all_iff)
    obtain mid where mid: "en_log w2 = mid @ l1" "list_all stream_event mid" using run_adds [OF streamed(2)] by blast
    with quiet(2) have none: "SinkCleanup scope keys \<notin> set (en_log w2)" by (auto simp: list_all_iff)
    from after_stream_cleanup [OF streamed(3) none] deleted fin
    obtain evs res where evs: "en_log w1 = evs @ SinkCleanup scope keys # en_log w2" "list_all (\<lambda>ev. \<not> is_sink_write ev) evs"
      and stage: "cleanup_of p = Some policy" "\<not> is_cancelled env p (en_log w2)" "scope = cl_scope policy"
        "tracker_keys policy (record_pages (pl_libs p) (cl_key policy) (cl_max_keys policy) (recorded_pages env (length l1) (en_log w2))) = Ok keys"
      using policy by (auto simp: cleanup_of_def split: if_splits)
    have pages: "recorded_pages env 0 (en_log w) = recorded_pages env (length l1) (en_log w2)"
      using recorded_pages_quiet [of "fin @ evs @ [SinkCleanup scope keys]" 0 "en_log w2" env] evs fin
        recorded_pages_start [OF quiet(1), of env mid] mid(1) by (auto simp: list_all_iff)
    from stage(4) tracked_keys_exact [of policy "pl_libs p"] pages
    have "canonical_key_text (pl_libs p) ` set keys = texts (pl_libs p) (cl_key policy) (concat (recorded_pages env 0 (en_log w)))"
      by metis
    with stage evs fin show ?thesis by (metis append.assoc)
  qed
qed

theorem cleanup_spares_written_witness:
  "\<exists>r w. Pipeline_run (demo_env False) demo_source demo_sink (demo_pipeline False) None [] = Some (r, w)
     \<and> canonical_key_text plain_libs [(''id'', String ''a'')]
        \<in> texts plain_libs [''id''] (concat (recorded_pages (demo_env False) 0 (en_log w)))"
proof -
  obtain r w where run: "Pipeline_run (demo_env False) demo_source demo_sink (demo_pipeline False) None [] = Some (r, w)"
      "SinkCleanup [(''g'', String ''x'')] [[(''id'', String ''a'')]] \<in> set (en_log w)" using demo_run [of False] by auto
  have policy: "pl_cleanup (demo_pipeline False) = Some demo_policy" by (simp add: demo_pipeline_def)
  have "pl_libs (demo_pipeline False) = plain_libs" "cl_key demo_policy = [''id'']"
    by (simp_all add: demo_pipeline_def demo_policy_def)
  with cleanup_spares_written [OF run(1) policy run(2)] run(1) show ?thesis by auto
qed

text \<open>C0. A fast path never goes around a mechanism of the run. The byte path is taken only with no record pass, no
  dead-letter queue, no keys, no cleanup, no retries, no adaptive batches and at-least-once delivery, in a
  format the source offers and the sink loads in this write mode; the columnar path only for at-least-once
  runs that neither overwrite nor clean up, retry or resize, and whose dead-letter queue needs no row outcomes.\<close>

theorem fast_paths_sound:
  "(\<forall>plan. native_choice env src sink p = Some plan \<longrightarrow>
      clearance (governance_specs_of p) \<and> pl_dlq p = None \<and> pl_delivery p = AtLeastOnce \<and> \<not> sk_dedups_by_key env
      \<and> pl_cleanup p = None \<and> pl_adaptive p = None \<and> pl_resilience p = None
      \<and> \<not> (sk_is_overwrite env \<and> pl_suppress_overwrite_lifecycle p)
      \<and> np_format plan \<in> set (cs_native_formats src)
      \<and> (\<exists>c \<in> set (cn_native_caps sink). nc_format c = np_format plan \<and> nc_mechanism c = np_mechanism plan
            \<and> run_write_mode env \<in> set (nc_write_modes c)))
   \<and> (columnar_choice env src sink p \<longrightarrow>
      pl_delivery p = AtLeastOnce \<and> \<not> sk_is_overwrite env \<and> pl_cleanup p = None \<and> pl_adaptive p = None
      \<and> pl_resilience p = None \<and> (\<forall>d. pl_dlq p = Some d \<longrightarrow> dc_on_batch_error d = Propagate \<and> cn_atomicity sink \<noteq> PerRow))"
proof (intro conjI allI impI)
  note table = feature_table_def
  { fix plan assume plan: "native_choice env src sink p = Some plan"
    then have allowed: "path_allowed Native (compat_features env sink p)" and "clearance (governance_specs_of p)"
      and transfer: "plan_native_transfer \<lparr> ni_source_formats = cs_native_formats src, ni_sink_caps = cn_native_caps sink,
         ni_has_transforms = False, ni_has_governance = False, ni_delivery = pl_delivery p,
         ni_write_mode = run_write_mode env, ni_has_dlq = pl_dlq p \<noteq> None \<rparr> = Some plan"
      by (auto simp: native_choice_def Let_def split: if_splits option.splits)
    then show "clearance (governance_specs_of p)" "pl_dlq p = None" "pl_delivery p = AtLeastOnce"
      by (auto simp: plan_native_transfer_def split: if_splits)
    have off: "(b, f) \<in> set (feature_table env sink p) \<Longrightarrow> f \<in> {AdaptiveFeature, ResilienceFeature, Cleanup, KeyedWrites, GroupedOverwrite} \<Longrightarrow> \<not> b" for b f
      using feature_off native_allowed [OF allowed, of f] by blast
    show "\<not> sk_dedups_by_key env" by (rule off [of _ KeyedWrites]) (simp_all add: table)
    show "\<not> (sk_is_overwrite env \<and> pl_suppress_overwrite_lifecycle p)" by (rule off [of _ GroupedOverwrite]) (simp_all add: table)
    have "\<not> pl_cleanup p \<noteq> None" by (rule off [of _ Cleanup]) (simp_all add: table)
    then show "pl_cleanup p = None" by simp
    have "\<not> pl_adaptive p \<noteq> None" by (rule off [of _ AdaptiveFeature]) (simp_all add: table)
    then show "pl_adaptive p = None" by simp
    have "\<not> pl_resilience p \<noteq> None" by (rule off [of _ ResilienceFeature]) (simp_all add: table)
    then show "pl_resilience p = None" by simp
    have "match_format fmts caps mode = Some plan \<Longrightarrow> np_format plan \<in> set fmts \<and> (\<exists>c \<in> set caps. nc_format c = np_format plan
        \<and> nc_mechanism c = np_mechanism plan \<and> mode \<in> set (nc_write_modes c))" for fmts caps mode
      by (induction fmts) (auto simp: find_Some_iff split: option.splits)
    moreover have "match_format (cs_native_formats src) (cn_native_caps sink) (run_write_mode env) = Some plan"
      using transfer by (auto simp: plan_native_transfer_def split: if_splits)
    ultimately show "np_format plan \<in> set (cs_native_formats src)"
      "\<exists>c \<in> set (cn_native_caps sink). nc_format c = np_format plan \<and> nc_mechanism c = np_mechanism plan
            \<and> run_write_mode env \<in> set (nc_write_modes c)" by blast+ }
  { assume "columnar_choice env src sink p"
    then have allowed: "path_allowed Columnar (compat_features env sink p)" by (simp add: columnar_choice_def)
    have off: "(b, f) \<in> set (feature_table env sink p) \<Longrightarrow> f \<in> {DlqAll, DlqPerRowSink, ExactlyOnceFeature, OverwriteFeature,
        AdaptiveFeature, ResilienceFeature, Cleanup} \<Longrightarrow> \<not> b" for b f
      using feature_off columnar_allowed [OF allowed, of f] by blast
    have "\<not> pl_delivery p = ExactlyOnce" by (rule off [of _ ExactlyOnceFeature]) (simp_all add: table)
    then show "pl_delivery p = AtLeastOnce" by (cases "pl_delivery p") auto
    show "\<not> sk_is_overwrite env" by (rule off [of _ OverwriteFeature]) (simp_all add: table)
    have "\<not> pl_cleanup p \<noteq> None" by (rule off [of _ Cleanup]) (simp_all add: table)
    then show "pl_cleanup p = None" by simp
    have "\<not> pl_adaptive p \<noteq> None" by (rule off [of _ AdaptiveFeature]) (simp_all add: table)
    then show "pl_adaptive p = None" by simp
    have "\<not> pl_resilience p \<noteq> None" by (rule off [of _ ResilienceFeature]) (simp_all add: table)
    then show "pl_resilience p = None" by simp
    fix d assume d: "pl_dlq p = Some d"
    have "\<not> map_option dc_on_batch_error (pl_dlq p) \<notin> {None, Some Propagate}"
      by (rule off [of _ DlqAll]) (simp_all add: table)
    with d show "dc_on_batch_error d = Propagate" by simp
    have "\<not> (pl_dlq p \<noteq> None \<and> cn_atomicity sink = PerRow)" by (rule off [of _ DlqPerRowSink]) (simp_all add: table)
    with d show "cn_atomicity sink \<noteq> PerRow" by simp }
qed

theorem fast_paths_sound_witness:
  "native_choice (demo_env False) demo_source (demo_sink \<lparr> cn_native_caps := [\<lparr> nc_format = Csv, nc_mechanism = ''load'',
       nc_write_modes = [Append] \<rparr>] \<rparr>) (demo_pipeline True) = Some \<lparr> np_format = Csv, np_mechanism = ''load'' \<rparr>
   \<and> pl_delivery (demo_pipeline True) = AtLeastOnce \<and> \<not> sk_dedups_by_key (demo_env False)"
proof -
  have "native_choice (demo_env False) demo_source (demo_sink \<lparr> cn_native_caps := [\<lparr> nc_format = Csv, nc_mechanism = ''load'',
       nc_write_modes = [Append] \<rparr>] \<rparr>) (demo_pipeline True) = Some \<lparr> np_format = Csv, np_mechanism = ''load'' \<rparr>" by code_simp
  with fast_paths_sound [of "demo_env False" demo_source "demo_sink \<lparr> cn_native_caps := [\<lparr> nc_format = Csv, nc_mechanism = ''load'',
       nc_write_modes = [Append] \<rparr>] \<rparr>" "demo_pipeline True"] show ?thesis by blast
qed

text \<open>
  A cleanup that fails returns at once, so an overwrite that was begun is neither committed nor aborted; the
  combination is refused when a configuration is loaded, and not again by the run.
\<close>

theorem failed_cleanup_keeps_staging:
  assumes "cleanup_of p = Some policy" "cleanup_stage env p policy n res w = (Err e, w')" "AbortOverwrite \<notin> set (en_log w)"
    "CommitOverwrite \<notin> set (en_log w)"
  shows "after_stream env src p n (Ok res) w = (Err e, w') \<and> AbortOverwrite \<notin> set (en_log w') \<and> CommitOverwrite \<notin> set (en_log w')"
proof -
  have "after_stream env src p n (Ok res) w = (Err e, w')"
    using assms(1,2) by (simp add: after_stream_def op_bind_def)
  moreover from assms(2) have "AbortOverwrite \<notin> set (en_log w') \<and> CommitOverwrite \<notin> set (en_log w')"
    by (cases rule: cleanup_stage_cases) (use assms(3,4) in auto)
  ultimately show ?thesis by simp
qed

text \<open>C0. An exactly-once run resumes at the later of the position in the state store and the position its sink has
  committed, and the last bookmark it hands to the source is the one stored with that position.\<close>

theorem resume_anchored:
  assumes eo: "pl_delivery p = ExactlyOnce" "sk_supports_idempotent_writes env" "cs_replay src = Deterministic"
      "pl_has_store p" "cs_state_key src = Some key"
    and stored: "\<And>l. ss_get env l = Ok (Some (StateCodec_encode (StateCodec_for_source (cs_state src) False) (wrap_state (Some b) n)))"
      "b \<noteq> Null"
    and token: "\<And>l. sk_last_committed_token env l = Ok (Some (format_token_with_bookmark (pl_json_print p) m (Some b')))"
      "pl_json_parse p (pl_json_print p b') = Some b'"
    and run: "prepare_run env src sink p [] = (Ok seq, l)"
  shows "seq = max n m
    \<and> (\<exists>l0. l = (if n < m then [StartBookmark b'] else []) @ [SinkToken key, StartBookmark b, StateGet key] @ l0)"
proof -
  from run obtain l0 n1 l1 where "resume_from_state env src p l0 = (Ok n1, l1)" "resume_from_sink env src p n1 l1 = (Ok seq, l)"
    unfolding prepare_run_def by (elim op_bind_OkE)
  moreover from state_position [OF this(1) eo(1,4,5) stored] have "n1 = n" "l1 = StartBookmark b # StateGet key # l0" by simp_all
  ultimately show ?thesis using sink_position [OF _ eo(1-3,5) token] by fastforce
qed

theorem resume_anchored_witness:
  "\<exists>seq l. prepare_run anchored_env demo_source demo_sink anchored_pipeline [] = (Ok seq, l)
     \<and> seq = max 1 2 \<and> StartBookmark (Bool True) \<in> set l"
  using resume_anchored [of anchored_pipeline anchored_env demo_source "''k''" "Bool False" 1 2 "Bool True" demo_sink, OF _ _ _ _ _ _ _ _ _ anchored_start]
  by (auto simp: anchored_start)

end
