(* ===== verification/Spec2Isabelle.thy ===== *)
theory Spec2Isabelle
  imports Pipeline_Once Pipeline_Run
begin

text \<open>
  Verification of the core of faucet-stream (work in progress).
\<close>

end
